(* ===== verification/Thyla_Base.thy ===== *)
theory Thyla_Base
  imports Main "HOL-Library.Word" "HOL-Library.Monad_Syntax"
begin

text \<open>
  The vocabulary the component theories share: Rust's fixed-width integers as words, the
  checked and saturating arithmetic of the standard library, \<open>Result\<close> values as sums
  with a sequencing operator for the \<open>?\<close> operator, and the facts on lists that the byte
  codecs and the tables need.

  \<open>usize\<close> is 64 bits wide on the one target (\<open>aarch64-unknown-none\<close>). Offsets, lengths
  and addresses are \<^typ>\<open>nat\<close>; where the source uses a checked or saturating operation the
  bound \<open>2 ^ 64\<close> is written out, and where it uses plain arithmetic (which panics on
  overflow, \<open>overflow-checks = true\<close> in the workspace profile) the component proves that
  the result stays below the bound.
\<close>

unbundle bit_operations_syntax

type_synonym u8 = "8 word"
type_synonym u16 = "16 word"
type_synonym u32 = "32 word"
type_synonym u64 = "64 word"
type_synonym i32 = "32 word"
type_synonym byte = u8
type_synonym bytes = "u8 list"

text \<open>Collections of the development: the exact layout of the frame writers, the laws of
  the text codecs, and the steps that keep an invariant.\<close>

named_theorems wire_emits "writers and the byte strings they emit"
named_theorems text_codec "printed forms and what they parse to"
named_theorems inv_step "operations that keep a component's invariant"

subsection \<open>usize arithmetic\<close>

definition usize_limit :: nat where
  "usize_limit = 2 ^ 64"

definition isize_max :: nat where
  "isize_max = 2 ^ 63 - 1"

text \<open>\<open>usize::checked_add\<close>, \<open>usize::checked_mul\<close>, \<open>usize::checked_sub\<close>. They also model
  the plain operators where these can panic: \<open>None\<close> is then the panic.\<close>

definition checked_add :: "nat \<Rightarrow> nat \<Rightarrow> nat option" where
  "checked_add a b = (if a + b < usize_limit then Some (a + b) else None)"

definition checked_mul :: "nat \<Rightarrow> nat \<Rightarrow> nat option" where
  "checked_mul a b = (if a * b < usize_limit then Some (a * b) else None)"

definition checked_sub :: "nat \<Rightarrow> nat \<Rightarrow> nat option" where
  "checked_sub a b = (if b \<le> a then Some (a - b) else None)"

definition sat_add :: "'a::len word \<Rightarrow> 'a word \<Rightarrow> 'a word" where
  "sat_add a b = (if unat a + unat b < 2 ^ LENGTH('a) then a + b else - 1)"

definition sat_sub :: "'a::len word \<Rightarrow> 'a word \<Rightarrow> 'a word" where
  "sat_sub a b = (if a < b then 0 else a - b)"

definition sat_mul :: "'a::len word \<Rightarrow> 'a word \<Rightarrow> 'a word" where
  "sat_mul a b = (if unat a * unat b < 2 ^ LENGTH('a) then a * b else - 1)"

lemma checked_add_eq_Some [simp]:
  "checked_add a b = Some c \<longleftrightarrow> c = a + b \<and> a + b < usize_limit"
  by (auto simp: checked_add_def)

lemma checked_sub_eq_Some [simp]:
  "checked_sub a b = Some c \<longleftrightarrow> c = a - b \<and> b \<le> a"
  by (auto simp: checked_sub_def)

lemma checked_mul_eq_Some [simp]:
  "checked_mul a b = Some c \<longleftrightarrow> c = a * b \<and> a * b < usize_limit"
  by (auto simp: checked_mul_def)

lemma unat_all_ones: "unat (- 1 :: 'a::len word) = 2 ^ LENGTH('a) - 1"
  by (simp add: unsigned_minus_1_eq_mask mask_eq_exp_minus_1)

lemma unat_sat_add: "unat (sat_add a (b :: 'a::len word)) = min (unat a + unat b) (2 ^ LENGTH('a) - 1)"
proof (cases "unat a + unat b < 2 ^ LENGTH('a)")
  case True
  then have "unat (a + b) = unat a + unat b"
    by (simp add: unat_word_ariths)
  with True show ?thesis by (simp add: sat_add_def)
next
  case False
  then show ?thesis by (simp add: sat_add_def unat_all_ones)
qed

lemma unat_sat_sub: "unat (sat_sub a (b :: 'a::len word)) = unat a - unat b"
  by (auto simp: sat_sub_def word_less_nat_alt unat_sub word_le_nat_alt)

lemma unat_sat_mul: "unat (sat_mul a (b :: 'a::len word)) = min (unat a * unat b) (2 ^ LENGTH('a) - 1)"
proof (cases "unat a * unat b < 2 ^ LENGTH('a)")
  case True
  then have "unat (a * b) = unat a * unat b"
    by (simp add: unat_word_ariths)
  with True show ?thesis by (simp add: sat_mul_def)
next
  case False
  then show ?thesis by (simp add: sat_mul_def unat_all_ones)
qed

text \<open>Counting up and down on words that do not reach the end of their range.\<close>

lemma unat_of_nat_small:
  assumes "k \<le> unat (w :: 'a::len word)"
  shows "unat (of_nat k :: 'a word) = k"
proof -
  have "k < 2 ^ LENGTH('a)"
    by (rule le_less_trans [OF assms unsigned_less])
  then show ?thesis by (simp add: unat_of_nat take_bit_eq_mod)
qed

lemma unat_Suc_less:
  assumes "n < (m :: 'a::len word)"
  shows "unat (n + 1) = unat n + 1"
proof -
  have "unat n + 1 \<le> unat m" using assms by (simp add: word_less_nat_alt)
  then have "unat n + 1 < 2 ^ LENGTH('a)" by (rule le_less_trans) (rule unsigned_less)
  then show ?thesis by (simp add: unat_word_ariths)
qed

lemma unat_Suc_diff:
  assumes "seen \<noteq> (cur :: 'a::len word)"
  shows "unat (cur - seen) = Suc (unat (cur - (seen + 1)))"
proof -
  have "cur - seen \<noteq> 0" using assms by simp
  then have "unat (cur - seen - 1) = unat (cur - seen) - 1" and "0 < unat (cur - seen)"
    by (simp_all add: unat_minus_one unat_gt_0)
  then show ?thesis by (simp add: diff_diff_eq)
qed

lemma unat_diff_of_nat:
  "k \<le> unat w \<Longrightarrow> unat (w - of_nat k) = unat w - k" for w :: "'a::len word"
  by (simp add: unat_sub word_le_nat_alt unat_of_nat_small)

lemma unat_ucast_up:
  assumes "LENGTH('a) \<le> LENGTH('b)"
  shows "unat (ucast (w :: 'a::len word) :: 'b::len word) = unat w"
proof -
  have "unat w < 2 ^ LENGTH('a)" by (rule unsigned_less)
  also have "\<dots> \<le> 2 ^ LENGTH('b)" using assms by (intro power_increasing) simp_all
  finally show ?thesis by (simp add: unsigned_ucast_eq take_bit_nat_eq_self_iff)
qed

lemma ucast_up_down:
  assumes "LENGTH('a) \<le> LENGTH('b)"
  shows "ucast (ucast w :: 'b::len word) = (w :: 'a::len word)"
  using assms by (intro bit_word_eqI) (auto simp: bit_simps)

text \<open>Rounding down to a power of two by masking.\<close>

lemma unat_and_not_mask:
  "unat (w AND NOT (mask n)) = unat w div 2 ^ n * 2 ^ n" for w :: "'a::len word"
proof -
  have "(w AND mask n) AND (w AND NOT (mask n)) = 0" and "(w AND mask n) OR (w AND NOT (mask n)) = w"
    by (auto simp: bit_eq_iff bit_simps)
  then have "take_bit n w + (w AND NOT (mask n)) = w"
    using word_plus_and_or [of "w AND mask n" "w AND NOT (mask n)"] by (simp add: take_bit_eq_mask)
  then have "w AND NOT (mask n) = w - take_bit n w"
    by (metis add_diff_cancel_left')
  moreover have low: "unat (take_bit n w) = unat w mod 2 ^ n"
    by (simp only: unsigned_take_bit_eq take_bit_eq_mod [where 'a = nat])
  moreover have "take_bit n w \<le> w"
    by (simp add: word_le_nat_alt low)
  ultimately show ?thesis
    by (simp add: unat_sub minus_mod_eq_div_mult)
qed

subsection \<open>Results\<close>

text \<open>\<open>Result<T, E>\<close> is \<open>'e + 'a\<close>, and \<open>m?\<close> followed by the rest of the function is
  \<open>andthen m rest\<close>. \<open>ok_or\<close> is \<open>Option::ok_or\<close>.\<close>

definition andthen :: "'e + 'a \<Rightarrow> ('a \<Rightarrow> 'e + 'b) \<Rightarrow> 'e + 'b" where
  "andthen m f = (case m of Inl e \<Rightarrow> Inl e | Inr a \<Rightarrow> f a)"

definition ok_or :: "'e \<Rightarrow> 'a option \<Rightarrow> 'e + 'a" where
  "ok_or e x = (case x of None \<Rightarrow> Inl e | Some a \<Rightarrow> Inr a)"

lemma andthen_simps [simp]:
  "andthen (Inl e) f = Inl e"
  "andthen (Inr a) f = f a"
  by (simp_all add: andthen_def)

lemma ok_or_simps [simp]:
  "ok_or e None = Inl e"
  "ok_or e (Some a) = Inr a"
  by (simp_all add: ok_or_def)

lemma andthen_eq_Inr:
  "andthen m f = Inr b \<longleftrightarrow> (\<exists>a. m = Inr a \<and> f a = Inr b)"
  by (cases m) auto

lemma ok_or_eq_Inr [simp]: "ok_or e x = Inr a \<longleftrightarrow> x = Some a"
  by (cases x) auto

lemma guard_None [simp]: "(if b then None else x) = Some y \<longleftrightarrow> \<not> b \<and> x = Some y"
  by simp

lemma guard_Inl [simp]: "(if b then Inl e else x) = Inr y \<longleftrightarrow> \<not> b \<and> x = Inr y"
  by simp

lemma andthen_cong [fundef_cong]:
  assumes "m = m'" and "\<And>a. m' = Inr a \<Longrightarrow> f a = g a"
  shows "andthen m f = andthen m' g"
  using assms by (cases m') auto

subsection \<open>Lists\<close>

lemma list_update_append_exact [simp]: "(xs @ y # ys)[length xs := z] = xs @ z # ys"
  by (simp add: list_update_append)

lemma map_of_find:
  "find P xs = Some x \<Longrightarrow> x \<in> set xs \<and> P x"
  by (induction xs) (auto split: if_splits)

lemma find_None_all: "find P xs = None \<longleftrightarrow> (\<forall>x\<in>set xs. \<not> P x)"
  by (induction xs) auto

lemma sum_list_map_update:
  fixes f :: "'a \<Rightarrow> nat"
  assumes "i < length xs"
  shows "sum_list (map f (xs[i := x])) + f (xs ! i) = sum_list (map f xs) + f x"
  using assms
proof (induction xs arbitrary: i)
  case Nil
  then show ?case by simp
next
  case (Cons a xs)
  then show ?case by (cases i) auto
qed

section \<open>Searching a slice\<close>

text \<open>\<open>Iterator::position\<close>.\<close>

fun position :: "('a \<Rightarrow> bool) \<Rightarrow> 'a list \<Rightarrow> nat option" where
  "position P [] = None"
| "position P (x # xs) = (if P x then Some 0 else map_option Suc (position P xs))"

lemma position_Some:
  "position P xs = Some i \<Longrightarrow> i < length xs \<and> P (xs ! i) \<and> xs = take i xs @ xs ! i # drop (i + 1) xs"
  by (induction xs arbitrary: i) (auto split: if_splits)

lemma position_None: "position P xs = None \<longleftrightarrow> \<not> list_ex P xs"
  by (induction xs) auto

end
