(* ===== verification/Ninep_Wire.thy ===== *)
theory Ninep_Wire
  imports Thyla_Base
begin

text \<open>
  The primitive layer of the 9P2000.L codec, \<open>usr/lib/ninep/src/lib.rs\<close>: the little-endian
  unpackers over a received buffer, the packers over a caller-supplied output buffer, the
  qid, the 7-byte header. An unpacker returns the value and the next offset, or \<open>None\<close>
  for \<open>Err(())\<close>. A packer is a state transformer on the output buffer: on an error the
  buffer keeps whatever was written before it.

  The interface of one field is the locale \<open>wire_codec\<close>: what its encoding is, when its
  unpacker succeeds and what its packer writes. The message layer rests on it.
\<close>

section \<open>Encodings\<close>

text \<open>The canonical little-endian byte strings the wire format prescribes.\<close>

definition le16 :: "u16 \<Rightarrow> bytes" where
  "le16 v = [ucast v, ucast (drop_bit 8 v)]"

definition le32 :: "u32 \<Rightarrow> bytes" where
  "le32 v = [ucast v, ucast (drop_bit 8 v), ucast (drop_bit 16 v), ucast (drop_bit 24 v)]"

definition le64 :: "u64 \<Rightarrow> bytes" where
  "le64 v = map (\<lambda>i. ucast (drop_bit (8 * i) v)) [0..<8]"

definition wire_str :: "bytes \<Rightarrow> bytes" where
  "wire_str s = le16 (of_nat (length s)) @ s"

definition wire_str_ok :: "bytes \<Rightarrow> bool" where
  "wire_str_ok s \<longleftrightarrow> length s \<le> 65535"

lemma length_le [simp]:
  "length (le16 a) = 2" "length (le32 b) = 4" "length (le64 c) = 8"
  "length (wire_str s) = 2 + length s"
  by (simp_all add: le16_def le32_def le64_def wire_str_def)

section \<open>Unpackers\<close>

definition unpack_u8 :: "bytes \<Rightarrow> nat \<Rightarrow> (u8 \<times> nat) option" where
  "unpack_u8 buf off = (if length buf < off + 1 then None else Some (buf ! off, off + 1))"

definition unpack_u16 :: "bytes \<Rightarrow> nat \<Rightarrow> (u16 \<times> nat) option" where
  "unpack_u16 buf off =
     (if length buf < off + 2 then None
      else let v = ucast (buf ! off) OR push_bit 8 (ucast (buf ! (off + 1)))
           in Some (v, off + 2))"

definition unpack_u32 :: "bytes \<Rightarrow> nat \<Rightarrow> (u32 \<times> nat) option" where
  "unpack_u32 buf off =
     (if length buf < off + 4 then None
      else let v = ucast (buf ! off)
                 OR push_bit 8 (ucast (buf ! (off + 1)))
                 OR push_bit 16 (ucast (buf ! (off + 2)))
                 OR push_bit 24 (ucast (buf ! (off + 3)))
           in Some (v, off + 4))"

definition unpack_u64 :: "bytes \<Rightarrow> nat \<Rightarrow> (u64 \<times> nat) option" where
  "unpack_u64 buf off =
     (if length buf < off + 8 then None
      else let v = fold (\<lambda>i v. v OR push_bit (8 * i) (ucast (buf ! (off + i)))) [0..<8] 0
           in Some (v, off + 8))"

definition unpack_str :: "bytes \<Rightarrow> nat \<Rightarrow> (bytes \<times> nat) option" where
  "unpack_str buf off = do {
     (len, p) \<leftarrow> unpack_u16 buf off;
     let end' = p + unat len;
     if length buf < end' then None
     else Some (take (end' - p) (drop p buf), end')
   }"

section \<open>Packers\<close>

text \<open>\<open>&mut [u8]\<close> threaded through a fallible function: the result, \<open>None\<close> for
  \<open>Err(())\<close>, and the buffer it leaves. \<open>bindW\<close> is the \<open>?\<close> operator.\<close>

type_synonym 'a wr = "bytes \<Rightarrow> 'a option \<times> bytes"

definition retW :: "'a \<Rightarrow> 'a wr" where
  "retW a = (\<lambda>out. (Some a, out))"

definition bindW :: "'a wr \<Rightarrow> ('a \<Rightarrow> 'b wr) \<Rightarrow> 'b wr" where
  "bindW m f = (\<lambda>out. case m out of (None, out') \<Rightarrow> (None, out') | (Some a, out') \<Rightarrow> f a out')"

definition pack_u8 :: "nat \<Rightarrow> u8 \<Rightarrow> nat wr" where
  "pack_u8 off v = (\<lambda>out.
     if length out < off + 1 then (None, out) else (Some (off + 1), out[off := v]))"

definition pack_u16 :: "nat \<Rightarrow> u16 \<Rightarrow> nat wr" where
  "pack_u16 off v = (\<lambda>out.
     if length out < off + 2 then (None, out)
     else (Some (off + 2),
       out[off := ucast (v AND 0xff), off + 1 := ucast (drop_bit 8 v AND 0xff)]))"

definition pack_u32 :: "nat \<Rightarrow> u32 \<Rightarrow> nat wr" where
  "pack_u32 off v = (\<lambda>out.
     if length out < off + 4 then (None, out)
     else (Some (off + 4),
       out[off := ucast (v AND 0xff),
           off + 1 := ucast (drop_bit 8 v AND 0xff),
           off + 2 := ucast (drop_bit 16 v AND 0xff),
           off + 3 := ucast (drop_bit 24 v AND 0xff)]))"

definition pack_u64 :: "nat \<Rightarrow> u64 \<Rightarrow> nat wr" where
  "pack_u64 off v = (\<lambda>out.
     if length out < off + 8 then (None, out)
     else (Some (off + 8),
       fold (\<lambda>i out. out[off + i := ucast (drop_bit (8 * i) v AND 0xff)]) [0..<8] out))"

text \<open>\<open>out[off..off + s.len()].copy_from_slice(s)\<close>.\<close>

definition overwrite :: "nat \<Rightarrow> bytes \<Rightarrow> bytes \<Rightarrow> bytes" where
  "overwrite off s out = take off out @ s @ drop (off + length s) out"

definition pack_str :: "nat \<Rightarrow> bytes \<Rightarrow> nat wr" where
  "pack_str off s = (\<lambda>out.
     if length s > 65535 then (None, out)
     else bindW (pack_u16 off (of_nat (length s))) (\<lambda>off out.
       if length out < off + length s then (None, out)
       else (Some (off + length s), overwrite off s out)) out)"

text \<open>The in-memory qid, packed as kind, version and path in 13 bytes.\<close>

record qid =
  qid_kind :: u8
  qid_version :: u32
  qid_path :: u64

definition pack_qid :: "nat \<Rightarrow> qid \<Rightarrow> nat wr" where
  "pack_qid off q =
     bindW (pack_u8 off (qid_kind q)) (\<lambda>off.
     bindW (pack_u32 off (qid_version q)) (\<lambda>off.
     pack_u64 off (qid_path q)))"

definition wire_qid :: "qid \<Rightarrow> bytes" where
  "wire_qid q = [qid_kind q] @ le32 (qid_version q) @ le64 (qid_path q)"

lemma length_wire_qid [simp]: "length (wire_qid q) = 13"
  by (simp add: wire_qid_def)

section \<open>Placement of bytes in a buffer\<close>

definition has_at :: "bytes \<Rightarrow> nat \<Rightarrow> bytes \<Rightarrow> bool" where
  "has_at buf off bs \<longleftrightarrow> off + length bs \<le> length buf \<and> take (length bs) (drop off buf) = bs"

lemma has_at_append:
  "has_at buf off (xs @ ys) \<longleftrightarrow> has_at buf off xs \<and> has_at buf (off + length xs) ys"
proof (cases "off + length xs + length ys \<le> length buf")
  case True
  then have "take (length xs + length ys) (drop off buf)
      = take (length xs) (drop off buf) @ take (length ys) (drop (off + length xs) buf)"
    by (simp add: take_add add.commute)
  moreover have "length (take (length xs) (drop off buf)) = length xs"
    using True by simp
  ultimately have "take (length xs + length ys) (drop off buf) = xs @ ys \<longleftrightarrow>
      take (length xs) (drop off buf) = xs \<and> take (length ys) (drop (off + length xs) buf) = ys"
    by simp
  with True show ?thesis by (auto simp: has_at_def)
next
  case False
  then show ?thesis by (auto simp: has_at_def)
qed

lemma has_at_Nil [simp]: "has_at buf off [] \<longleftrightarrow> off \<le> length buf"
  by (simp add: has_at_def)

lemma has_at_Cons:
  "has_at buf off (b # bs) \<longleftrightarrow> off < length buf \<and> buf ! off = b \<and> has_at buf (off + 1) bs"
  by (cases "off < length buf")
     (auto simp: has_at_def Cons_nth_drop_Suc [symmetric])

lemma has_at_le: "has_at buf off bs \<Longrightarrow> off + length bs \<le> length buf"
  by (simp add: has_at_def)

lemma has_at_prefix: "has_at (xs @ bs @ ys) (length xs) bs"
  by (simp add: has_at_def)

lemma has_at_split:
  assumes "has_at buf off bs"
  shows "buf = take off buf @ bs @ drop (off + length bs) buf"
proof -
  have "buf = take off buf @ take (length bs) (drop off buf) @ drop (length bs) (drop off buf)"
    by (simp only: append_take_drop_id)
  with assms show ?thesis by (simp add: has_at_def add.commute)
qed

lemma length_overwrite [simp]:
  "off + length s \<le> length out \<Longrightarrow> length (overwrite off s out) = length out"
  by (simp add: overwrite_def)

lemma has_at_overwrite: "off + length s \<le> length out \<Longrightarrow> has_at (overwrite off s out) off s"
  using has_at_prefix [of "take off out" s "drop (off + length s) out"]
  by (simp add: overwrite_def min_absorb2)

lemma overwrite_overwrite:
  assumes "off + length s + length t \<le> length out"
  shows "overwrite (off + length s) t (overwrite off s out) = overwrite off (s @ t) out"
proof -
  have "take (off + length s) (overwrite off s out) = take off out @ s"
    using assms by (simp add: overwrite_def min_absorb2)
  moreover have "drop (off + length s + length t) (overwrite off s out)
      = drop (off + length s + length t) out"
    using assms by (simp add: overwrite_def min_absorb2 ac_simps)
  ultimately show ?thesis by (simp add: overwrite_def add.assoc)
qed

lemma overwrite_Nil [simp]: "off \<le> length out \<Longrightarrow> overwrite off [] out = out"
  by (simp add: overwrite_def)

lemma overwrite_Cons:
  assumes "off + length s < length out"
  shows "overwrite off (b # s) out = overwrite (off + 1) s (out[off := b])"
proof -
  have "take (Suc off) (out[off := b]) = take off out @ [b]"
    using assms by (simp add: take_Suc_conv_app_nth)
  with assms show ?thesis by (simp add: overwrite_def)
qed

lemma overwrite_0: "overwrite 0 s out = s @ drop (length s) out"
  by (simp add: overwrite_def)

section \<open>What a writer emits\<close>

text \<open>
  \<open>emits off bs m\<close>: run at offset \<open>off\<close>, the writer \<open>m\<close> either finds room for \<open>bs\<close>,
  writes exactly those bytes there, leaves every other byte alone and returns the offset
  past them; or it does not and fails. The rule \<open>emits_bind\<close> composes it along the \<open>?\<close>
  chain, so the layout of a message is the concatenation of its fields.
\<close>

definition emits :: "nat \<Rightarrow> bytes \<Rightarrow> nat wr \<Rightarrow> bool" where
  "emits off bs m \<longleftrightarrow> (\<forall>out.
     if off + length bs \<le> length out
     then m out = (Some (off + length bs), overwrite off bs out)
     else fst (m out) = None)"

lemma emitsI:
  assumes "\<And>out. off + length bs \<le> length out \<Longrightarrow>
      m out = (Some (off + length bs), overwrite off bs out)"
    and "\<And>out. length out < off + length bs \<Longrightarrow> fst (m out) = None"
  shows "emits off bs m"
  using assms by (auto simp: emits_def)

lemma emits_fits:
  "emits off bs m \<Longrightarrow> off + length bs \<le> length out \<Longrightarrow>
     m out = (Some (off + length bs), overwrite off bs out)"
  by (auto simp: emits_def dest: spec [of _ out])

lemma emits_short:
  "emits off bs m \<Longrightarrow> length out < off + length bs \<Longrightarrow> fst (m out) = None"
  by (auto simp: emits_def not_le dest: spec [of _ out])

lemma emits_bind [wire_emits]:
  assumes m: "emits off bs m" and f: "emits (off + length bs) cs (f (off + length bs))"
  shows "emits off (bs @ cs) (bindW m f)"
proof (rule emitsI)
  fix out :: bytes
  assume "off + length (bs @ cs) \<le> length out"
  then have fit: "off + length bs + length cs \<le> length out" by simp
  then have "m out = (Some (off + length bs), overwrite off bs out)"
    using emits_fits [OF m] by simp
  moreover have "f (off + length bs) (overwrite off bs out)
      = (Some (off + length bs + length cs), overwrite (off + length bs) cs (overwrite off bs out))"
    using emits_fits [OF f] fit by simp
  ultimately show "bindW m f out = (Some (off + length (bs @ cs)), overwrite off (bs @ cs) out)"
    using overwrite_overwrite [OF fit] by (simp add: bindW_def add.assoc)
next
  fix out :: bytes
  assume short: "length out < off + length (bs @ cs)"
  show "fst (bindW m f out) = None"
  proof (cases "off + length bs \<le> length out")
    case True
    then have "m out = (Some (off + length bs), overwrite off bs out)"
      using emits_fits [OF m] by simp
    moreover have "fst (f (off + length bs) (overwrite off bs out)) = None"
      using emits_short [OF f] short True by simp
    ultimately show ?thesis by (simp add: bindW_def)
  next
    case False
    then have "fst (m out) = None" using emits_short [OF m] by simp
    then show ?thesis by (auto simp: bindW_def split: prod.splits option.splits)
  qed
qed

lemma emits_copy [wire_emits]:
  "emits off s (\<lambda>out. if length out < off + length s then (None, out)
     else (Some (off + length s), overwrite off s out))"
  by (rule emitsI) auto

section \<open>Bytes of a word\<close>

text \<open>\<open>join8 n f\<close> ors the bytes \<open>f 0, f 1, \<dots>\<close> into place, lowest first: the shape of every
  little-endian read.\<close>

definition join8 :: "nat \<Rightarrow> (nat \<Rightarrow> u8) \<Rightarrow> 'a::len word" where
  "join8 n f = fold (\<lambda>i v. v OR push_bit (8 * i) (ucast (f i))) [0..<n] 0"

lemma bit_join8:
  "bit (join8 n f :: 'a::len word) k \<longleftrightarrow> k < LENGTH('a) \<and> k div 8 < n \<and> bit (f (k div 8)) (k mod 8)"
proof (induction n)
  case 0
  then show ?case by (simp add: join8_def)
next
  case (Suc n)
  have step: "join8 (Suc n) f = join8 n f OR push_bit (8 * n) (ucast (f n) :: 'a word)"
    by (simp add: join8_def)
  have top: "bit (push_bit (8 * n) (ucast (f n)) :: 'a word) k \<longleftrightarrow>
      k < LENGTH('a) \<and> k div 8 = n \<and> bit (f n) (k mod 8)"
  proof (cases "k div 8 = n")
    case True
    then have "k = 8 * n + k mod 8" by (metis mult_div_mod_eq)
    then have "8 * n \<le> k" "k - 8 * n = k mod 8" by linarith+
    moreover have "k mod 8 \<le> k" by simp
    ultimately show ?thesis
      using True by (auto simp: bit_simps intro: le_less_trans)
  next
    case False
    have "8 * n \<le> k \<Longrightarrow> \<not> k - 8 * n < 8"
      using False by (auto simp: div_nat_eqI)
    then show ?thesis
      using False by (auto simp: bit_simps dest: bit_imp_le_length)
  qed
  show ?case
    by (simp add: step bit_or_iff Suc.IH top) (auto simp: less_Suc_eq)
qed

lemma join8_eq_iff:
  assumes "LENGTH('a) = 8 * n"
  shows "join8 n f = (v :: 'a::len word) \<longleftrightarrow> (\<forall>i<n. f i = ucast (drop_bit (8 * i) v))"
proof
  assume j: "join8 n f = v"
  show "\<forall>i<n. f i = ucast (drop_bit (8 * i) v)"
  proof (intro allI impI bit_word_eqI)
    fix i k assume "i < n" and "k < LENGTH(8)"
    then have "bit v (8 * i + k) \<longleftrightarrow> bit (f i) k"
      using assms bit_join8 [of n f "8 * i + k", where 'a = 'a] j by simp
    with \<open>k < LENGTH(8)\<close> show "bit (f i) k \<longleftrightarrow> bit (ucast (drop_bit (8 * i) v) :: u8) k"
      by (simp add: bit_simps)
  qed
next
  assume "\<forall>i<n. f i = ucast (drop_bit (8 * i) v)"
  then have f: "f i = ucast (drop_bit (8 * i) v)" if "i < n" for i
    using that by blast
  have "bit (join8 n f :: 'a word) k \<longleftrightarrow> bit v k" if "k < LENGTH('a)" for k
  proof -
    have "k div 8 < n" using that assms by (simp add: less_mult_imp_div_less mult.commute)
    moreover have "8 * (k div 8) + k mod 8 = k" by simp
    ultimately show ?thesis using that by (simp add: bit_join8 f bit_simps del: mult_div_mod_eq)
  qed
  then show "join8 n f = v" by (rule bit_word_eqI)
qed

lemma join8_2: "join8 2 f = ucast (f 0) OR push_bit 8 (ucast (f 1))"
  by (simp add: join8_def numeral_2_eq_2)
lemma join8_4: "join8 4 f = ucast (f 0) OR push_bit 8 (ucast (f 1)) OR push_bit 16 (ucast (f 2)) OR push_bit 24 (ucast (f 3))"
  by (simp add: join8_def upt_rec numeral_eq_Suc or.assoc)


lemma mask_byte [simp]: "ucast (w AND 0xff :: 'a::len word) = (ucast w :: u8)"
proof -
  have "(0xff :: 'a word) = mask 8"
    by (simp add: mask_eq_exp_minus_1)
  then have "ucast (w AND 0xff) = (ucast (w AND mask 8) :: u8)" by (simp only:)
  also have "\<dots> = ucast w"
    by (rule bit_word_eqI) (auto simp: bit_simps dest: bit_imp_le_length)
  finally show ?thesis .
qed

section \<open>The interface of a field\<close>

text \<open>
  A field of the wire format: its encoding, the values it can carry, the unpacker and the
  packer. The two laws say that the unpacker accepts exactly the encodings and that the
  packer writes them; everything the message layer needs of a field follows.
\<close>

locale wire_codec =
  fixes enc :: "'a \<Rightarrow> bytes"
    and ok :: "'a \<Rightarrow> bool"
    and unpack :: "bytes \<Rightarrow> nat \<Rightarrow> ('a \<times> nat) option"
    and pack :: "nat \<Rightarrow> 'a \<Rightarrow> nat wr"
  assumes unpack_iff: "unpack buf off = Some (v, p) \<longleftrightarrow>
      ok v \<and> has_at buf off (enc v) \<and> p = off + length (enc v)"
    and pack_emits: "ok v \<Longrightarrow> emits off (enc v) (pack off v)"
    and pack_refuses: "\<not> ok v \<Longrightarrow> fst (pack off v out) = None"
begin

lemma unpack_at: "ok v \<Longrightarrow> has_at buf off (enc v) \<Longrightarrow> unpack buf off = Some (v, off + length (enc v))"
  by (simp add: unpack_iff)

lemma unpack_in_bounds: "unpack buf off = Some (v, p) \<Longrightarrow> off \<le> p \<and> p \<le> length buf"
  by (auto simp: unpack_iff dest: has_at_le)

lemma pack_ok: "fst (pack off v out) = Some p \<Longrightarrow> ok v \<and> off + length (enc v) \<le> length out"
  using pack_refuses [of v off out] emits_short [OF pack_emits, of v out off]
  by (cases "ok v"; cases "off + length (enc v) \<le> length out") auto

lemma pack_result:
  assumes "pack off v out = (Some p, out')"
  shows "p = off + length (enc v) \<and> out' = overwrite off (enc v) out"
proof -
  have "fst (pack off v out) = Some p" using assms by simp
  then have "ok v" and "off + length (enc v) \<le> length out"
    by (simp_all add: pack_ok)
  then show ?thesis
    using emits_fits [OF pack_emits] assms by auto
qed

lemma pack_then_unpack:
  assumes "pack off v out = (Some p, out')"
  shows "unpack out' off = Some (v, p)"
proof -
  have "ok v" and fit: "off + length (enc v) \<le> length out"
    using pack_ok [of off v out p] assms by simp_all
  moreover have "p = off + length (enc v)" "out' = overwrite off (enc v) out"
    using pack_result [OF assms] by simp_all
  ultimately show ?thesis
    by (simp add: unpack_at has_at_overwrite)
qed

lemma pack_frame:
  assumes "pack off v out = (Some p, out')"
  shows "length out' = length out \<and> take off out' = take off out \<and> drop p out' = drop p out"
proof -
  have "off + length (enc v) \<le> length out"
    using pack_ok [of off v out p] assms by simp
  then show ?thesis
    using pack_result [OF assms] by (simp add: overwrite_def min_absorb2)
qed

lemma enc_determines:
  assumes "ok v" and "ok w" and "enc v = enc w"
  shows "v = w"
proof -
  have "has_at (enc v) 0 (enc v)" and "has_at (enc v) 0 (enc w)"
    using assms(3) by (simp_all add: has_at_def)
  then have "unpack (enc v) 0 = Some (v, length (enc v))"
    and "unpack (enc v) 0 = Some (w, length (enc w))"
    using assms unpack_at [of v "enc v" 0] unpack_at [of w "enc v" 0] by simp_all
  then show ?thesis by simp
qed

end

section \<open>The five fields\<close>

lemma has_at_map_upt:
  "has_at buf off (map g [0..<n]) \<longleftrightarrow> off + n \<le> length buf \<and> (\<forall>i<n. buf ! (off + i) = g i)"
  by (auto simp: has_at_def list_eq_iff_nth_eq)

lemma le16_map: "le16 v = map (\<lambda>i. ucast (drop_bit (8 * i) v)) [0..<2]"
  by (simp add: le16_def upt_rec)

lemma le32_map: "le32 v = map (\<lambda>i. ucast (drop_bit (8 * i) v)) [0..<4]"
  by (simp add: le32_def upt_rec)

lemma has_at_le16:
  "has_at buf off (le16 v) \<longleftrightarrow>
     off + 2 \<le> length buf \<and> ucast (buf ! off) OR push_bit 8 (ucast (buf ! (off + 1))) = v"
  using join8_eq_iff [where 'a = 16 and n = 2 and f = "\<lambda>i. buf ! (off + i)" and v = v]
  by (simp add: le16_map has_at_map_upt join8_2)

lemma has_at_le32:
  "has_at buf off (le32 v) \<longleftrightarrow>
     off + 4 \<le> length buf \<and>
     ucast (buf ! off) OR push_bit 8 (ucast (buf ! (off + 1))) OR
     push_bit 16 (ucast (buf ! (off + 2))) OR push_bit 24 (ucast (buf ! (off + 3))) = v"
  using join8_eq_iff [where 'a = 32 and n = 4 and f = "\<lambda>i. buf ! (off + i)" and v = v]
  by (simp add: le32_map has_at_map_upt join8_4)

lemma has_at_le64:
  "has_at buf off (le64 v) \<longleftrightarrow>
     off + 8 \<le> length buf \<and> join8 8 (\<lambda>i. buf ! (off + i)) = v"
  using join8_eq_iff [where 'a = 64 and n = 8 and f = "\<lambda>i. buf ! (off + i)" and v = v]
  by (simp add: le64_def has_at_map_upt)

lemma emits_u8 [wire_emits]: "emits off [v] (pack_u8 off v)"
  by (rule emitsI) (auto simp: pack_u8_def overwrite_Cons)

lemma emits_u16 [wire_emits]: "emits off (le16 v) (pack_u16 off v)"
  by (rule emitsI) (auto simp: pack_u16_def le16_def overwrite_Cons)

lemma emits_u32 [wire_emits]: "emits off (le32 v) (pack_u32 off v)"
  by (rule emitsI) (auto simp: pack_u32_def le32_def overwrite_Cons numeral_eq_Suc)

lemma emits_u64 [wire_emits]: "emits off (le64 v) (pack_u64 off v)"
  by (rule emitsI) (auto simp: pack_u64_def le64_def overwrite_Cons upt_rec numeral_eq_Suc)

lemma wire_str_le: "wire_str_ok s \<Longrightarrow> unat (of_nat (length s) :: u16) = length s"
  by (simp add: wire_str_ok_def unat_of_nat take_bit_eq_mod)

lemma emits_str [wire_emits]:
  assumes "wire_str_ok s"
  shows "emits off (wire_str s) (pack_str off s)"
proof -
  have "pack_str off s = bindW (pack_u16 off (of_nat (length s)))
      (\<lambda>off out. if length out < off + length s then (None, out)
        else (Some (off + length s), overwrite off s out))"
    using assms by (simp add: pack_str_def wire_str_ok_def)
  then show ?thesis
    unfolding wire_str_def by (simp only:) (intro wire_emits)
qed

lemma emits_qid [wire_emits]: "emits off (wire_qid q) (pack_qid off q)"
  unfolding pack_qid_def wire_qid_def by (intro wire_emits)

interpretation u8_field: wire_codec "\<lambda>v. [v]" "\<lambda>_. True" unpack_u8 pack_u8
  by unfold_locales (auto simp: unpack_u8_def has_at_Cons intro: wire_emits)

interpretation u16_field: wire_codec le16 "\<lambda>_. True" unpack_u16 pack_u16
  by unfold_locales (auto simp: unpack_u16_def has_at_le16 Let_def intro: wire_emits)

interpretation u32_field: wire_codec le32 "\<lambda>_. True" unpack_u32 pack_u32
  by unfold_locales (auto simp: unpack_u32_def has_at_le32 Let_def intro: wire_emits)

interpretation u64_field: wire_codec le64 "\<lambda>_. True" unpack_u64 pack_u64
  by unfold_locales
     (auto simp: unpack_u64_def has_at_le64 join8_def Let_def simp del: upt_rec_numeral intro: wire_emits)

lemma unpack_str_unfold:
  "unpack_str buf off = Some (s, p) \<longleftrightarrow>
     (\<exists>len. has_at buf off (le16 len) \<and> off + 2 + unat len \<le> length buf \<and>
        take (unat len) (drop (off + 2) buf) = s \<and> p = off + 2 + unat len)"
  by (auto simp: unpack_str_def bind_eq_Some_conv u16_field.unpack_iff Let_def not_less)

lemma has_at_slice:
  "off + n \<le> length buf \<and> take n (drop off buf) = d \<longleftrightarrow> length d = n \<and> has_at buf off d"
  by (auto simp: has_at_def)

lemma unpack_str_iff:
  "unpack_str buf off = Some (s, p) \<longleftrightarrow>
     wire_str_ok s \<and> has_at buf off (wire_str s) \<and> p = off + length (wire_str s)"
proof
  assume "unpack_str buf off = Some (s, p)"
  then obtain len where "has_at buf off (le16 len)" "has_at buf (off + 2) s"
    and len: "length s = unat len" and "p = off + 2 + unat len"
    unfolding unpack_str_unfold using has_at_slice by blast
  moreover have "wire_str_ok s"
    using len unsigned_less [of len, where 'a = nat] by (simp add: wire_str_ok_def)
  ultimately show "wire_str_ok s \<and> has_at buf off (wire_str s) \<and> p = off + length (wire_str s)"
    by (simp add: wire_str_def has_at_append)
next
  assume a: "wire_str_ok s \<and> has_at buf off (wire_str s) \<and> p = off + length (wire_str s)"
  let ?n = "of_nat (length s) :: u16"
  from a have n: "unat ?n = length s" by (simp add: wire_str_le)
  from a have "has_at buf off (le16 ?n)" and s: "has_at buf (off + 2) s"
    by (simp_all add: wire_str_def has_at_append)
  moreover have "off + 2 + unat ?n \<le> length buf \<and> take (unat ?n) (drop (off + 2) buf) = s"
    unfolding has_at_slice using n s by simp
  ultimately show "unpack_str buf off = Some (s, p)"
    unfolding unpack_str_unfold using a n by (intro exI [of _ ?n]) simp
qed

lemma pack_str_refuses: "\<not> wire_str_ok s \<Longrightarrow> fst (pack_str off s out) = None"
  by (simp add: pack_str_def wire_str_ok_def)

interpretation str_field: wire_codec wire_str wire_str_ok unpack_str pack_str
  by unfold_locales (simp_all add: unpack_str_iff emits_str pack_str_refuses)

lemmas unpack_fields =
  u8_field.unpack_iff u16_field.unpack_iff u32_field.unpack_iff u64_field.unpack_iff
  str_field.unpack_iff

end
