(* ===== verification/Ninep_Msgs.thy ===== *)
theory Ninep_Msgs
  imports Ninep_Wire
begin

text \<open>
  The message layer of the 9P2000.L codec, \<open>usr/lib/ninep/src/lib.rs\<close>: the header, the
  parsers of the requests a server receives, the builders of the replies it sends, the
  Weft extension in both directions, directory entries and the readiness answer. The
  parsers read a full frame from offset \<open>P9_HDR_LEN\<close>; the builders write a frame from
  offset 0 and patch its size field last.
\<close>

section \<open>Constants\<close>

definition P9_RVERSION :: u8 where "P9_RVERSION = 101"
definition P9_RATTACH :: u8 where "P9_RATTACH = 105"
definition P9_RWALK :: u8 where "P9_RWALK = 111"
definition P9_RLOPEN :: u8 where "P9_RLOPEN = 13"
definition P9_RREAD :: u8 where "P9_RREAD = 117"
definition P9_RWRITE :: u8 where "P9_RWRITE = 119"
definition P9_RCLUNK :: u8 where "P9_RCLUNK = 121"
definition P9_RGETATTR :: u8 where "P9_RGETATTR = 25"
definition P9_RREADDIR :: u8 where "P9_RREADDIR = 41"
definition P9_RLERROR :: u8 where "P9_RLERROR = 7"
definition P9_RFLUSH :: u8 where "P9_RFLUSH = 109"
definition P9_TWEFT :: u8 where "P9_TWEFT = 142"
definition P9_RWEFT :: u8 where "P9_RWEFT = 143"
definition P9_TWEFTIO :: u8 where "P9_TWEFTIO = 144"
definition P9_RWEFTIO :: u8 where "P9_RWEFTIO = 145"
definition P9_HDR_LEN :: nat where [simp]: "P9_HDR_LEN = 7"
definition P9_QID_LEN :: nat where [simp]: "P9_QID_LEN = 13"
definition P9_MAX_WALK :: nat where [simp]: "P9_MAX_WALK = 16"
definition P9_NAME_MAX :: nat where [simp]: "P9_NAME_MAX = 255"
definition E_INVAL :: u32 where "E_INVAL = 22"

lemmas p9_types =
  P9_RVERSION_def P9_RATTACH_def P9_RWALK_def P9_RLOPEN_def P9_RREAD_def P9_RWRITE_def
  P9_RCLUNK_def P9_RGETATTR_def P9_RREADDIR_def P9_RLERROR_def P9_RFLUSH_def
  P9_TWEFT_def P9_RWEFT_def P9_TWEFTIO_def P9_RWEFTIO_def

section \<open>The common header\<close>

record header =
  hdr_size :: u32
  hdr_mtype :: u8
  hdr_tag :: u16

definition peek_header :: "bytes \<Rightarrow> header option" where
  "peek_header buf =
     (if length buf < P9_HDR_LEN then None
      else do {
        (size, p) \<leftarrow> unpack_u32 buf 0;
        (mtype, p) \<leftarrow> unpack_u8 buf p;
        (tag, _) \<leftarrow> unpack_u16 buf p;
        Some \<lparr>hdr_size = size, hdr_mtype = mtype, hdr_tag = tag\<rparr>
      })"

section \<open>Request parsers\<close>

record tversion_args =
  tv_msize :: u32
  tv_version :: bytes

definition parse_tversion :: "bytes \<Rightarrow> tversion_args option" where
  "parse_tversion buf = do {
     (msize, p) \<leftarrow> unpack_u32 buf P9_HDR_LEN;
     (version, _) \<leftarrow> unpack_str buf p;
     Some \<lparr>tv_msize = msize, tv_version = version\<rparr>
   }"

record tattach_args =
  ta_fid :: u32
  ta_afid :: u32
  ta_uname :: bytes
  ta_aname :: bytes
  ta_n_uname :: u32

definition parse_tattach :: "bytes \<Rightarrow> tattach_args option" where
  "parse_tattach buf = do {
     (fid, p) \<leftarrow> unpack_u32 buf P9_HDR_LEN;
     (afid, p) \<leftarrow> unpack_u32 buf p;
     (uname, p) \<leftarrow> unpack_str buf p;
     (aname, p) \<leftarrow> unpack_str buf p;
     (n_uname, _) \<leftarrow> unpack_u32 buf p;
     Some \<lparr>ta_fid = fid, ta_afid = afid, ta_uname = uname, ta_aname = aname,
            ta_n_uname = n_uname\<rparr>
   }"

text \<open>\<open>names\<close> is the fixed array of \<open>P9_MAX_WALK\<close> slices, empty past \<open>nwname\<close>.\<close>

record twalk_args =
  tw_fid :: u32
  tw_newfid :: u32
  tw_nwname :: u16
  tw_names :: "bytes list"

text \<open>The loop over \<open>i in 0..nwname\<close>: \<open>walk_names buf k i p names\<close> has \<open>k\<close> names to go.\<close>

fun walk_names :: "bytes \<Rightarrow> nat \<Rightarrow> nat \<Rightarrow> nat \<Rightarrow> bytes list \<Rightarrow> bytes list option" where
  "walk_names buf 0 i p names = Some names"
| "walk_names buf (Suc k) i p names = do {
     (name, np) \<leftarrow> unpack_str buf p;
     if length name > P9_NAME_MAX then None
     else walk_names buf k (i + 1) np (names[i := name])
   }"

definition parse_twalk :: "bytes \<Rightarrow> twalk_args option" where
  "parse_twalk buf = do {
     (fid, p) \<leftarrow> unpack_u32 buf P9_HDR_LEN;
     (newfid, p) \<leftarrow> unpack_u32 buf p;
     (nwname, p) \<leftarrow> unpack_u16 buf p;
     if unat nwname > P9_MAX_WALK then None
     else do {
       names \<leftarrow> walk_names buf (unat nwname) 0 p (replicate P9_MAX_WALK []);
       Some \<lparr>tw_fid = fid, tw_newfid = newfid, tw_nwname = nwname, tw_names = names\<rparr>
     }
   }"

record tlopen_args =
  tl_fid :: u32
  tl_flags :: u32

definition parse_tlopen :: "bytes \<Rightarrow> tlopen_args option" where
  "parse_tlopen buf = do {
     (fid, p) \<leftarrow> unpack_u32 buf P9_HDR_LEN;
     (flags, _) \<leftarrow> unpack_u32 buf p;
     Some \<lparr>tl_fid = fid, tl_flags = flags\<rparr>
   }"

record tread_args =
  tr_fid :: u32
  tr_offset :: u64
  tr_count :: u32

definition parse_tread :: "bytes \<Rightarrow> tread_args option" where
  "parse_tread buf = do {
     (fid, p) \<leftarrow> unpack_u32 buf P9_HDR_LEN;
     (offset, p) \<leftarrow> unpack_u64 buf p;
     (count, _) \<leftarrow> unpack_u32 buf p;
     Some \<lparr>tr_fid = fid, tr_offset = offset, tr_count = count\<rparr>
   }"

record twrite_args =
  twr_fid :: u32
  twr_offset :: u64
  twr_count :: u32
  twr_data :: bytes

definition parse_twrite :: "bytes \<Rightarrow> twrite_args option" where
  "parse_twrite buf = do {
     (fid, p) \<leftarrow> unpack_u32 buf P9_HDR_LEN;
     (offset, p) \<leftarrow> unpack_u64 buf p;
     (count, p) \<leftarrow> unpack_u32 buf p;
     let end' = p + unat count;
     if length buf < end' then None
     else Some \<lparr>twr_fid = fid, twr_offset = offset, twr_count = count,
                 twr_data = take (end' - p) (drop p buf)\<rparr>
   }"

text \<open>The one-field records \<open>TclunkArgs\<close> and \<open>TflushArgs\<close> are their field.\<close>

definition parse_tclunk :: "bytes \<Rightarrow> u32 option" where
  "parse_tclunk buf = do { (fid, _) \<leftarrow> unpack_u32 buf P9_HDR_LEN; Some fid }"

definition parse_tflush :: "bytes \<Rightarrow> u16 option" where
  "parse_tflush buf = do { (oldtag, _) \<leftarrow> unpack_u16 buf P9_HDR_LEN; Some oldtag }"

record treaddir_args =
  td_fid :: u32
  td_offset :: u64
  td_count :: u32

definition parse_treaddir :: "bytes \<Rightarrow> treaddir_args option" where
  "parse_treaddir buf = do {
     (fid, p) \<leftarrow> unpack_u32 buf P9_HDR_LEN;
     (offset, p) \<leftarrow> unpack_u64 buf p;
     (count, _) \<leftarrow> unpack_u32 buf p;
     Some \<lparr>td_fid = fid, td_offset = offset, td_count = count\<rparr>
   }"

definition parse_tgetattr :: "bytes \<Rightarrow> u32 option" where
  "parse_tgetattr buf = do { (fid, _) \<leftarrow> unpack_u32 buf P9_HDR_LEN; Some fid }"

section \<open>Reply builders\<close>

definition build_header :: "u8 \<Rightarrow> u16 \<Rightarrow> nat wr" where
  "build_header mtype tag =
     bindW (pack_u32 0 0) (\<lambda>p.
     bindW (pack_u8 p mtype) (\<lambda>p.
     pack_u16 p tag))"

definition patch_header_size :: "nat \<Rightarrow> unit wr" where
  "patch_header_size total_len = (\<lambda>out.
     if length out < 4 \<or> total_len > 0xffffffff then (None, out)
     else let v = of_nat total_len :: u32 in
       (Some (),
        out[0 := ucast (v AND 0xff),
            1 := ucast (drop_bit 8 v AND 0xff),
            2 := ucast (drop_bit 16 v AND 0xff),
            3 := ucast (drop_bit 24 v AND 0xff)]))"

definition build_rversion :: "u16 \<Rightarrow> u32 \<Rightarrow> bytes \<Rightarrow> nat wr" where
  "build_rversion tag msize version =
     bindW (build_header P9_RVERSION tag) (\<lambda>p.
     bindW (pack_u32 p msize) (\<lambda>p.
     bindW (pack_str p version) (\<lambda>p.
     bindW (patch_header_size p) (\<lambda>_. retW p))))"

definition build_rattach :: "u16 \<Rightarrow> qid \<Rightarrow> nat wr" where
  "build_rattach tag qid =
     bindW (build_header P9_RATTACH tag) (\<lambda>p.
     bindW (pack_qid p qid) (\<lambda>p.
     bindW (patch_header_size p) (\<lambda>_. retW p)))"

fun pack_qids :: "nat \<Rightarrow> qid list \<Rightarrow> nat wr" where
  "pack_qids p [] = retW p"
| "pack_qids p (q # qs) = bindW (pack_qid p q) (\<lambda>p. pack_qids p qs)"

definition build_rwalk :: "u16 \<Rightarrow> qid list \<Rightarrow> nat wr" where
  "build_rwalk tag qids =
     (if length qids > P9_MAX_WALK then (\<lambda>out. (None, out))
      else
        bindW (build_header P9_RWALK tag) (\<lambda>p.
        bindW (pack_u16 p (of_nat (length qids))) (\<lambda>p.
        bindW (pack_qids p qids) (\<lambda>p.
        bindW (patch_header_size p) (\<lambda>_. retW p)))))"

definition build_rlopen :: "u16 \<Rightarrow> qid \<Rightarrow> u32 \<Rightarrow> nat wr" where
  "build_rlopen tag qid iounit =
     bindW (build_header P9_RLOPEN tag) (\<lambda>p.
     bindW (pack_qid p qid) (\<lambda>p.
     bindW (pack_u32 p iounit) (\<lambda>p.
     bindW (patch_header_size p) (\<lambda>_. retW p))))"

text \<open>\<open>build_rread\<close> and \<open>build_rreaddir\<close> have the same body under different types:
  a counted copy of \<open>data\<close>.\<close>

definition build_rread :: "u16 \<Rightarrow> bytes \<Rightarrow> nat wr" where
  "build_rread tag data =
     (if length data > 0xffffffff then (\<lambda>out. (None, out))
      else
        bindW (build_header P9_RREAD tag) (\<lambda>p.
        bindW (pack_u32 p (of_nat (length data))) (\<lambda>p.
        bindW (\<lambda>out. if length out < p + length data then (None, out)
               else (Some (p + length data), overwrite p data out)) (\<lambda>total.
        bindW (patch_header_size total) (\<lambda>_. retW total)))))"

definition build_rwrite :: "u16 \<Rightarrow> u32 \<Rightarrow> nat wr" where
  "build_rwrite tag count =
     bindW (build_header P9_RWRITE tag) (\<lambda>p.
     bindW (pack_u32 p count) (\<lambda>p.
     bindW (patch_header_size p) (\<lambda>_. retW p)))"

definition build_rclunk :: "u16 \<Rightarrow> nat wr" where
  "build_rclunk tag =
     bindW (build_header P9_RCLUNK tag) (\<lambda>p.
     bindW (patch_header_size p) (\<lambda>_. retW p))"

definition build_rflush :: "u16 \<Rightarrow> nat wr" where
  "build_rflush tag =
     bindW (build_header P9_RFLUSH tag) (\<lambda>p.
     bindW (patch_header_size p) (\<lambda>_. retW p))"

definition build_rlerror :: "u16 \<Rightarrow> u32 \<Rightarrow> nat wr" where
  "build_rlerror tag ecode =
     bindW (build_header P9_RLERROR tag) (\<lambda>p.
     bindW (pack_u32 p ecode) (\<lambda>p.
     bindW (patch_header_size p) (\<lambda>_. retW p)))"

definition build_rgetattr ::
    "u16 \<Rightarrow> u64 \<Rightarrow> qid \<Rightarrow> u32 \<Rightarrow> u32 \<Rightarrow> u32 \<Rightarrow> u64 \<Rightarrow> u64 \<Rightarrow> nat wr" where
  "build_rgetattr tag valid qid mode uid gid nlink fsize =
     bindW (build_header P9_RGETATTR tag) (\<lambda>p.
     bindW (pack_u64 p valid) (\<lambda>p.
     bindW (pack_qid p qid) (\<lambda>p.
     bindW (pack_u32 p mode) (\<lambda>p.
     bindW (pack_u32 p uid) (\<lambda>p.
     bindW (pack_u32 p gid) (\<lambda>p.
     bindW (pack_u64 p nlink) (\<lambda>p.
     bindW (pack_u64 p 0) (\<lambda>p.
     bindW (pack_u64 p fsize) (\<lambda>p.
     bindW (pack_u64 p 0) (\<lambda>p.
     bindW (pack_u64 p 0) (\<lambda>p.
     bindW (pack_u64 p 0) (\<lambda>p.
     bindW (pack_u64 p 0) (\<lambda>p.
     bindW (pack_u64 p 0) (\<lambda>p.
     bindW (pack_u64 p 0) (\<lambda>p.
     bindW (pack_u64 p 0) (\<lambda>p.
     bindW (pack_u64 p 0) (\<lambda>p.
     bindW (pack_u64 p 0) (\<lambda>p.
     bindW (pack_u64 p 0) (\<lambda>p.
     bindW (pack_u64 p 0) (\<lambda>p.
     bindW (pack_u64 p 0) (\<lambda>p.
     bindW (patch_header_size p) (\<lambda>_. retW p))))))))))))))))))))))"

section \<open>The Weft extension\<close>

record weft_geom =
  wg_share_id :: u64
  wg_ring_size :: u32
  wg_ring_entries :: u32

definition parse_tweft :: "bytes \<Rightarrow> u32 option" where
  "parse_tweft buf = do { (fid, _) \<leftarrow> unpack_u32 buf P9_HDR_LEN; Some fid }"

definition build_rweft :: "u16 \<Rightarrow> u64 \<Rightarrow> u32 \<Rightarrow> u32 \<Rightarrow> nat wr" where
  "build_rweft tag share_id ring_size ring_entries =
     bindW (build_header P9_RWEFT tag) (\<lambda>p.
     bindW (pack_u64 p share_id) (\<lambda>p.
     bindW (pack_u32 p ring_size) (\<lambda>p.
     bindW (pack_u32 p ring_entries) (\<lambda>p.
     bindW (patch_header_size p) (\<lambda>_. retW p)))))"

definition build_tweft :: "u16 \<Rightarrow> u32 \<Rightarrow> nat wr" where
  "build_tweft tag fid =
     bindW (build_header P9_TWEFT tag) (\<lambda>p.
     bindW (pack_u32 p fid) (\<lambda>p.
     bindW (patch_header_size p) (\<lambda>_. retW p)))"

definition parse_rweft :: "bytes \<Rightarrow> weft_geom option" where
  "parse_rweft buf = do {
     (share_id, p) \<leftarrow> unpack_u64 buf P9_HDR_LEN;
     (ring_size, p) \<leftarrow> unpack_u32 buf p;
     (ring_entries, _) \<leftarrow> unpack_u32 buf p;
     Some \<lparr>wg_share_id = share_id, wg_ring_size = ring_size, wg_ring_entries = ring_entries\<rparr>
   }"

record weft_io_req =
  wi_fid :: u32
  wi_off :: u32
  wi_len :: u32
  wi_dir :: u32

definition parse_tweftio :: "bytes \<Rightarrow> weft_io_req option" where
  "parse_tweftio buf = do {
     (fid, p) \<leftarrow> unpack_u32 buf P9_HDR_LEN;
     (off, p) \<leftarrow> unpack_u32 buf p;
     (len, p) \<leftarrow> unpack_u32 buf p;
     (dir, _) \<leftarrow> unpack_u32 buf p;
     Some \<lparr>wi_fid = fid, wi_off = off, wi_len = len, wi_dir = dir\<rparr>
   }"

definition build_rweftio :: "u16 \<Rightarrow> u32 \<Rightarrow> nat wr" where
  "build_rweftio tag count =
     bindW (build_header P9_RWEFTIO tag) (\<lambda>p.
     bindW (pack_u32 p count) (\<lambda>p.
     bindW (patch_header_size p) (\<lambda>_. retW p)))"

definition build_tweftio :: "u16 \<Rightarrow> u32 \<Rightarrow> u32 \<Rightarrow> u32 \<Rightarrow> u32 \<Rightarrow> nat wr" where
  "build_tweftio tag fid off len dir =
     bindW (build_header P9_TWEFTIO tag) (\<lambda>p.
     bindW (pack_u32 p fid) (\<lambda>p.
     bindW (pack_u32 p off) (\<lambda>p.
     bindW (pack_u32 p len) (\<lambda>p.
     bindW (pack_u32 p dir) (\<lambda>p.
     bindW (patch_header_size p) (\<lambda>_. retW p))))))"

definition parse_rweftio :: "bytes \<Rightarrow> u32 option" where
  "parse_rweftio buf = do { (count, _) \<leftarrow> unpack_u32 buf P9_HDR_LEN; Some count }"

section \<open>Directory entries\<close>

definition dirent_len :: "nat \<Rightarrow> nat" where
  "dirent_len name_len = P9_QID_LEN + 8 + 1 + 2 + name_len"

definition pack_dirent :: "nat \<Rightarrow> qid \<Rightarrow> u64 \<Rightarrow> u8 \<Rightarrow> bytes \<Rightarrow> nat wr" where
  "pack_dirent off qid next_offset dtype name =
     bindW (pack_qid off qid) (\<lambda>off.
     bindW (pack_u64 off next_offset) (\<lambda>off.
     bindW (pack_u8 off dtype) (\<lambda>off.
     pack_str off name)))"

definition build_rreaddir :: "u16 \<Rightarrow> bytes \<Rightarrow> nat wr" where
  "build_rreaddir tag data =
     (if length data > 0xffffffff then (\<lambda>out. (None, out))
      else
        bindW (build_header P9_RREADDIR tag) (\<lambda>p.
        bindW (pack_u32 p (of_nat (length data))) (\<lambda>p.
        bindW (\<lambda>out. if length out < p + length data then (None, out)
               else (Some (p + length data), overwrite p data out)) (\<lambda>total.
        bindW (patch_header_size total) (\<lambda>_. retW total)))))"

section \<open>Readiness files\<close>

definition P9_POLL_MASK :: u64 where "P9_POLL_MASK = 0xFFFF"
definition P9_POLL_SNAPSHOT :: u64 where "P9_POLL_SNAPSHOT = push_bit 16 1"

datatype ReadyAnswer = Reply u16 nat | Defer u16 nat | Refuse u32

definition ready_answer :: "u64 \<Rightarrow> u32 \<Rightarrow> u32 \<Rightarrow> (u16 \<Rightarrow> u16) \<Rightarrow> ReadyAnswer" where
  "ready_answer offset count msize level =
     (if offset AND NOT (P9_POLL_MASK OR P9_POLL_SNAPSHOT) \<noteq> 0 then Refuse E_INVAL
      else
        let mask = ucast (offset AND P9_POLL_MASK);
            len = min (min (unat msize - (P9_HDR_LEN + 4)) (unat count)) 4;
            revents = level mask
        in if revents \<noteq> 0 \<or> offset AND P9_POLL_SNAPSHOT \<noteq> 0
           then Reply revents len
           else Defer mask len)"

section \<open>Frames\<close>

text \<open>The specification of the outgoing side: a frame is the 4-byte size of the whole
  frame, the type, the tag, the body.\<close>

definition frame :: "u8 \<Rightarrow> u16 \<Rightarrow> bytes \<Rightarrow> bytes" where
  "frame mt tag body = le32 (of_nat (7 + length body)) @ [mt] @ le16 tag @ body"

lemma length_frame [simp]: "length (frame mt tag body) = 7 + length body"
  by (simp add: frame_def)

text \<open>\<open>finishes off bs m\<close>: like \<^const>\<open>emits\<close>, for the rest of a builder that has reached
  offset \<open>off\<close>. It writes \<open>bs\<close> and ends by patching the size of the whole frame over the
  first four bytes.\<close>

definition finishes :: "nat \<Rightarrow> bytes \<Rightarrow> nat wr \<Rightarrow> bool" where
  "finishes off bs m \<longleftrightarrow> (\<forall>out. off \<le> length out \<longrightarrow>
     (if off + length bs \<le> length out \<and> off + length bs < 2 ^ 32
      then m out = (Some (off + length bs),
                    overwrite 0 (le32 (of_nat (off + length bs))) (overwrite off bs out))
      else fst (m out) = None))"

lemma finishesD:
  assumes "finishes off bs m" and "off \<le> length out"
  shows "off + length bs \<le> length out \<Longrightarrow> off + length bs < 2 ^ 32 \<Longrightarrow>
      m out = (Some (off + length bs),
               overwrite 0 (le32 (of_nat (off + length bs))) (overwrite off bs out))"
    and "\<not> (off + length bs \<le> length out \<and> off + length bs < 2 ^ 32) \<Longrightarrow> fst (m out) = None"
  using assms by (auto simp: finishes_def dest!: spec [of _ out] simp del: of_nat_add)

lemma patch_fits: "4 \<le> length out \<Longrightarrow> n < 2 ^ 32 \<Longrightarrow>
  patch_header_size n out = (Some (), overwrite 0 (le32 (of_nat n)) out)"
  by (simp add: patch_header_size_def le32_def Let_def overwrite_Cons)
     (simp add: numeral_2_eq_2 numeral_3_eq_3)

lemma finishes_end [wire_emits]:
  "4 \<le> off \<Longrightarrow> finishes off [] (bindW (patch_header_size off) (\<lambda>_. retW off))"
  by (auto simp: finishes_def bindW_def retW_def patch_fits)
     (simp add: patch_header_size_def)

lemma finishes_bind [wire_emits]:
  assumes m: "emits off bs m" and f: "finishes (off + length bs) cs (f (off + length bs))"
  shows "finishes off (bs @ cs) (bindW m f)"
  unfolding finishes_def
proof (intro allI impI)
  fix out :: bytes
  let ?n = "off + length bs + length cs"
  show "if off + length (bs @ cs) \<le> length out \<and> off + length (bs @ cs) < 2 ^ 32
    then bindW m f out = (Some (off + length (bs @ cs)),
      overwrite 0 (le32 (of_nat (off + length (bs @ cs)))) (overwrite off (bs @ cs) out))
    else fst (bindW m f out) = None" (is "if ?ok then ?run else ?fail")
  proof (cases "off + length bs \<le> length out")
    case True
    then have run: "bindW m f out = f (off + length bs) (overwrite off bs out)"
      using emits_fits [OF m] by (simp add: bindW_def)
    have mid: "off + length bs \<le> length (overwrite off bs out)" using True by simp
    show ?thesis
    proof (cases ?ok)
      case ok: True
      then have "overwrite (off + length bs) cs (overwrite off bs out) = overwrite off (bs @ cs) out"
        using overwrite_overwrite by simp
      then show ?thesis
        using finishesD(1) [OF f mid] ok True by (simp add: run add.assoc del: of_nat_add)
    next
      case bad: False
      then have "fst (f (off + length bs) (overwrite off bs out)) = None"
        using True by (intro finishesD(2) [OF f mid]) auto
      then show ?thesis unfolding if_not_P [OF bad] run .
    qed
  next
    case False
    then have "fst (m out) = None" using emits_short [OF m] by simp
    then have "?fail" by (auto simp: bindW_def split: prod.splits option.splits)
    with False show ?thesis by simp
  qed
qed

lemma finishes_last:
  assumes "emits off bs m" and "4 \<le> off + length bs"
  shows "finishes off bs (bindW m (\<lambda>p. bindW (patch_header_size p) (\<lambda>_. retW p)))"
  using finishes_bind [OF assms(1), where f = "\<lambda>p. bindW (patch_header_size p) (\<lambda>_. retW p)" and cs = "[]"]
    finishes_end [OF assms(2)] by simp

text \<open>A builder whose fields are the header and \<open>body\<close> writes the frame, or fails and
  says so.\<close>

definition builds :: "bool \<Rightarrow> bytes \<Rightarrow> nat wr \<Rightarrow> bool" where
  "builds ok fr m \<longleftrightarrow> (\<forall>out.
     if ok \<and> length fr \<le> length out \<and> length fr < 2 ^ 32
     then m out = (Some (length fr), fr @ drop (length fr) out)
     else fst (m out) = None)"

lemma emits_header [wire_emits]: "emits 0 (le32 0 @ [mt] @ le16 tag) (build_header mt tag)"
  unfolding build_header_def by (rule wire_emits)+

lemma builds_frame:
  assumes body: "finishes 7 body (f 7)"
  shows "builds True (frame mt tag body) (bindW (build_header mt tag) f)"
proof -
  let ?hd = "le32 0 @ [mt] @ le16 tag" and ?n = "7 + length body"
  have fin: "finishes 0 (?hd @ body) (bindW (build_header mt tag) f)"
    by (rule finishes_bind [OF emits_header]) (use body in simp)
  have "overwrite 0 (le32 (of_nat ?n)) (overwrite 0 (?hd @ body) out)
      = frame mt tag body @ drop ?n out" for out
    by (simp add: overwrite_0 frame_def)
  then show ?thesis
    using finishesD [OF fin] by (auto simp: builds_def simp del: of_nat_add)
qed

lemma bindW_retW [simp]: "bindW (retW a) f = f a" "bindW m retW = m"
  by (auto simp: bindW_def retW_def split: prod.splits option.splits)

text \<open>A writer that fails on every buffer.\<close>

definition refuses :: "nat wr \<Rightarrow> bool" where
  "refuses m \<longleftrightarrow> (\<forall>out. fst (m out) = None)"

lemma refuses_first: "refuses m \<Longrightarrow> refuses (bindW m f)"
  by (auto simp: refuses_def bindW_def split: prod.splits option.splits) (metis fst_conv option.distinct(1))

lemma refuses_later: "(\<And>a. refuses (f a)) \<Longrightarrow> refuses (bindW m f)"
  by (auto simp: refuses_def bindW_def split: prod.splits option.splits)

lemma builds_refuse: "refuses m \<Longrightarrow> builds False fr m"
  by (simp add: builds_def refuses_def)

lemma refuses_None: "refuses (\<lambda>out. (None, out))"
  by (simp add: refuses_def)

lemma refuses_str: "\<not> wire_str_ok s \<Longrightarrow> refuses (pack_str off s)"
  by (simp add: refuses_def pack_str_refuses)

section \<open>Messages a server and a client send\<close>

text \<open>The messages this library builds, and the builder each goes to. \<open>Tweft\<close> and
  \<open>Tweftio\<close> are requests of the client side.\<close>

datatype msg =
    Rversion u32 bytes
  | Rattach qid
  | Rwalk "qid list"
  | Rlopen qid u32
  | Rread bytes
  | Rwrite u32
  | Rclunk
  | Rflush
  | Rlerror u32
  | Rgetattr u64 qid u32 u32 u32 u64 u64
  | Rreaddir bytes
  | Rweft u64 u32 u32
  | Rweftio u32
  | Tweft u32
  | Tweftio u32 u32 u32 u32

fun build :: "u16 \<Rightarrow> msg \<Rightarrow> nat wr" where
  "build tg (Rversion ms v) = build_rversion tg ms v"
| "build tg (Rattach q) = build_rattach tg q"
| "build tg (Rwalk qs) = build_rwalk tg qs"
| "build tg (Rlopen q io) = build_rlopen tg q io"
| "build tg (Rread d) = build_rread tg d"
| "build tg (Rwrite n) = build_rwrite tg n"
| "build tg Rclunk = build_rclunk tg"
| "build tg Rflush = build_rflush tg"
| "build tg (Rlerror e) = build_rlerror tg e"
| "build tg (Rgetattr v q m u g n s) = build_rgetattr tg v q m u g n s"
| "build tg (Rreaddir d) = build_rreaddir tg d"
| "build tg (Rweft i s e) = build_rweft tg i s e"
| "build tg (Rweftio n) = build_rweftio tg n"
| "build tg (Tweft f) = build_tweft tg f"
| "build tg (Tweftio f b l d) = build_tweftio tg f b l d"

text \<open>The wire format: the type byte and the body of each message, and the values that
  have an encoding.\<close>

fun msg_type :: "msg \<Rightarrow> u8" where
  "msg_type (Rversion _ _) = 101"
| "msg_type (Rattach _) = 105"
| "msg_type (Rwalk _) = 111"
| "msg_type (Rlopen _ _) = 13"
| "msg_type (Rread _) = 117"
| "msg_type (Rwrite _) = 119"
| "msg_type Rclunk = 121"
| "msg_type Rflush = 109"
| "msg_type (Rlerror _) = 7"
| "msg_type (Rgetattr _ _ _ _ _ _ _) = 25"
| "msg_type (Rreaddir _) = 41"
| "msg_type (Rweft _ _ _) = 143"
| "msg_type (Rweftio _) = 145"
| "msg_type (Tweft _) = 142"
| "msg_type (Tweftio _ _ _ _) = 144"

fun msg_body :: "msg \<Rightarrow> bytes" where
  "msg_body (Rversion ms v) = le32 ms @ wire_str v"
| "msg_body (Rattach q) = wire_qid q"
| "msg_body (Rwalk qs) = le16 (of_nat (length qs)) @ concat (map wire_qid qs)"
| "msg_body (Rlopen q io) = wire_qid q @ le32 io"
| "msg_body (Rread d) = le32 (of_nat (length d)) @ d"
| "msg_body (Rwrite n) = le32 n"
| "msg_body Rclunk = []"
| "msg_body Rflush = []"
| "msg_body (Rlerror e) = le32 e"
| "msg_body (Rgetattr v q m u g n s) =
     le64 v @ wire_qid q @ le32 m @ le32 u @ le32 g @ le64 n @ le64 0 @ le64 s
       @ concat (replicate 12 (le64 0))"
| "msg_body (Rreaddir d) = le32 (of_nat (length d)) @ d"
| "msg_body (Rweft i s e) = le64 i @ le32 s @ le32 e"
| "msg_body (Rweftio n) = le32 n"
| "msg_body (Tweft f) = le32 f"
| "msg_body (Tweftio f b l d) = le32 f @ le32 b @ le32 l @ le32 d"

fun msg_ok :: "msg \<Rightarrow> bool" where
  "msg_ok (Rversion _ v) \<longleftrightarrow> length v \<le> 65535"
| "msg_ok (Rwalk qs) \<longleftrightarrow> length qs \<le> 16"
| "msg_ok _ \<longleftrightarrow> True"

lemma emits_qids: "qs \<noteq> [] \<Longrightarrow> emits p (concat (map wire_qid qs)) (pack_qids p qs)"
proof (induction qs arbitrary: p)
  case (Cons q qs)
  show ?case
  proof (cases "qs = []")
    case True
    then show ?thesis by (simp add: emits_qid)
  next
    case False
    then show ?thesis by (simp, intro wire_emits Cons) auto
  qed
qed simp

lemmas builder_fields =
  finishes_last finishes_bind finishes_end emits_u8 emits_u16 emits_u32 emits_u64 emits_str
  emits_qid emits_copy

lemma concat_12: "concat (replicate 12 xs) =
  xs @ xs @ xs @ xs @ xs @ xs @ xs @ xs @ xs @ xs @ xs @ xs"
  by (simp add: numeral_eq_Suc)

lemma builds_counted:
  "builds True (frame mt tg (le32 (of_nat (length d)) @ d))
     (if length d > 0xffffffff then (\<lambda>out. (None, out))
      else
        bindW (build_header mt tg) (\<lambda>p.
        bindW (pack_u32 p (of_nat (length d))) (\<lambda>p.
        bindW (\<lambda>out. if length out < p + length d then (None, out)
               else (Some (p + length d), overwrite p d out)) (\<lambda>total.
        bindW (patch_header_size total) (\<lambda>_. retW total)))))"
proof (cases "length d > 0xffffffff")
  case True
  then show ?thesis by (simp add: builds_def)
next
  case False
  have "builds True (frame mt tg (le32 (of_nat (length d)) @ d))
        (bindW (build_header mt tg) (\<lambda>p.
        bindW (pack_u32 p (of_nat (length d))) (\<lambda>p.
        bindW (\<lambda>out. if length out < p + length d then (None, out)
               else (Some (p + length d), overwrite p d out)) (\<lambda>total.
        bindW (patch_header_size total) (\<lambda>_. retW total)))))"
    by (rule builds_frame) (rule builder_fields | simp)+
  with False show ?thesis by simp
qed

lemma builds_rversion:
  "builds (length v \<le> 65535) (frame 101 tg (le32 ms @ wire_str v)) (build_rversion tg ms v)"
proof (cases "wire_str_ok v")
  case True
  then have "builds True (frame 101 tg (le32 ms @ wire_str v)) (build_rversion tg ms v)"
    unfolding build_rversion_def P9_RVERSION_def
    by (intro builds_frame) (rule builder_fields | simp)+
  with True show ?thesis by (simp add: wire_str_ok_def)
next
  case False
  have "refuses (build_rversion tg ms v)"
    unfolding build_rversion_def by (intro refuses_later refuses_first refuses_str False)
  with False show ?thesis by (simp add: wire_str_ok_def builds_refuse)
qed

lemma builds_rwalk:
  "builds (length qs \<le> 16) (frame 111 tg (le16 (of_nat (length qs)) @ concat (map wire_qid qs)))
     (build_rwalk tg qs)"
proof (cases "length qs \<le> 16")
  case True
  let ?rest = "\<lambda>p. bindW (patch_header_size p) (\<lambda>_. retW p)"
  have "finishes 9 (concat (map wire_qid qs)) (bindW (pack_qids 9 qs) ?rest)"
    by (cases "qs = []") (simp_all add: finishes_end finishes_last emits_qids)
  then have "builds True (frame 111 tg (le16 (of_nat (length qs)) @ concat (map wire_qid qs)))
      (bindW (build_header 111 tg) (\<lambda>p.
        bindW (pack_u16 p (of_nat (length qs))) (\<lambda>p.
        bindW (pack_qids p qs) ?rest)))"
    by (intro builds_frame finishes_bind emits_u16) simp
  with True show ?thesis by (simp add: build_rwalk_def P9_RWALK_def)
next
  case False
  then show ?thesis by (simp add: build_rwalk_def builds_def)
qed

lemma builds_rgetattr:
  "builds True (frame 25 tg (le64 v @ wire_qid q @ le32 m @ le32 u @ le32 g @ le64 n @ le64 0
       @ le64 s @ concat (replicate 12 (le64 0)))) (build_rgetattr tg v q m u g n s)"
  unfolding build_rgetattr_def P9_RGETATTR_def concat_12
  by (rule builds_frame) (rule builder_fields | simp)+

lemma build_builds: "builds (msg_ok m) (frame (msg_type m) tg (msg_body m)) (build tg m)"
proof (cases m)
  case Rversion
  then show ?thesis by (simp add: builds_rversion)
next
  case Rwalk
  then show ?thesis by (simp add: builds_rwalk)
next
  case Rgetattr
  then show ?thesis by (simp add: builds_rgetattr)
next
  case (Rread d)
  then show ?thesis
    by (simp only: msg_ok.simps msg_type.simps msg_body.simps build.simps build_rread_def
        P9_RREAD_def builds_counted)
next
  case (Rreaddir d)
  then show ?thesis
    by (simp only: msg_ok.simps msg_type.simps msg_body.simps build.simps build_rreaddir_def
        P9_RREADDIR_def builds_counted)
qed (simp_all only: msg_ok.simps msg_type.simps msg_body.simps build.simps p9_types
       build_rattach_def build_rlopen_def build_rwrite_def build_rclunk_def build_rflush_def
       build_rlerror_def build_rweft_def build_rweftio_def build_tweft_def build_tweftio_def,
     (rule builds_frame, (rule builder_fields | simp)+)+)

section \<open>Which buffers the parsers accept\<close>

text \<open>Each parser accepts exactly the buffers that hold the encoding of its result at
  offset 7. Bytes past the last field are not looked at.\<close>

lemmas parse_steps = bind_eq_Some_conv unpack_fields has_at_append Let_def

lemma parse_tversion_iff:
  "parse_tversion buf = Some a \<longleftrightarrow>
     wire_str_ok (tv_version a) \<and> has_at buf 7 (le32 (tv_msize a) @ wire_str (tv_version a))"
  by (cases a) (auto simp: parse_tversion_def parse_steps)

lemma parse_tattach_iff:
  "parse_tattach buf = Some a \<longleftrightarrow>
     wire_str_ok (ta_uname a) \<and> wire_str_ok (ta_aname a) \<and>
     has_at buf 7 (le32 (ta_fid a) @ le32 (ta_afid a) @ wire_str (ta_uname a)
       @ wire_str (ta_aname a) @ le32 (ta_n_uname a))"
  by (cases a) (auto simp: parse_tattach_def parse_steps add.assoc)

lemma parse_tlopen_iff:
  "parse_tlopen buf = Some a \<longleftrightarrow> has_at buf 7 (le32 (tl_fid a) @ le32 (tl_flags a))"
  by (cases a) (auto simp: parse_tlopen_def parse_steps)

lemma parse_tread_iff:
  "parse_tread buf = Some a \<longleftrightarrow>
     has_at buf 7 (le32 (tr_fid a) @ le64 (tr_offset a) @ le32 (tr_count a))"
  by (cases a) (auto simp: parse_tread_def parse_steps)

lemma parse_treaddir_iff:
  "parse_treaddir buf = Some a \<longleftrightarrow>
     has_at buf 7 (le32 (td_fid a) @ le64 (td_offset a) @ le32 (td_count a))"
  by (cases a) (auto simp: parse_treaddir_def parse_steps)

lemma parse_twrite_iff:
  "parse_twrite buf = Some a \<longleftrightarrow>
     length (twr_data a) = unat (twr_count a) \<and>
     has_at buf 7 (le32 (twr_fid a) @ le64 (twr_offset a) @ le32 (twr_count a) @ twr_data a)"
proof -
  have "parse_twrite buf = Some a \<longleftrightarrow>
      has_at buf 7 (le32 (twr_fid a)) \<and> has_at buf 11 (le64 (twr_offset a)) \<and>
      has_at buf 19 (le32 (twr_count a)) \<and> 23 + unat (twr_count a) \<le> length buf \<and>
      take (unat (twr_count a)) (drop 23 buf) = twr_data a"
    by (cases a) (auto simp: parse_twrite_def parse_steps not_less)
  then show ?thesis
    unfolding has_at_slice by (simp add: has_at_append conj_ac)
qed

lemma parse_u32_iff:
  "parse_tclunk buf = Some f \<longleftrightarrow> has_at buf 7 (le32 f)"
  "parse_tgetattr buf = Some f \<longleftrightarrow> has_at buf 7 (le32 f)"
  "parse_tweft buf = Some f \<longleftrightarrow> has_at buf 7 (le32 f)"
  "parse_rweftio buf = Some f \<longleftrightarrow> has_at buf 7 (le32 f)"
  by (auto simp: parse_tclunk_def parse_tgetattr_def parse_tweft_def parse_rweftio_def parse_steps)

lemma parse_tflush_iff: "parse_tflush buf = Some t \<longleftrightarrow> has_at buf 7 (le16 t)"
  by (auto simp: parse_tflush_def parse_steps)

lemma parse_rweft_iff:
  "parse_rweft buf = Some g \<longleftrightarrow>
     has_at buf 7 (le64 (wg_share_id g) @ le32 (wg_ring_size g) @ le32 (wg_ring_entries g))"
  by (cases g) (auto simp: parse_rweft_def parse_steps)

lemma parse_tweftio_iff:
  "parse_tweftio buf = Some r \<longleftrightarrow>
     has_at buf 7 (le32 (wi_fid r) @ le32 (wi_off r) @ le32 (wi_len r) @ le32 (wi_dir r))"
  by (cases r) (auto simp: parse_tweftio_def parse_steps)

text \<open>The names of a walk: read one after the other, each bounded, stored from index 0.\<close>

definition names_at :: "bytes \<Rightarrow> nat \<Rightarrow> bytes list \<Rightarrow> bool" where
  "names_at buf p ns \<longleftrightarrow> (\<forall>s \<in> set ns. length s \<le> 255) \<and> has_at buf p (concat (map wire_str ns))"

lemma names_at_Cons:
  "names_at buf p (s # ns) \<longleftrightarrow>
     wire_str_ok s \<and> has_at buf p (wire_str s) \<and> length s \<le> 255 \<and>
     names_at buf (p + length (wire_str s)) ns"
  by (auto simp: names_at_def has_at_append wire_str_ok_def)

lemma walk_names_Suc:
  "walk_names buf (Suc k) i p acc = Some ns \<longleftrightarrow>
     (\<exists>s. wire_str_ok s \<and> has_at buf p (wire_str s) \<and> length s \<le> 255 \<and>
        walk_names buf k (i + 1) (p + length (wire_str s)) (acc[i := s]) = Some ns)"
  by (auto simp: bind_eq_Some_conv str_field.unpack_iff not_less)

lemma walk_names_iff:
  assumes "i + k \<le> length acc" and "p \<le> length buf"
  shows "walk_names buf k i p acc = Some ns \<longleftrightarrow>
     (\<exists>l. length l = k \<and> names_at buf p l \<and> ns = take i acc @ l @ drop (i + k) acc)"
  using assms
proof (induction k arbitrary: i p acc)
  case 0
  then show ?case by (auto simp: names_at_def)
next
  case (Suc k)
  have step: "walk_names buf k (i + 1) (p + length (wire_str s)) (acc[i := s]) = Some ns \<longleftrightarrow>
      (\<exists>l. length l = k \<and> names_at buf (p + length (wire_str s)) l \<and>
         ns = take i acc @ (s # l) @ drop (i + Suc k) acc)" if "has_at buf p (wire_str s)" for s
    using Suc.IH [of "i + 1" "acc[i := s]" "p + length (wire_str s)"] has_at_le [OF that] Suc.prems
    by (simp add: take_Suc_conv_app_nth)
  show ?case
  proof
    assume "walk_names buf (Suc k) i p acc = Some ns"
    then obtain s where s: "wire_str_ok s" "has_at buf p (wire_str s)" "length s \<le> 255"
      and "walk_names buf k (i + 1) (p + length (wire_str s)) (acc[i := s]) = Some ns"
      unfolding walk_names_Suc by blast
    then obtain l where "length l = k" "names_at buf (p + length (wire_str s)) l"
      "ns = take i acc @ (s # l) @ drop (i + Suc k) acc"
      unfolding step [OF s(2)] by blast
    then show "\<exists>l. length l = Suc k \<and> names_at buf p l \<and> ns = take i acc @ l @ drop (i + Suc k) acc"
      by (intro exI [of _ "s # l"]) (simp add: names_at_Cons s del: length_le)
  next
    assume "\<exists>l. length l = Suc k \<and> names_at buf p l \<and> ns = take i acc @ l @ drop (i + Suc k) acc"
    then obtain s l where l: "length l = k" "ns = take i acc @ (s # l) @ drop (i + Suc k) acc"
      and s: "wire_str_ok s" "has_at buf p (wire_str s)" "length s \<le> 255"
        "names_at buf (p + length (wire_str s)) l"
      by (auto simp: length_Suc_conv names_at_Cons)
    show "walk_names buf (Suc k) i p acc = Some ns"
      unfolding walk_names_Suc using step [OF s(2)] l s by blast
  qed
qed

lemma parse_twalk_iff:
  "parse_twalk buf = Some a \<longleftrightarrow>
     unat (tw_nwname a) \<le> 16 \<and>
     (\<exists>l. length l = unat (tw_nwname a) \<and> (\<forall>s \<in> set l. length s \<le> 255) \<and>
        tw_names a = l @ replicate (16 - length l) [] \<and>
        has_at buf 7 (le32 (tw_fid a) @ le32 (tw_newfid a) @ le16 (tw_nwname a)
          @ concat (map wire_str l)))"
proof -
  have names: "walk_names buf (unat n) 0 17 (replicate 16 []) = Some ns \<longleftrightarrow>
      (\<exists>l. length l = unat n \<and> names_at buf 17 l \<and> ns = l @ replicate (16 - length l) [])"
    if "has_at buf 15 (le16 n)" "unat n \<le> 16" for n ns
    using walk_names_iff [of 0 "unat n" "replicate 16 []" 17 buf ns] has_at_le [OF that(1)] that(2)
    by auto
  have "parse_twalk buf = Some a \<longleftrightarrow>
      has_at buf 7 (le32 (tw_fid a)) \<and> has_at buf 11 (le32 (tw_newfid a)) \<and>
      has_at buf 15 (le16 (tw_nwname a)) \<and> unat (tw_nwname a) \<le> 16 \<and>
      walk_names buf (unat (tw_nwname a)) 0 17 (replicate 16 []) = Some (tw_names a)"
    by (cases a) (auto simp: parse_twalk_def parse_steps not_less)
  also have "\<dots> \<longleftrightarrow>
      has_at buf 7 (le32 (tw_fid a)) \<and> has_at buf 11 (le32 (tw_newfid a)) \<and>
      has_at buf 15 (le16 (tw_nwname a)) \<and> unat (tw_nwname a) \<le> 16 \<and>
      (\<exists>l. length l = unat (tw_nwname a) \<and> names_at buf 17 l \<and>
         tw_names a = l @ replicate (16 - length l) [])"
    by (simp only: names cong: conj_cong)
  finally show ?thesis
    by (auto simp: names_at_def has_at_append)
qed

section \<open>What the message layer guarantees\<close>

text \<open>The requests, with the arguments each parser returns, and the parser for each type.\<close>

datatype request =
    ReqVersion tversion_args
  | ReqAttach tattach_args
  | ReqWalk twalk_args
  | ReqLopen tlopen_args
  | ReqRead tread_args
  | ReqWrite twrite_args
  | ReqClunk u32
  | ReqFlush u16
  | ReqReaddir treaddir_args
  | ReqGetattr u32
  | ReqWeft u32
  | ReqWeftio weft_io_req

fun parse_request :: "u8 \<Rightarrow> bytes \<Rightarrow> request option" where
  "parse_request ty buf =
     (if ty = 100 then map_option ReqVersion (parse_tversion buf)
      else if ty = 104 then map_option ReqAttach (parse_tattach buf)
      else if ty = 110 then map_option ReqWalk (parse_twalk buf)
      else if ty = 12 then map_option ReqLopen (parse_tlopen buf)
      else if ty = 116 then map_option ReqRead (parse_tread buf)
      else if ty = 118 then map_option ReqWrite (parse_twrite buf)
      else if ty = 120 then map_option ReqClunk (parse_tclunk buf)
      else if ty = 108 then map_option ReqFlush (parse_tflush buf)
      else if ty = 40 then map_option ReqReaddir (parse_treaddir buf)
      else if ty = 24 then map_option ReqGetattr (parse_tgetattr buf)
      else if ty = 142 then map_option ReqWeft (parse_tweft buf)
      else if ty = 144 then map_option ReqWeftio (parse_tweftio buf)
      else None)"

text \<open>The wire format of a request: its type, its body, and the values that have one. A
  walk carries \<open>nwname\<close> names of at most 255 bytes, in an array of 16 whose rest is empty.\<close>

fun req_type :: "request \<Rightarrow> u8" where
  "req_type (ReqVersion _) = 100"
| "req_type (ReqAttach _) = 104"
| "req_type (ReqWalk _) = 110"
| "req_type (ReqLopen _) = 12"
| "req_type (ReqRead _) = 116"
| "req_type (ReqWrite _) = 118"
| "req_type (ReqClunk _) = 120"
| "req_type (ReqFlush _) = 108"
| "req_type (ReqReaddir _) = 40"
| "req_type (ReqGetattr _) = 24"
| "req_type (ReqWeft _) = 142"
| "req_type (ReqWeftio _) = 144"

fun req_body :: "request \<Rightarrow> bytes" where
  "req_body (ReqVersion a) = le32 (tv_msize a) @ wire_str (tv_version a)"
| "req_body (ReqAttach a) = le32 (ta_fid a) @ le32 (ta_afid a) @ wire_str (ta_uname a)
     @ wire_str (ta_aname a) @ le32 (ta_n_uname a)"
| "req_body (ReqWalk a) = le32 (tw_fid a) @ le32 (tw_newfid a) @ le16 (tw_nwname a)
     @ concat (map wire_str (take (unat (tw_nwname a)) (tw_names a)))"
| "req_body (ReqLopen a) = le32 (tl_fid a) @ le32 (tl_flags a)"
| "req_body (ReqRead a) = le32 (tr_fid a) @ le64 (tr_offset a) @ le32 (tr_count a)"
| "req_body (ReqWrite a) = le32 (twr_fid a) @ le64 (twr_offset a) @ le32 (twr_count a) @ twr_data a"
| "req_body (ReqClunk f) = le32 f"
| "req_body (ReqFlush t) = le16 t"
| "req_body (ReqReaddir a) = le32 (td_fid a) @ le64 (td_offset a) @ le32 (td_count a)"
| "req_body (ReqGetattr f) = le32 f"
| "req_body (ReqWeft f) = le32 f"
| "req_body (ReqWeftio r) = le32 (wi_fid r) @ le32 (wi_off r) @ le32 (wi_len r) @ le32 (wi_dir r)"

fun req_ok :: "request \<Rightarrow> bool" where
  "req_ok (ReqVersion a) \<longleftrightarrow> length (tv_version a) \<le> 65535"
| "req_ok (ReqAttach a) \<longleftrightarrow> length (ta_uname a) \<le> 65535 \<and> length (ta_aname a) \<le> 65535"
| "req_ok (ReqWalk a) \<longleftrightarrow> unat (tw_nwname a) \<le> 16 \<and> length (tw_names a) = 16
     \<and> list_all (\<lambda>s. length s \<le> 255) (take (unat (tw_nwname a)) (tw_names a))
     \<and> list_all (\<lambda>s. s = []) (drop (unat (tw_nwname a)) (tw_names a))"
| "req_ok (ReqWrite a) \<longleftrightarrow> length (twr_data a) = unat (twr_count a)"
| "req_ok _ \<longleftrightarrow> True"

lemma padded_iff:
  assumes "n \<le> 16"
  shows "(\<exists>l. length l = n \<and> P l \<and> ns = l @ replicate (16 - length l) []) \<longleftrightarrow>
     length ns = 16 \<and> P (take n ns) \<and> list_all (\<lambda>s. s = []) (drop n ns)" (is "?L \<longleftrightarrow> ?R")
proof
  assume ?R
  then have len: "length (take n ns) = n" using assms by simp
  from \<open>?R\<close> have "drop n ns = replicate (length (drop n ns)) []"
    by (simp only: replicate_eqI list_all_iff)
  then have "ns = take n ns @ replicate (16 - n) []"
    using \<open>?R\<close> append_take_drop_id [of n ns] by simp
  with \<open>?R\<close> len show ?L by (intro exI [of _ "take n ns"]) simp
next
  assume ?L
  then show ?R using assms by (auto simp: list_all_iff)
qed

lemma parse_twalk_request:
  "parse_twalk buf = Some a \<longleftrightarrow> req_ok (ReqWalk a) \<and> has_at buf 7 (req_body (ReqWalk a))"
proof (cases "unat (tw_nwname a) \<le> 16")
  case True
  show ?thesis
    unfolding parse_twalk_iff req_ok.simps req_body.simps
    using padded_iff [OF True, where P = "\<lambda>l. (\<forall>s \<in> set l. length s \<le> 255) \<and>
        has_at buf 7 (le32 (tw_fid a) @ le32 (tw_newfid a) @ le16 (tw_nwname a)
          @ concat (map wire_str l))" and ns = "tw_names a"]
    by (auto simp: list_all_iff)
next
  case False
  then show ?thesis by (simp add: parse_twalk_iff)
qed

text \<open>C19. The parsers of all twelve requests are exact. A buffer parses as the request \<open>r\<close>
  of type \<open>ty\<close> if and only if \<open>r\<close> has that type, lies within the caps (strings of a 16-bit
  length, at most 16 walk names of at most 255 bytes with the rest of the array empty, a write
  whose data is as long as its count) and its encoding stands at offset 7 inside the buffer.\<close>

theorem parse_request_exact:
  "parse_request ty buf = Some r \<longleftrightarrow>
     req_type r = ty \<and> req_ok r \<and> has_at buf 7 (req_body r)"
  by (cases r)
     (auto simp: parse_tversion_iff parse_tattach_iff parse_twalk_request parse_tlopen_iff
       parse_tread_iff parse_twrite_iff parse_u32_iff parse_tflush_iff parse_treaddir_iff
       parse_tweftio_iff wire_str_ok_def simp del: req_body.simps(3) req_ok.simps(3))

text \<open>C20. Every builder writes exactly the frame of its message or fails. It succeeds if and
  only if the message has an encoding, the frame fits the buffer and its length fits the
  32-bit size field; then it returns the length, the buffer starts with the frame, size field
  included, and the bytes after it are untouched.\<close>

theorem build_writes_frame:
  "build tg m out =
     (let n = 7 + length (msg_body m)
      in if msg_ok m \<and> n \<le> length out \<and> n < 2 ^ 32
         then (Some n, frame (msg_type m) tg (msg_body m) @ drop n out)
         else (None, snd (build tg m out)))"
  using build_builds [of m tg] by (auto simp: builds_def Let_def prod_eq_iff)

lemma build_success:
  assumes "build tg m out = (Some n, out')"
  shows "n = 7 + length (msg_body m) \<and> n < 2 ^ 32 \<and> n \<le> length out \<and>
     out' = frame (msg_type m) tg (msg_body m) @ drop n out"
  using assms build_builds [of m tg]
  by (auto simp: builds_def dest!: spec [of _ out] split: if_splits)

lemma frame_has: "has_at (frame mt tg body @ rest) 7 body"
  using has_at_prefix [of "le32 (of_nat (7 + length body)) @ [mt] @ le16 tg" body rest]
  by (simp add: frame_def)

lemma peek_header_frame:
  "peek_header (frame mt tg body @ rest)
     = Some \<lparr>hdr_size = of_nat (7 + length body), hdr_mtype = mt, hdr_tag = tg\<rparr>"
proof -
  let ?buf = "frame mt tg body @ rest"
  have "has_at ?buf 0 (le32 (of_nat (7 + length body)) @ [mt] @ le16 tg)"
    using has_at_prefix [of "[]" "le32 (of_nat (7 + length body)) @ [mt] @ le16 tg" "body @ rest"]
    by (simp add: frame_def)
  then have "has_at ?buf 0 (le32 (of_nat (7 + length body)))" "has_at ?buf 4 [mt]" "has_at ?buf 5 (le16 tg)"
    unfolding has_at_append by simp_all
  then have "unpack_u32 ?buf 0 = Some (of_nat (7 + length body), 4)"
    "unpack_u8 ?buf 4 = Some (mt, 5)" "unpack_u16 ?buf 5 = Some (tg, 7)"
    by (simp_all only: unpack_fields) simp_all
  then show ?thesis by (simp add: peek_header_def del: of_nat_add)
qed

text \<open>C8. What is built can be taken apart again. On the buffer a builder leaves,
  \<open>peek_header\<close> finds the frame's length, the message's type and its tag, and the parser of
  the other side finds the fields of each Weft message, request and reply.\<close>

theorem built_message_parses:
  assumes "build tg m out = (Some n, out')"
  shows "peek_header out' = Some \<lparr>hdr_size = of_nat n, hdr_mtype = msg_type m, hdr_tag = tg\<rparr> \<and>
    unat (of_nat n :: u32) = n \<and>
    (case m of
       Tweft f \<Rightarrow> parse_tweft out' = Some f
     | Tweftio f b l d \<Rightarrow>
         parse_tweftio out' = Some \<lparr>wi_fid = f, wi_off = b, wi_len = l, wi_dir = d\<rparr>
     | Rweft i s e \<Rightarrow>
         parse_rweft out' = Some \<lparr>wg_share_id = i, wg_ring_size = s, wg_ring_entries = e\<rparr>
     | Rweftio c \<Rightarrow> parse_rweftio out' = Some c
     | _ \<Rightarrow> True)"
proof -
  have n: "n = 7 + length (msg_body m)" "n < 2 ^ 32"
    and out': "out' = frame (msg_type m) tg (msg_body m) @ drop n out"
    using build_success [OF assms] by auto
  have "unat (of_nat n :: u32) = n"
    using n(2) by (simp add: unat_of_nat take_bit_eq_mod)
  moreover have "has_at out' 7 (msg_body m)"
    unfolding out' by (rule frame_has)
  ultimately show ?thesis
    using peek_header_frame [of "msg_type m" tg "msg_body m" "drop n out"] n(1) out'
    by (cases m) (simp_all add: parse_u32_iff parse_tweftio_iff parse_rweft_iff del: of_nat_add)
qed

theorem built_message_parses_witness:
  "fst (build 7 (Tweftio 3 64 512 1) (replicate 32 0)) = Some 23 \<and>
   parse_tweftio (snd (build 7 (Tweftio 3 64 512 1) (replicate 32 0)))
     = Some \<lparr>wi_fid = 3, wi_off = 64, wi_len = 512, wi_dir = 1\<rparr>"
proof -
  have "fst (build 7 (Tweftio 3 64 512 1) (replicate 32 0)) = Some 23"
    by (simp add: build_tweftio_def build_header_def pack_u8_def pack_u16_def pack_u32_def
        patch_header_size_def bindW_def retW_def Let_def)
  then have "build 7 (Tweftio 3 64 512 1) (replicate 32 0)
      = (Some 23, snd (build 7 (Tweftio 3 64 512 1) (replicate 32 0)))"
    by (metis prod.collapse)
  from built_message_parses [OF this] show ?thesis
    using \<open>fst _ = Some 23\<close> by simp
qed

text \<open>A directory entry takes exactly \<open>dirent_len\<close> bytes: \<open>pack_dirent\<close> succeeds if and
  only if the name has a 16-bit length and that many bytes are left, and then writes the qid,
  the resume offset, the type and the counted name there and nothing elsewhere.\<close>

theorem pack_dirent_exact:
  "pack_dirent off q next_off ty name out =
     (if length name \<le> 65535 \<and> off + dirent_len (length name) \<le> length out
      then (Some (off + dirent_len (length name)),
            overwrite off (wire_qid q @ le64 next_off @ [ty] @ wire_str name) out)
      else (None, snd (pack_dirent off q next_off ty name out)))"
proof (cases "wire_str_ok name")
  case True
  have emits: "emits off (wire_qid q @ le64 next_off @ [ty] @ wire_str name)
      (pack_dirent off q next_off ty name)"
    unfolding pack_dirent_def using True by (intro wire_emits)
  have "dirent_len (length name) = length (wire_qid q @ le64 next_off @ [ty] @ wire_str name)"
    by (simp add: dirent_len_def)
  then show ?thesis
    using True emits_fits [OF emits, of out] emits_short [OF emits, of out]
    by (auto simp: wire_str_ok_def prod_eq_iff)
next
  case False
  have "refuses (pack_dirent off q next_off ty name)"
    unfolding pack_dirent_def by (intro refuses_later refuses_str False)
  with False show ?thesis
    by (auto simp: wire_str_ok_def refuses_def prod_eq_iff)
qed

lemma and_not_mask_zero:
  "w AND NOT (mask n) = 0 \<longleftrightarrow> unat w < 2 ^ n" for w :: "'a::len word"
proof -
  have "w AND NOT (mask n) = 0 \<longleftrightarrow> take_bit n w = w"
    by (auto simp: bit_eq_iff bit_simps)
  also have "\<dots> \<longleftrightarrow> unat w < 2 ^ n"
    by (simp add: word_unat_eq_iff unsigned_take_bit_eq take_bit_nat_eq_self_iff)
  finally show ?thesis .
qed

lemma poll_split:
  "P9_POLL_MASK OR P9_POLL_SNAPSHOT = mask 17"
  "P9_POLL_MASK = mask 16"
  by (simp_all add: P9_POLL_MASK_def P9_POLL_SNAPSHOT_def mask_eq_exp_minus_1)

lemma poll_snapshot:
  fixes w :: u64
  assumes "unat w < 2 ^ 17"
  shows "w AND P9_POLL_SNAPSHOT = 0 \<longleftrightarrow> unat w < 2 ^ 16"
proof -
  have high: "\<not> bit w k" if "17 \<le> k" for k
  proof
    assume "bit w k"
    then have "k < 64" using bit_imp_le_length [of w k] by simp
    with \<open>bit w k\<close> that show False
      using and_not_mask_zero [of w 17] assms by (auto simp: bit_eq_iff bit_simps)
  qed
  have "w AND push_bit 16 1 = 0 \<longleftrightarrow> \<not> bit w 16"
    by (simp only: bit_iff_and_push_bit_not_eq_0 not_not)
  also have "\<dots> \<longleftrightarrow> w AND NOT (mask 16) = 0"
  proof -
    have "k = 16" if "bit w k" "\<not> k < 16" for k
      using high [of k] that by linarith
    moreover have "w AND NOT (mask 16) = 0 \<longleftrightarrow> (\<forall>k<64. bit w k \<longrightarrow> k < 16)"
      by (auto simp: bit_eq_iff bit_simps)
    ultimately show ?thesis by (metis less_irrefl numeral_less_iff semiring_norm(76,78,81))
  qed
  finally show ?thesis by (simp only: and_not_mask_zero P9_POLL_SNAPSHOT_def)
qed

text \<open>The readiness answer. An offset that uses any bit above the snapshot bit is refused
  with \<open>EINVAL\<close>. Otherwise the low 16 bits are the poll mask, and the answer is deferred exactly
  when nothing polled is ready and the read is not a snapshot; an answer never carries more
  than four bytes, nor more than the count or the negotiated size leaves room for.\<close>

theorem ready_answer_cases:
  "ready_answer offset cnt ms level =
     (if unat offset \<ge> 2 ^ 17 then Refuse 22
      else let m = of_nat (unat offset mod 2 ^ 16);
               len = min 4 (min (unat cnt) (unat ms - 11))
           in if level m = 0 \<and> unat offset < 2 ^ 16 then Defer m len else Reply (level m) len)"
proof (cases "unat offset < 2 ^ 17")
  case False
  then show ?thesis
    using and_not_mask_zero [of offset 17] by (simp add: ready_answer_def poll_split(1) E_INVAL_def)
next
  case True
  have "ucast (offset AND P9_POLL_MASK) = (of_nat (unat offset mod 2 ^ 16) :: u16)"
    unfolding poll_split take_bit_eq_mask [symmetric]
    by (simp add: word_unat_eq_iff unsigned_ucast_eq unat_of_nat unsigned_take_bit_eq
        take_bit_eq_mod [where 'a = nat])
  then show ?thesis
    using True and_not_mask_zero [of offset 17] poll_snapshot [OF True]
    by (auto simp: ready_answer_def poll_split(1) Let_def min.commute min.left_commute)
qed

end
