(* ===== verification/Virtq_Ring.thy ===== *)
theory Virtq_Ring
  imports Thyla_Base
begin

text \<open>
  The index bookkeeping of a split virtqueue, \<open>usr/lib/netdev/src/ring.rs\<close>: the transmit
  ring and the receive ring, each a size and two 16-bit counters that wrap at 65536. The
  counters are kept at their width. \<open>%\<close> by a zero size panics in the source, which is
  \<open>None\<close> here.

  The contract a driver relies on is the locale \<open>tx_queue\<close>: the ring is a first-in first-out
  queue of distinct buffer slots of bounded length. It is interpreted on the ring's own
  operations for the queue size the drivers use.
\<close>

section \<open>The transmit ring\<close>

record tx_ring =
  tx_size :: u16
  tx_avail_idx :: u16
  tx_seen_used :: u16

definition tx_new :: "u16 \<Rightarrow> tx_ring" where
  "tx_new sz = \<lparr>tx_size = sz, tx_avail_idx = 0, tx_seen_used = 0\<rparr>"

definition in_flight :: "tx_ring \<Rightarrow> u16" where
  "in_flight r = tx_avail_idx r - tx_seen_used r"

definition can_post :: "tx_ring \<Rightarrow> bool" where
  "can_post r \<longleftrightarrow> in_flight r < tx_size r"

definition next_slot :: "tx_ring \<Rightarrow> nat option" where
  "next_slot r = (if tx_size r = 0 then None else Some (unat (tx_avail_idx r mod tx_size r)))"

definition commit_post :: "tx_ring \<Rightarrow> u16 \<times> tx_ring" where
  "commit_post r =
     (let r' = r\<lparr>tx_avail_idx := tx_avail_idx r + 1\<rparr> in (tx_avail_idx r', r'))"

text \<open>The loop of \<open>reap\<close>, from \<open>seen_used\<close> and \<open>n\<close> to their values after it.\<close>

function reap_loop :: "u16 \<Rightarrow> u16 \<Rightarrow> u16 \<Rightarrow> u16 \<Rightarrow> u16 \<times> u16" where
  "reap_loop cur_used reapable seen n =
     (if seen \<noteq> cur_used \<and> n < reapable
      then reap_loop cur_used reapable (seen + 1) (n + 1)
      else (seen, n))"
  by auto

termination
  by (relation "measure (\<lambda>(_, reapable, _, n). unat reapable - unat n)")
     (auto simp: unat_Suc_less word_less_nat_alt)

declare reap_loop.simps [simp del]

definition reap :: "u16 \<Rightarrow> u16 \<Rightarrow> tx_ring \<Rightarrow> u16 \<times> tx_ring" where
  "reap cur_used cap r =
     (let reapable = min (in_flight r) cap;
          (seen, n) = reap_loop cur_used reapable (tx_seen_used r) 0
      in (n, r\<lparr>tx_seen_used := seen\<rparr>))"

section \<open>The receive ring\<close>

record rx_ring =
  rx_size :: u16
  rx_avail_idx :: u16
  rx_seen_used :: u16

definition rx_new :: "u16 \<Rightarrow> rx_ring" where
  "rx_new sz = \<lparr>rx_size = sz, rx_avail_idx = sz, rx_seen_used = 0\<rparr>"

definition has_used :: "rx_ring \<Rightarrow> u16 \<Rightarrow> bool" where
  "has_used r cur_used \<longleftrightarrow> rx_seen_used r \<noteq> cur_used"

text \<open>The outer option is the panic, the inner one the \<open>Option\<close> the source returns.\<close>

definition take_used :: "u16 \<Rightarrow> rx_ring \<Rightarrow> (nat option \<times> rx_ring) option" where
  "take_used cur_used r =
     (if rx_seen_used r = cur_used then Some (None, r)
      else if rx_size r = 0 then None
      else Some (Some (unat (rx_seen_used r mod rx_size r)),
                 r\<lparr>rx_seen_used := rx_seen_used r + 1\<rparr>))"

definition recycle_slot :: "rx_ring \<Rightarrow> (nat \<times> rx_ring) option" where
  "recycle_slot r =
     (if rx_size r = 0 then None
      else Some (unat (rx_avail_idx r mod rx_size r), r\<lparr>rx_avail_idx := rx_avail_idx r + 1\<rparr>))"

section \<open>What one operation does\<close>

text \<open>The loop advances by the smallest of the outstanding count left and the distance to the
  device's index.\<close>

lemma reap_loop_closed:
  assumes "n \<le> reapable"
  shows "reap_loop cur reapable seen n =
     (let k = min (unat reapable - unat n) (unat (cur - seen))
      in (seen + of_nat k, n + of_nat k))"
  using assms
proof (induction cur reapable seen n rule: reap_loop.induct)
  case (1 cur reapable seen n)
  show ?case
  proof (cases "seen \<noteq> cur \<and> n < reapable")
    case True
    let ?k = "min (unat reapable - unat (n + 1)) (unat (cur - (seen + 1)))"
    have n1: "unat (n + 1) = unat n + 1" and "n + 1 \<le> reapable"
      using True by (auto simp: unat_Suc_less word_le_nat_alt word_less_nat_alt)
    then have "reap_loop cur reapable seen n = (seen + 1 + of_nat ?k, n + 1 + of_nat ?k)"
      using True 1 by (subst reap_loop.simps) (simp add: Let_def)
    moreover have "min (unat reapable - unat n) (unat (cur - seen)) = Suc ?k"
      using True unat_Suc_diff [of seen cur] by (auto simp: n1 word_less_nat_alt min_def)
    ultimately show ?thesis by (simp add: Let_def algebra_simps)
  next
    case False
    then have "min (unat reapable - unat n) (unat (cur - seen)) = 0"
      using 1 by (auto simp: word_less_nat_alt)
    with False show ?thesis by (subst reap_loop.simps) (auto simp: Let_def)
  qed
qed

definition reap_count :: "u16 \<Rightarrow> u16 \<Rightarrow> tx_ring \<Rightarrow> nat" where
  "reap_count cur_used cap r =
     min (min (unat (in_flight r)) (unat cap)) (unat (cur_used - tx_seen_used r))"

lemma reap_eq:
  "reap cur cap r = (of_nat (reap_count cur cap r),
     r\<lparr>tx_seen_used := tx_seen_used r + of_nat (reap_count cur cap r)\<rparr>)"
  by (simp add: reap_def reap_loop_closed reap_count_def Let_def min_def word_le_nat_alt)

lemma unat_reap_count [simp]: "unat (of_nat (reap_count cur cap r) :: u16) = reap_count cur cap r"
proof -
  have "reap_count cur cap r < 2 ^ 16"
    using unsigned_less [of "in_flight r", where 'a = nat] by (simp add: reap_count_def)
  then show ?thesis by (simp add: unat_of_nat take_bit_eq_mod)
qed

lemma in_flight_reap:
  "unat (in_flight (snd (reap cur cap r))) = unat (in_flight r) - reap_count cur cap r"
proof -
  have "in_flight (snd (reap cur cap r)) = in_flight r - of_nat (reap_count cur cap r)"
    by (simp add: reap_eq in_flight_def)
  moreover have "reap_count cur cap r \<le> unat (in_flight r)"
    by (simp add: reap_count_def)
  ultimately show ?thesis by (simp add: unat_diff_of_nat)
qed

lemma in_flight_commit:
  "can_post r \<Longrightarrow> unat (in_flight (snd (commit_post r))) = unat (in_flight r) + 1"
  using unat_Suc_less [of "in_flight r" "tx_size r"]
  by (simp add: commit_post_def in_flight_def can_post_def Let_def algebra_simps)

section \<open>The slots in flight\<close>

text \<open>The buffer slots the device holds, oldest first.\<close>

definition slot_at :: "tx_ring \<Rightarrow> nat \<Rightarrow> nat" where
  "slot_at r i = unat ((tx_seen_used r + of_nat i) mod tx_size r)"

definition flight :: "tx_ring \<Rightarrow> nat list" where
  "flight r = map (slot_at r) [0..<unat (in_flight r)]"

lemma length_flight [simp]: "length (flight r) = unat (in_flight r)"
  by (simp add: flight_def)

lemma next_slot_flight:
  "tx_size r \<noteq> 0 \<Longrightarrow> next_slot r = Some (slot_at r (unat (in_flight r)))"
  by (simp add: next_slot_def slot_at_def in_flight_def)

lemma flight_commit:
  "can_post r \<Longrightarrow> flight (snd (commit_post r)) = flight r @ [slot_at r (unat (in_flight r))]"
  using in_flight_commit [of r]
  by (simp add: flight_def) (simp add: commit_post_def slot_at_def Let_def)

lemma flight_reap:
  "flight (snd (reap cur cap r)) = drop (reap_count cur cap r) (flight r)"
proof -
  have "slot_at (snd (reap cur cap r)) i = slot_at r (reap_count cur cap r + i)" for i
    by (simp add: reap_eq slot_at_def add.assoc)
  then show ?thesis
    by (auto simp: flight_def in_flight_reap intro!: nth_equalityI)
qed

text \<open>When the size divides 65536 (a power of two, as virtio requires), the slot sequence
  does not jump where the counters wrap.\<close>

lemma slot_at_mod:
  assumes "unat (tx_size r) dvd 65536"
  shows "slot_at r i = (unat (tx_seen_used r) + i) mod unat (tx_size r)"
proof -
  have "unat (tx_seen_used r + of_nat i) = (unat (tx_seen_used r) + i) mod 65536"
    by (simp add: unat_word_ariths unat_of_nat take_bit_eq_mod mod_simps)
  with assms show ?thesis
    by (simp add: slot_at_def unat_mod mod_mod_cancel)
qed

lemma mod_window:
  assumes "(a + i) mod s = (a + j) mod s" and "i \<le> j" and "j < i + s"
  shows "i = (j :: nat)"
proof -
  have "s dvd (a + j) - (a + i)"
    using assms(1) by (metis mod_eq_dvd_iff_nat assms(2) add_le_cancel_left)
  then have "s dvd j - i" by simp
  moreover have "j - i < s" using assms by simp
  ultimately show ?thesis using assms(2) by (auto dest: dvd_imp_le)
qed

section \<open>The contract of a transmit queue\<close>

text \<open>
  What a driver that owns one buffer per slot relies on: a free queue names a slot that no
  frame in flight uses, posting appends it, and retiring takes from the front. That the slots
  in flight are distinct, in range and no more than the queue holds then follows for every
  sequence of operations.
\<close>

locale tx_queue =
  fixes inv :: "'q \<Rightarrow> bool"
    and init :: 'q
    and free :: "'q \<Rightarrow> bool"
    and slot :: "'q \<Rightarrow> nat option"
    and post :: "'q \<Rightarrow> 'q"
    and retire :: "u16 \<Rightarrow> u16 \<Rightarrow> 'q \<Rightarrow> 'q"
    and view :: "'q \<Rightarrow> nat list"
    and cap :: nat
  assumes inv_init: "inv init"
    and inv_post: "inv q \<Longrightarrow> free q \<Longrightarrow> inv (post q)"
    and inv_retire: "inv q \<Longrightarrow> inv (retire cur n q)"
    and view_init: "view init = []"
    and slot_fresh: "inv q \<Longrightarrow> free q \<Longrightarrow> \<exists>k. slot q = Some k \<and> k < cap \<and> k \<notin> set (view q)"
    and view_post: "inv q \<Longrightarrow> free q \<Longrightarrow> slot q = Some k \<Longrightarrow> view (post q) = view q @ [k]"
    and view_retire: "inv q \<Longrightarrow> \<exists>d. view (retire cur n q) = drop d (view q)"
begin

definition owned :: "'q \<Rightarrow> bool" where
  "owned q \<longleftrightarrow> inv q \<and> distinct (view q) \<and> set (view q) \<subseteq> {..<cap}"

lemma owned_init: "owned init"
  by (simp add: owned_def inv_init view_init)

lemma owned_post: "owned q \<Longrightarrow> free q \<Longrightarrow> owned (post q)"
  using slot_fresh [of q] by (auto simp: owned_def inv_post view_post)

lemma owned_retire: "owned q \<Longrightarrow> owned (retire cur n q)"
  using view_retire [of q cur n] set_drop_subset
  by (fastforce simp: owned_def inv_retire)

lemma owned_length: "owned q \<Longrightarrow> length (view q) \<le> cap"
  using card_mono [of "{..<cap}" "set (view q)"] by (auto simp: owned_def distinct_card)

lemma owned_slot: "owned q \<Longrightarrow> free q \<Longrightarrow> \<exists>k. slot q = Some k \<and> k < cap \<and> k \<notin> set (view q)"
  by (simp add: owned_def slot_fresh)

end

definition tx_wf :: "u16 \<Rightarrow> tx_ring \<Rightarrow> bool" where
  "tx_wf sz r \<longleftrightarrow> tx_size r = sz \<and> unat (in_flight r) \<le> unat sz"

lemma tx_wf_ops [inv_step]:
  "tx_wf sz (tx_new sz)"
  "tx_wf sz r \<Longrightarrow> can_post r \<Longrightarrow> tx_wf sz (snd (commit_post r))"
  "tx_wf sz r \<Longrightarrow> tx_wf sz (snd (reap cur cap r))"
proof -
  show "tx_wf sz (tx_new sz)" by (simp add: tx_wf_def tx_new_def in_flight_def)
next
  assume "tx_wf sz r" "can_post r"
  then show "tx_wf sz (snd (commit_post r))"
    using in_flight_commit [of r]
    by (simp add: tx_wf_def can_post_def word_less_nat_alt) (simp add: commit_post_def Let_def)
next
  assume "tx_wf sz r"
  moreover have "tx_size (snd (reap cur cap r)) = tx_size r" by (simp add: reap_eq)
  ultimately show "tx_wf sz (snd (reap cur cap r))"
    by (auto simp: tx_wf_def in_flight_reap)
qed

lemma flight_fresh:
  assumes "unat sz dvd 65536" and "tx_wf sz r" and "can_post r"
  shows "slot_at r (unat (in_flight r)) \<notin> set (flight r)"
proof
  let ?n = "unat (in_flight r)" and ?s = "unat (tx_size r)"
  assume "slot_at r ?n \<in> set (flight r)"
  then obtain i where i: "i < ?n" "slot_at r i = slot_at r ?n"
    by (auto simp: flight_def)
  have "?n < i + ?s"
    using assms(3) by (simp add: can_post_def word_less_nat_alt)
  then have "i = ?n"
    using i assms by (intro mod_window [of "unat (tx_seen_used r)" i ?s]) (simp_all add: slot_at_mod tx_wf_def)
  with i show False by simp
qed

theorem tx_queue_ring:
  assumes "sz \<noteq> 0" and dvd: "unat sz dvd 65536"
  shows "tx_queue (tx_wf sz) (tx_new sz) can_post next_slot (\<lambda>r. snd (commit_post r))
     (\<lambda>cur cap r. snd (reap cur cap r)) flight (unat sz)"
proof
  fix r assume "tx_wf sz r" "can_post r"
  moreover from this have "slot_at r i < unat sz" for i
    using assms(1) by (simp add: slot_at_def tx_wf_def unat_mod unat_gt_0)
  ultimately show "\<exists>k. next_slot r = Some k \<and> k < unat sz \<and> k \<notin> set (flight r)"
    using assms flight_fresh [OF dvd] by (simp add: next_slot_flight tx_wf_def)
next
  fix r k assume "tx_wf sz r" "can_post r" "next_slot r = Some k"
  then show "flight (snd (commit_post r)) = flight r @ [k]"
    using assms by (simp add: flight_commit next_slot_flight tx_wf_def)
qed (auto simp: inv_step flight_reap, simp add: flight_def tx_new_def in_flight_def)

section \<open>What the rings guarantee\<close>

text \<open>The operations of a driver on its transmit ring, in any order: a post behind the
  \<open>can_post\<close> gate, and a reap against whatever index the device reports.\<close>

inductive tx_step :: "tx_ring \<Rightarrow> tx_ring \<Rightarrow> bool" where
  post: "can_post r \<Longrightarrow> tx_step r (snd (commit_post r))"
| reap: "tx_step r (snd (reap cur cap r))"

text \<open>C22. The slots in flight are never reused. For a size that divides 65536, after any
  sequence of gated posts and of reaps against arbitrary device indices, the slots in flight
  are distinct, in range, exactly \<open>in_flight\<close> many and at most \<open>size\<close>; and whenever
  \<open>can_post\<close> holds, \<open>next_slot\<close> is a slot in range that is not among them.\<close>

theorem tx_slots_never_reused:
  assumes reach: "tx_step\<^sup>*\<^sup>* (tx_new sz) r"
    and sz: "sz \<noteq> 0" "unat sz dvd 65536"
  shows "distinct (flight r) \<and> length (flight r) = unat (in_flight r) \<and>
    in_flight r \<le> sz \<and> list_all (\<lambda>k. k < unat sz) (flight r) \<and>
    (can_post r \<longrightarrow> (\<exists>k. next_slot r = Some k \<and> k < unat sz \<and> k \<notin> set (flight r)))"
proof -
  note q = tx_queue_ring [OF sz]
  have "tx_queue.owned (tx_wf sz) flight (unat sz) r"
    using reach
  proof (induction rule: rtranclp_induct)
    case base
    show ?case by (rule tx_queue.owned_init [OF q])
  next
    case (step r r')
    from step.hyps(2) step.IH show ?case
      by (cases rule: tx_step.cases)
         (auto intro: tx_queue.owned_post [OF q] tx_queue.owned_retire [OF q])
  qed
  then show ?thesis
    using tx_queue.owned_length [OF q] tx_queue.owned_slot [OF q]
    by (auto simp: tx_queue.owned_def [OF q] list_all_iff word_le_nat_alt)
qed

theorem tx_slots_never_reused_witness:
  "distinct (flight (snd (commit_post (tx_new 16)))) \<and>
   in_flight (snd (commit_post (tx_new 16))) \<le> 16"
proof -
  have "can_post (tx_new 16)"
    by (simp add: can_post_def in_flight_def tx_new_def)
  then have "tx_step\<^sup>*\<^sup>* (tx_new 16) (snd (commit_post (tx_new 16)))"
    by (intro r_into_rtranclp tx_step.post)
  moreover have "unat (16 :: u16) dvd 65536" by simp
  ultimately show ?thesis
    using tx_slots_never_reused [of 16 "snd (commit_post (tx_new 16))"] by simp
qed

text \<open>\<open>reap\<close> terminates and retires exactly the smallest of the outstanding count, the cap
  and the distance to the device's index: a device that reports an index it was never given
  can neither drive the outstanding count below zero nor hold the loop.\<close>

theorem reap_exact:
  "reap cur cap r =
     (let k = min (min (unat (in_flight r)) (unat cap)) (unat (cur - tx_seen_used r))
      in (of_nat k, r\<lparr>tx_seen_used := tx_seen_used r + of_nat k\<rparr>)) \<and>
   unat (in_flight (snd (reap cur cap r))) = unat (in_flight r) - unat (fst (reap cur cap r)) \<and>
   flight (snd (reap cur cap r)) = drop (unat (fst (reap cur cap r))) (flight r)"
proof -
  have "unat (fst (reap cur cap r)) = reap_count cur cap r" by (simp add: reap_eq)
  then show ?thesis
    by (simp add: in_flight_reap flight_reap) (simp add: reap_eq reap_count_def Let_def)
qed

text \<open>The receive side: a used entry taken, and a drained descriptor recycled. The second
  component counts the descriptors taken and not yet recycled.\<close>

inductive rx_step :: "rx_ring \<times> nat \<Rightarrow> rx_ring \<times> nat \<Rightarrow> bool" where
  take: "take_used cur r = Some (Some s, r') \<Longrightarrow> rx_step (r, p) (r', p + 1)"
| recycle: "recycle_slot r = Some (s, r') \<Longrightarrow> rx_step (r, Suc p) (r', p)"

inductive_cases rx_stepE: "rx_step (r, p) (r', p')"

lemma rx_step_balance:
  assumes "rx_step x y"
  shows "rx_size (fst y) = rx_size (fst x) \<and>
    rx_avail_idx (fst y) - rx_seen_used (fst y) + of_nat (snd y)
      = rx_avail_idx (fst x) - rx_seen_used (fst x) + of_nat (snd x)"
  using assms by (cases rule: rx_step.cases)
    (auto simp: take_used_def recycle_slot_def split: if_splits)

text \<open>The receive queue is never starved by the bookkeeping. From a fresh ring of a
  non-zero size, after any interleaving of takes and recycles with \<open>p\<close> descriptors taken and
  not yet recycled, \<open>avail - seen = size - p\<close> modulo 65536, so that recycling every
  descriptor taken restores the full \<open>size\<close>; and no operation panics or names a slot outside
  the ring.\<close>

theorem rx_ring_balance:
  assumes reach: "rx_step\<^sup>*\<^sup>* (rx_new sz, 0) (r, p)" and sz: "sz \<noteq> 0"
  shows "rx_avail_idx r - rx_seen_used r = sz - of_nat p \<and>
    (\<exists>r'. take_used cur r = Some (if has_used r cur then Some (unat (rx_seen_used r) mod unat sz) else None, r')) \<and>
    unat (rx_seen_used r) mod unat sz < unat sz \<and>
    (\<exists>s r'. recycle_slot r = Some (s, r') \<and> s < unat sz)"
proof -
  have "rx_size (fst y) = sz \<and> rx_avail_idx (fst y) - rx_seen_used (fst y) + of_nat (snd y) = sz"
    if "rx_step\<^sup>*\<^sup>* (rx_new sz, 0) y" for y
    using that by (induction rule: rtranclp_induct)
      (auto simp: rx_new_def dest: rx_step_balance)
  from this [OF reach] have "rx_size r = sz" "rx_avail_idx r - rx_seen_used r + of_nat p = sz"
    by simp_all
  moreover from this(2) have "rx_avail_idx r - rx_seen_used r = sz - of_nat p"
    by (simp add: eq_diff_eq)
  ultimately show ?thesis
    using sz by (auto simp: take_used_def recycle_slot_def has_used_def unat_mod unat_gt_0)
qed

theorem rx_ring_balance_witness:
  "\<exists>r. rx_step\<^sup>*\<^sup>* (rx_new 16, 0) (r, 1) \<and> rx_avail_idx r - rx_seen_used r = 15"
proof -
  let ?r = "(rx_new 16)\<lparr>rx_seen_used := 1\<rparr>"
  have "take_used 3 (rx_new 16) = Some (Some 0, ?r)"
    by (simp add: take_used_def rx_new_def)
  then have "rx_step (rx_new 16, 0) (?r, 1)"
    using rx_step.take [of 3 "rx_new 16" 0 ?r 0] by simp
  then have "rx_step\<^sup>*\<^sup>* (rx_new 16, 0) (?r, 1)" by (rule r_into_rtranclp)
  then show ?thesis
    using rx_ring_balance [of 16 ?r 1] by auto
qed

end
