(* ===== verification/Virtio_Net.thy ===== *)
theory Virtio_Net
  imports Virtq_Ring Ninep_Wire
begin

text \<open>
  The data path of the virtio-net driver, \<open>usr/lib/netdev/src/virtio.rs\<close>: posting a frame,
  reclaiming finished ones, draining one received frame, recycling its descriptor.

  The three DMA regions are byte lists addressed from their base, and an access outside its
  region is \<open>None\<close>: in the source it would be an access through a raw pointer outside the
  mapping. The device may write the ring page and the receive pool at any time, so the
  theorems hold for every content of these. The barriers order the accesses of one program
  and have no counterpart here; a notification is an entry of a log.
\<close>

section \<open>Geometry and state\<close>

definition VIRTIO_NET_HDR_LEN :: nat where "VIRTIO_NET_HDR_LEN = 12"
definition MTU :: nat where "MTU = 1500"
definition MAX_FRAME :: nat where "MAX_FRAME = 14 + MTU"
definition QUEUE_SIZE :: u16 where "QUEUE_SIZE = 16"
definition BUF_LEN :: nat where "BUF_LEN = 2048"
definition RING_DMA_SIZE :: nat where "RING_DMA_SIZE = 4096"
definition TX_DESC_OFF :: nat where "TX_DESC_OFF = 0x000"
definition TX_AVAIL_OFF :: nat where "TX_AVAIL_OFF = 0x100"
definition TX_USED_OFF :: nat where "TX_USED_OFF = 0x200"
definition RX_AVAIL_OFF :: nat where "RX_AVAIL_OFF = 0x500"
definition RX_USED_OFF :: nat where "RX_USED_OFF = 0x600"
definition POOL_DMA_SIZE :: nat where "POOL_DMA_SIZE = unat QUEUE_SIZE * BUF_LEN"
definition NET_QUEUE_RX :: u32 where "NET_QUEUE_RX = 0"
definition NET_QUEUE_TX :: u32 where "NET_QUEUE_TX = 1"

lemmas geometry =
  VIRTIO_NET_HDR_LEN_def MTU_def MAX_FRAME_def QUEUE_SIZE_def BUF_LEN_def RING_DMA_SIZE_def
  TX_DESC_OFF_def TX_AVAIL_OFF_def TX_USED_OFF_def RX_AVAIL_OFF_def RX_USED_OFF_def
  POOL_DMA_SIZE_def

record virtio_net =
  ring_page :: bytes
  txpool :: bytes
  rxpool :: bytes
  vn_tx :: tx_ring
  vn_rx :: rx_ring
  notified :: "u32 list"

section \<open>Accessors\<close>

definition dma_put :: "nat \<Rightarrow> bytes \<Rightarrow> bytes \<Rightarrow> bytes option" where
  "dma_put off bs m = (if off + length bs \<le> length m then Some (overwrite off bs m) else None)"

definition w8 :: "nat \<Rightarrow> u8 \<Rightarrow> bytes \<Rightarrow> bytes option" where "w8 off v = dma_put off [v]"
definition w16 :: "nat \<Rightarrow> u16 \<Rightarrow> bytes \<Rightarrow> bytes option" where "w16 off v = dma_put off (le16 v)"
definition w32 :: "nat \<Rightarrow> u32 \<Rightarrow> bytes \<Rightarrow> bytes option" where "w32 off v = dma_put off (le32 v)"
definition r8 :: "nat \<Rightarrow> bytes \<Rightarrow> u8 option" where "r8 off m = map_option fst (unpack_u8 m off)"
definition r16 :: "nat \<Rightarrow> bytes \<Rightarrow> u16 option" where "r16 off m = map_option fst (unpack_u16 m off)"
definition r32 :: "nat \<Rightarrow> bytes \<Rightarrow> u32 option" where "r32 off m = map_option fst (unpack_u32 m off)"

text \<open>The byte loops of the two copies.\<close>

fun w8s :: "nat \<Rightarrow> bytes \<Rightarrow> bytes \<Rightarrow> bytes option" where
  "w8s off [] m = Some m"
| "w8s off (b # bs) m = do { m \<leftarrow> w8 off b m; w8s (off + 1) bs m }"

fun r8s :: "nat \<Rightarrow> nat \<Rightarrow> bytes \<Rightarrow> bytes option" where
  "r8s off 0 m = Some []"
| "r8s off (Suc n) m = do { b \<leftarrow> r8 off m; bs \<leftarrow> r8s (off + 1) n m; Some (b # bs) }"

section \<open>Operations\<close>

definition drain_tx :: "virtio_net \<Rightarrow> virtio_net option" where
  "drain_tx s = do {
     cur_used \<leftarrow> r16 (TX_USED_OFF + 2) (ring_page s);
     Some (s\<lparr>vn_tx := snd (reap cur_used QUEUE_SIZE (vn_tx s))\<rparr>)
   }"

definition send :: "bytes \<Rightarrow> virtio_net \<Rightarrow> (bool \<times> virtio_net) option" where
  "send frame s =
     (if frame = [] \<or> length frame > MAX_FRAME then Some (False, s)
      else do {
        s \<leftarrow> (if \<not> can_post (vn_tx s) then drain_tx s else Some s);
        if \<not> can_post (vn_tx s) then Some (False, s)
        else do {
          slot \<leftarrow> next_slot (vn_tx s);
          let buf = slot * BUF_LEN;
          pool \<leftarrow> w8s buf (replicate VIRTIO_NET_HDR_LEN 0) (txpool s);
          pool \<leftarrow> w8s (buf + VIRTIO_NET_HDR_LEN) frame pool;
          page \<leftarrow> w32 (TX_DESC_OFF + slot * 16 + 8)
                    (of_nat (VIRTIO_NET_HDR_LEN + length frame)) (ring_page s);
          let (new_idx, t) = commit_post (vn_tx s);
          page \<leftarrow> w16 (TX_AVAIL_OFF + 2) new_idx page;
          Some (True, s\<lparr>txpool := pool, ring_page := page, vn_tx := t,
                        notified := notified s @ [NET_QUEUE_TX]\<rparr>)
        }
      })"

definition recycle_rx :: "u32 \<Rightarrow> virtio_net \<Rightarrow> virtio_net option" where
  "recycle_rx desc_id s = do {
     (avail_slot, rx) \<leftarrow> recycle_slot (vn_rx s);
     let new_idx = rx_avail_idx rx;
     page \<leftarrow> w16 (RX_AVAIL_OFF + 4 + avail_slot * 2) (ucast desc_id) (ring_page s);
     page \<leftarrow> w16 (RX_AVAIL_OFF + 2) new_idx page;
     Some (s\<lparr>ring_page := page, vn_rx := rx, notified := notified s @ [NET_QUEUE_RX]\<rparr>)
   }"

definition poll_rx :: "bytes \<Rightarrow> virtio_net \<Rightarrow> (nat option \<times> bytes \<times> virtio_net) option" where
  "poll_rx out s = do {
     cur_used \<leftarrow> r16 (RX_USED_OFF + 2) (ring_page s);
     (used, rx) \<leftarrow> take_used cur_used (vn_rx s);
     let s = s\<lparr>vn_rx := rx\<rparr>;
     case used of
       None \<Rightarrow> Some (None, out, s)
     | Some used_slot \<Rightarrow> do {
         desc_id \<leftarrow> r32 (RX_USED_OFF + 4 + used_slot * 8) (ring_page s);
         raw_len \<leftarrow> r32 (RX_USED_OFF + 4 + used_slot * 8 + 4) (ring_page s);
         if unat desc_id \<ge> unat QUEUE_SIZE then Some (None, out, s)
         else do {
           let len = min (unat raw_len) (VIRTIO_NET_HDR_LEN + MAX_FRAME);
           let frame_len = len - VIRTIO_NET_HDR_LEN;
           let n = min frame_len (length out);
           let base = unat desc_id * BUF_LEN;
           bs \<leftarrow> r8s (base + VIRTIO_NET_HDR_LEN) n (rxpool s);
           s \<leftarrow> recycle_rx desc_id s;
           Some (Some n, bs @ drop n out, s)
         }
       }
   }"

section \<open>In-bounds access\<close>

lemma dma_put_fits: "off + length bs \<le> length m \<Longrightarrow> dma_put off bs m = Some (overwrite off bs m)"
  by (simp add: dma_put_def)

lemma w8s_fits:
  "off + length bs \<le> length m \<Longrightarrow> w8s off bs m = Some (overwrite off bs m)"
proof (induction bs arbitrary: off m)
  case (Cons b bs)
  then have "w8 off b m = Some (m[off := b])"
    by (simp add: w8_def dma_put_def overwrite_Cons)
  with Cons show ?case by (simp add: overwrite_Cons)
qed simp

lemma r8s_fits: "off + n \<le> length m \<Longrightarrow> r8s off n m = Some (take n (drop off m))"
proof (induction n arbitrary: off)
  case (Suc n)
  then have "r8 off m = Some (m ! off)" by (simp add: r8_def unpack_u8_def)
  with Suc show ?case by (simp add: Cons_nth_drop_Suc [symmetric])
qed simp

lemma r16_fits: "off + 2 \<le> length m \<Longrightarrow> \<exists>v. r16 off m = Some v"
  by (simp add: r16_def unpack_u16_def Let_def)

lemma r32_fits: "off + 4 \<le> length m \<Longrightarrow> \<exists>v. r32 off m = Some v"
  by (simp add: r32_def unpack_u32_def Let_def)

text \<open>The slice of a pool that belongs to one slot, and that writing one slot leaves every
  other alone.\<close>

definition buffer :: "bytes \<Rightarrow> nat \<Rightarrow> bytes" where
  "buffer pool k = take BUF_LEN (drop (k * BUF_LEN) pool)"

lemma nth_overwrite:
  assumes "off + length bs \<le> length m" and "i < length m"
  shows "overwrite off bs m ! i = (if off \<le> i \<and> i < off + length bs then bs ! (i - off) else m ! i)"
  using assms by (auto simp: overwrite_def nth_append min_def)

lemma has_at_overwrite_apart:
  assumes "has_at m off bs" and "p + length cs \<le> length m"
    and "off + length bs \<le> p \<or> p + length cs \<le> off"
  shows "has_at (overwrite p cs m) off bs"
proof -
  have "take (length bs) (drop off (overwrite p cs m)) = take (length bs) (drop off m)"
    using has_at_le [OF assms(1)] assms(2,3) by (auto simp: nth_overwrite intro!: nth_equalityI)
  with assms show ?thesis by (simp add: has_at_def)
qed

lemma buffer_overwrite:
  assumes "j \<noteq> k" and "d + length bs \<le> BUF_LEN" and "k * BUF_LEN + BUF_LEN \<le> length pool"
  shows "buffer (overwrite (k * BUF_LEN + d) bs pool) j = buffer pool j"
proof (rule nth_equalityI)
  have fits: "k * BUF_LEN + d + length bs \<le> length pool" using assms by simp
  then show "length (buffer (overwrite (k * BUF_LEN + d) bs pool) j) = length (buffer pool j)"
    by (simp add: buffer_def)
  fix i assume "i < length (buffer (overwrite (k * BUF_LEN + d) bs pool) j)"
  with fits have i: "i < BUF_LEN" "j * BUF_LEN + i < length pool" by (auto simp: buffer_def)
  have "\<not> (k * BUF_LEN + d \<le> j * BUF_LEN + i \<and> j * BUF_LEN + i < k * BUF_LEN + d + length bs)"
  proof
    assume a: "k * BUF_LEN + d \<le> j * BUF_LEN + i \<and> j * BUF_LEN + i < k * BUF_LEN + d + length bs"
    then have "k * BUF_LEN < (j + 1) * BUF_LEN" and "j * BUF_LEN < (k + 1) * BUF_LEN"
      using i(1) assms(2) by simp_all
    then have "k < j + 1" and "j < k + 1" by (simp_all only: mult_less_cancel2)
    with assms(1) show False by simp
  qed
  then show "buffer (overwrite (k * BUF_LEN + d) bs pool) j ! i = buffer pool j ! i"
    using i fits by (auto simp: buffer_def nth_overwrite)
qed

section \<open>The invariant\<close>

interpretation txq: tx_queue "tx_wf QUEUE_SIZE" "tx_new QUEUE_SIZE" can_post next_slot
    "\<lambda>r. snd (commit_post r)" "\<lambda>cur cap r. snd (reap cur cap r)" flight 16
  using tx_queue_ring [of QUEUE_SIZE] by (simp add: QUEUE_SIZE_def)

text \<open>The regions have their sizes, the rings are rings of the queue size, and the frames in
  flight own distinct buffers.\<close>

definition vn_inv :: "virtio_net \<Rightarrow> bool" where
  "vn_inv s \<longleftrightarrow> length (ring_page s) = RING_DMA_SIZE \<and> length (txpool s) = POOL_DMA_SIZE \<and>
     length (rxpool s) = POOL_DMA_SIZE \<and> txq.owned (vn_tx s) \<and> rx_size (vn_rx s) = QUEUE_SIZE"

lemma flight_retire: "\<exists>d. flight (snd (reap cur cap r)) = drop d (flight r)"
  by (metis flight_reap)

lemma drain_tx_ok:
  assumes "vn_inv s"
  shows "\<exists>s' d. drain_tx s = Some s' \<and> vn_inv s' \<and> flight (vn_tx s') = drop d (flight (vn_tx s)) \<and>
    txpool s' = txpool s \<and> rxpool s' = rxpool s \<and> ring_page s' = ring_page s \<and> notified s' = notified s"
proof -
  obtain cur where cur: "r16 (TX_USED_OFF + 2) (ring_page s) = Some cur"
    using r16_fits [of "TX_USED_OFF + 2" "ring_page s"] assms by (auto simp: vn_inv_def geometry)
  obtain d where "flight (snd (reap cur QUEUE_SIZE (vn_tx s))) = drop d (flight (vn_tx s))"
    using flight_retire by blast
  with cur assms show ?thesis
    by (auto simp: drain_tx_def vn_inv_def txq.owned_retire)
qed

lemma post_frame_ok:
  assumes inv: "vn_inv s" and free: "can_post (vn_tx s)"
    and len: "frame \<noteq> []" "length frame \<le> MAX_FRAME"
  obtains s' k where "send frame s = Some (True, s')" and "vn_inv s'"
    and "flight (vn_tx s') = flight (vn_tx s) @ [k]" and "k \<notin> set (flight (vn_tx s))" and "k < 16"
    and "take (12 + length frame) (buffer (txpool s') k) = replicate 12 0 @ frame"
    and "\<And>j. j \<noteq> k \<Longrightarrow> buffer (txpool s') j = buffer (txpool s) j"
    and "r32 (k * 16 + 8) (ring_page s') = Some (of_nat (12 + length frame))"
    and "r16 0x102 (ring_page s') = Some (tx_avail_idx (vn_tx s'))"
    and "notified s' = notified s @ [1]"
proof -
  obtain k where k: "next_slot (vn_tx s) = Some k" "k < 16" "k \<notin> set (flight (vn_tx s))"
    using txq.owned_slot [OF _ free] inv by (auto simp: vn_inv_def)
  let ?bs = "replicate 12 0 @ frame"
  let ?pool = "overwrite (k * BUF_LEN) ?bs (txpool s)"
  let ?d = "le32 (of_nat (12 + length frame))"
  let ?t = "snd (commit_post (vn_tx s))"
  let ?page = "overwrite 0x102 (le16 (tx_avail_idx ?t)) (overwrite (k * 16 + 8) ?d (ring_page s))"
  let ?s' = "s\<lparr>txpool := ?pool, ring_page := ?page, vn_tx := ?t, notified := notified s @ [1]\<rparr>"
  have room: "k * BUF_LEN + BUF_LEN \<le> length (txpool s)" "length ?bs \<le> BUF_LEN"
    using inv k(2) len by (simp_all add: vn_inv_def geometry)
  then have fits: "k * BUF_LEN + length ?bs \<le> length (txpool s)" by simp
  have page: "length (ring_page s) = 4096" using inv by (simp add: vn_inv_def geometry)
  have pool: "w8s (k * BUF_LEN) (replicate 12 0) (txpool s) = Some (overwrite (k * BUF_LEN) (replicate 12 0) (txpool s))"
    "w8s (k * BUF_LEN + 12) frame (overwrite (k * BUF_LEN) (replicate 12 0) (txpool s)) = Some ?pool"
    using fits overwrite_overwrite [where off = "k * BUF_LEN" and s = "replicate 12 0" and t = frame and out = "txpool s"]
    by (simp_all add: w8s_fits add.assoc)
  have sent: "send frame s = Some (True, ?s')"
    using free len k(1,2) pool page
    by (simp add: send_def Let_def VIRTIO_NET_HDR_LEN_def TX_DESC_OFF_def TX_AVAIL_OFF_def NET_QUEUE_TX_def
        w32_def w16_def dma_put_def commit_post_def)
  show thesis
  proof (rule that [OF sent])
    show "vn_inv ?s'"
      using inv free fits page k(2)
      by (simp add: vn_inv_def RING_DMA_SIZE_def txq.owned_post)
    show "flight (vn_tx ?s') = flight (vn_tx s) @ [k]"
      using txq.view_post [OF _ free k(1)] inv by (simp add: vn_inv_def txq.owned_def)
    show "k \<notin> set (flight (vn_tx s))" "k < 16" by (fact k)+
    show "take (12 + length frame) (buffer (txpool ?s') k) = ?bs"
      using has_at_overwrite [OF fits] room by (simp add: has_at_def buffer_def min_absorb1)
    show "buffer (txpool ?s') j = buffer (txpool s) j" if "j \<noteq> k" for j
      using buffer_overwrite [where d = 0 and bs = ?bs and pool = "txpool s" and j = j and k = k] that room by simp
    have "has_at (overwrite (k * 16 + 8) ?d (ring_page s)) (k * 16 + 8) ?d"
      using page k(2) by (intro has_at_overwrite) simp
    then have "has_at ?page (k * 16 + 8) ?d"
      by (rule has_at_overwrite_apart) (use page k(2) in simp_all)
    then show "r32 (k * 16 + 8) (ring_page ?s') = Some (of_nat (12 + length frame))"
      by (simp add: r32_def u32_field.unpack_at del: of_nat_add)
    show "r16 0x102 (ring_page ?s') = Some (tx_avail_idx (vn_tx ?s'))"
      using has_at_overwrite [of "0x102" "le16 (tx_avail_idx ?t)" "overwrite (k * 16 + 8) ?d (ring_page s)"] page k(2)
      by (simp add: r16_def u16_field.unpack_at)
    show "notified ?s' = notified s @ [1]" by simp
  qed
qed

text \<open>C7. Sending is memory-safe and never touches a frame in flight. From any state in which
  the invariant holds, whatever the device has written to the ring page, \<open>send\<close> makes no access
  outside its regions and keeps the invariant. On success the frames in flight are those still
  outstanding and one new slot, that slot's buffer starts with the zeroed network header and the
  frame, its descriptor has their length, the available index is published and the device is
  notified, and the buffer of every other slot is unchanged; on refusal no buffer and no ring
  page byte changes and nothing is notified.\<close>

theorem send_safe:
  assumes "vn_inv s"
  shows "\<exists>b s' d. send frame s = Some (b, s') \<and> vn_inv s' \<and>
    (if b then \<exists>k. flight (vn_tx s') = drop d (flight (vn_tx s)) @ [k] \<and>
         k \<notin> set (drop d (flight (vn_tx s))) \<and> k < 16 \<and>
         take (12 + length frame) (buffer (txpool s') k) = replicate 12 0 @ frame \<and>
         (\<forall>j. j \<noteq> k \<longrightarrow> buffer (txpool s') j = buffer (txpool s) j) \<and>
         r32 (k * 16 + 8) (ring_page s') = Some (of_nat (12 + length frame)) \<and>
         r16 0x102 (ring_page s') = Some (tx_avail_idx (vn_tx s')) \<and>
         notified s' = notified s @ [1]
     else (frame = [] \<or> length frame > 1514 \<or> length (flight (vn_tx s')) = 16) \<and>
         txpool s' = txpool s \<and> ring_page s' = ring_page s \<and> notified s' = notified s)"
proof (cases "frame = [] \<or> length frame > MAX_FRAME")
  case True
  then have "send frame s = Some (False, s)" by (simp add: send_def)
  with True assms show ?thesis
    by (intro exI [of _ False] exI [of _ s]) (auto simp: geometry)
next
  case False
  obtain s1 d where s1: "vn_inv s1" "txpool s1 = txpool s" "ring_page s1 = ring_page s"
      "notified s1 = notified s" "flight (vn_tx s1) = drop d (flight (vn_tx s))"
    and again: "send frame s =
      (if \<not> can_post (vn_tx s1) then Some (False, s1) else send frame s1)"
  proof (cases "can_post (vn_tx s)")
    case True
    then show thesis using assms by (intro that [of s 0]) simp_all
  next
    case nf: False
    obtain s1 d where "drain_tx s = Some s1" "vn_inv s1" "txpool s1 = txpool s" "ring_page s1 = ring_page s"
      "notified s1 = notified s" "flight (vn_tx s1) = drop d (flight (vn_tx s))"
      using drain_tx_ok [OF assms] by blast
    with nf False show thesis by (intro that [of s1 d]) (simp_all add: send_def)
  qed
  show ?thesis
  proof (cases "can_post (vn_tx s1)")
    case True
    then obtain s' k where "send frame s1 = Some (True, s')" "vn_inv s'"
      "flight (vn_tx s') = flight (vn_tx s1) @ [k]" "k \<notin> set (flight (vn_tx s1))" "k < 16"
      "take (12 + length frame) (buffer (txpool s') k) = replicate 12 0 @ frame"
      "\<And>j. j \<noteq> k \<Longrightarrow> buffer (txpool s') j = buffer (txpool s1) j"
      "r32 (k * 16 + 8) (ring_page s') = Some (of_nat (12 + length frame))"
      "r16 0x102 (ring_page s') = Some (tx_avail_idx (vn_tx s'))" "notified s' = notified s1 @ [1]"
      using post_frame_ok [OF s1(1) True, of frame] False by (metis not_le)
    with again True s1 show ?thesis
      by (intro exI [of _ True] exI [of _ s'] exI [of _ d]) (simp del: of_nat_add)
  next
    case full: False
    have "tx_wf QUEUE_SIZE (vn_tx s1)" using s1(1) by (simp add: vn_inv_def txq.owned_def)
    with full have "length (flight (vn_tx s1)) = 16"
      by (auto simp: tx_wf_def can_post_def QUEUE_SIZE_def word_less_nat_alt)
    with again full s1 show ?thesis
      by (intro exI [of _ False] exI [of _ s1]) simp
  qed
qed

definition vn_demo :: virtio_net where
  "vn_demo = \<lparr>ring_page = replicate 4096 0, txpool = replicate 32768 0, rxpool = replicate 32768 0,
     vn_tx = tx_new QUEUE_SIZE, vn_rx = rx_new QUEUE_SIZE, notified = []\<rparr>"

lemma vn_demo_inv: "vn_inv vn_demo"
  by (simp add: vn_inv_def vn_demo_def RING_DMA_SIZE_def POOL_DMA_SIZE_def BUF_LEN_def QUEUE_SIZE_def
      rx_new_def) (use txq.owned_init in \<open>simp add: QUEUE_SIZE_def\<close>)

theorem send_safe_witness: "\<exists>b s'. send [1, 2, 3] vn_demo = Some (b, s') \<and> vn_inv s'"
  using send_safe [OF vn_demo_inv, of "[1, 2, 3]"] by blast

lemma recycle_rx_ok:
  assumes "vn_inv s"
  obtains s' a where "recycle_rx desc s = Some s'" "vn_inv s'" "a < 16"
    "r16 (0x504 + a * 2) (ring_page s') = Some (ucast desc)"
    "r16 0x502 (ring_page s') = Some (rx_avail_idx (vn_rx s'))"
    "rx_avail_idx (vn_rx s') = rx_avail_idx (vn_rx s) + 1"
    "txpool s' = txpool s" "rxpool s' = rxpool s" "vn_tx s' = vn_tx s"
proof -
  have page: "length (ring_page s) = 4096" and sz: "rx_size (vn_rx s) = 16"
    using assms by (simp_all add: vn_inv_def geometry)
  let ?a = "unat (rx_avail_idx (vn_rx s) mod 16)"
  let ?rx = "(vn_rx s)\<lparr>rx_avail_idx := rx_avail_idx (vn_rx s) + 1\<rparr>"
  let ?p = "overwrite (0x504 + ?a * 2) (le16 (ucast desc)) (ring_page s)"
  let ?page = "overwrite 0x502 (le16 (rx_avail_idx ?rx)) ?p"
  let ?s' = "s\<lparr>ring_page := ?page, vn_rx := ?rx, notified := notified s @ [NET_QUEUE_RX]\<rparr>"
  have a: "?a < 16" by (simp add: unat_mod)
  have "recycle_rx desc s = Some ?s'"
    using sz page a
    by (simp add: recycle_rx_def recycle_slot_def RX_AVAIL_OFF_def w16_def dma_put_def Let_def)
  moreover have "vn_inv ?s'"
    using assms page a by (simp add: vn_inv_def RING_DMA_SIZE_def)
  moreover have "has_at ?p (0x504 + ?a * 2) (le16 (ucast desc))"
    by (rule has_at_overwrite) (use page a in simp)
  then have "has_at ?page (0x504 + ?a * 2) (le16 (ucast desc))"
    by (rule has_at_overwrite_apart) (use page a in simp_all)
  then have "r16 (0x504 + ?a * 2) (ring_page ?s') = Some (ucast desc)"
    by (simp add: r16_def u16_field.unpack_at)
  moreover have "has_at ?page 0x502 (le16 (rx_avail_idx ?rx))"
    by (rule has_at_overwrite) (use page a in simp)
  then have "r16 0x502 (ring_page ?s') = Some (rx_avail_idx (vn_rx ?s'))"
    by (simp add: r16_def u16_field.unpack_at)
  ultimately show thesis using a by (intro that [of ?s' ?a]) simp_all
qed

lemma buffer_read:
  assumes "k < 16" and "length pool = 32768" and "n \<le> 1514"
  shows "r8s (k * 2048 + 12) n pool = Some (take n (drop 12 (buffer pool k)))"
proof -
  have "r8s (k * 2048 + 12) n pool = Some (take n (drop (k * 2048 + 12) pool))"
    by (rule r8s_fits) (use assms in simp)
  moreover have "take n (drop (k * 2048 + 12) pool) = take n (drop 12 (buffer pool k))"
    using assms by (simp add: buffer_def BUF_LEN_def drop_take add.commute)
  ultimately show ?thesis by simp
qed

text \<open>C21. Receiving is memory-safe against the device. From any state in which the invariant
  holds, whatever the device has written to the used ring and to the pool, \<open>poll_rx\<close> makes no
  access outside its regions and keeps the invariant. It either returns nothing and leaves the
  caller's buffer alone, or copies \<open>n\<close> bytes, at most a largest frame and at most what the
  caller's buffer holds, from after the network header of one buffer of the pool, leaves the
  rest of the caller's buffer, and republishes that same descriptor.\<close>

theorem poll_rx_safe:
  assumes "vn_inv s"
  shows "\<exists>res out' s'. poll_rx out s = Some (res, out', s') \<and> vn_inv s' \<and>
    txpool s' = txpool s \<and> rxpool s' = rxpool s \<and> vn_tx s' = vn_tx s \<and>
    (case res of
       None \<Rightarrow> out' = out \<and> ring_page s' = ring_page s \<and> rx_avail_idx (vn_rx s') = rx_avail_idx (vn_rx s)
     | Some n \<Rightarrow> \<exists>k a. k < 16 \<and> n \<le> 1514 \<and> n \<le> length out \<and>
         out' = take n (drop 12 (buffer (rxpool s) k)) @ drop n out \<and>
         a < 16 \<and> r16 (0x504 + a * 2) (ring_page s') = Some (of_nat k) \<and>
         r16 0x502 (ring_page s') = Some (rx_avail_idx (vn_rx s')) \<and>
         rx_avail_idx (vn_rx s') = rx_avail_idx (vn_rx s) + 1)"
proof -
  have page: "length (ring_page s) = 4096" and sz: "rx_size (vn_rx s) = 16" and
    pool: "length (rxpool s) = 32768"
    using assms by (simp_all add: vn_inv_def geometry)
  obtain cur where cur: "r16 0x602 (ring_page s) = Some cur"
    using r16_fits [of "0x602" "ring_page s"] page by auto
  show ?thesis
  proof (cases "has_used (vn_rx s) cur")
    case False
    then have "poll_rx out s = Some (None, out, s)"
      using cur by (simp add: poll_rx_def RX_USED_OFF_def has_used_def take_used_def)
    with assms show ?thesis by simp
  next
    case used: True
    let ?u = "unat (rx_seen_used (vn_rx s) mod 16)"
    let ?rx = "(vn_rx s)\<lparr>rx_seen_used := rx_seen_used (vn_rx s) + 1\<rparr>"
    have u: "?u < 16" by (simp add: unat_mod)
    have take: "take_used cur (vn_rx s) = Some (Some ?u, ?rx)"
      using used sz by (simp add: take_used_def has_used_def)
    obtain desc raw where desc: "r32 (0x604 + ?u * 8) (ring_page s) = Some desc"
        "r32 (0x604 + ?u * 8 + 4) (ring_page s) = Some raw"
      using r32_fits [of "0x604 + ?u * 8" "ring_page s"]
        r32_fits [of "0x604 + ?u * 8 + 4" "ring_page s"] u page by auto
    show ?thesis
    proof (cases "unat desc < 16")
      case False
      then have "poll_rx out s = Some (None, out, s\<lparr>vn_rx := ?rx\<rparr>)"
        using cur take desc by (simp add: poll_rx_def RX_USED_OFF_def QUEUE_SIZE_def)
      with assms show ?thesis by (simp add: vn_inv_def)
    next
      case True
      let ?s = "s\<lparr>vn_rx := ?rx\<rparr>"
      let ?n = "min (min (unat raw) 1526 - 12) (length out)"
      have inv: "vn_inv ?s" using assms by (simp add: vn_inv_def)
      have bytes: "r8s (unat desc * 2048 + 12) ?n (rxpool s)
          = Some (take ?n (drop 12 (buffer (rxpool s) (unat desc))))"
        using buffer_read [OF True, of "rxpool s" ?n] pool by simp
      obtain s' a where s': "recycle_rx desc ?s = Some s'" "vn_inv s'" "a < 16"
        "r16 (0x504 + a * 2) (ring_page s') = Some (ucast desc)"
        "r16 0x502 (ring_page s') = Some (rx_avail_idx (vn_rx s'))"
        "rx_avail_idx (vn_rx s') = rx_avail_idx (vn_rx ?s) + 1"
        "txpool s' = txpool ?s" "rxpool s' = rxpool ?s" "vn_tx s' = vn_tx ?s"
        by (rule recycle_rx_ok [OF inv, of desc])
      have "poll_rx out s
          = Some (Some ?n, take ?n (drop 12 (buffer (rxpool s) (unat desc))) @ drop ?n out, s')"
        using cur take desc True bytes s'(1)
        by (simp add: poll_rx_def Let_def RX_USED_OFF_def QUEUE_SIZE_def BUF_LEN_def MAX_FRAME_def MTU_def
            VIRTIO_NET_HDR_LEN_def not_le)
      moreover have "of_nat (unat desc) = (ucast desc :: u16)" by simp
      moreover from this have "\<exists>k a. k < 16 \<and> ?n \<le> 1514 \<and> ?n \<le> length out \<and>
          take ?n (drop 12 (buffer (rxpool s) (unat desc))) @ drop ?n out
            = take ?n (drop 12 (buffer (rxpool s) k)) @ drop ?n out \<and>
          a < 16 \<and> r16 (0x504 + a * 2) (ring_page s') = Some (of_nat k)"
        using s' True by (intro exI [of _ "unat desc"] exI [of _ a]) auto
      ultimately show ?thesis using s' by simp
    qed
  qed
qed

theorem poll_rx_safe_witness: "\<exists>res out' s'. poll_rx [0, 0] vn_demo = Some (res, out', s') \<and> vn_inv s'"
  using poll_rx_safe [OF vn_demo_inv, of "[0, 0]"] by blast

end
