(* ===== verification/Heap_Reservations.thy ===== *)
theory Heap_Reservations
  imports Thyla_Base
begin

text \<open>
  The policy of the native heap, \<open>usr/lib/thyla-heap/src/lib.rs\<close>: the reservations dlmalloc's
  segments are carved from, and the direct mappings large blocks get.

  The kernel calls are the parameter \<open>backend\<close>, a record of functions over the kernel's state
  with a view of the mapped addresses; what its trait documents of them is the predicate
  \<open>backend_ok\<close>. dlmalloc is a third-party crate and a parameter of the dispatch functions.
  Addresses and lengths are \<^typ>\<open>nat\<close>; every plain \<open>+\<close> and \<open>-\<close> of the source is the checked
  operation, with \<open>None\<close> for the panic, so that the theorems say that none occurs. The array
  \<open>live\<close> with its count \<open>n\<close> is the list \<open>live[..n]\<close>; the rest of the array is never read.
\<close>

section \<open>Constants and the backend\<close>

definition PAGE :: nat where "PAGE = 4096"
definition DIRECT_MIN :: nat where "DIRECT_MIN = 256 * 1024"
definition RESERVATION_LEN :: nat where "RESERVATION_LEN = 256 * 2 ^ 20"
definition RESERVATION_DOUBLINGS :: nat where "RESERVATION_DOUBLINGS = 17"
definition RESERVATIONS_MAX :: nat where "RESERVATIONS_MAX = 64"

record 'k backend =
  be_reserve :: "nat \<Rightarrow> nat \<Rightarrow> 'k \<Rightarrow> nat option \<times> 'k"
  be_decommit :: "nat \<Rightarrow> nat \<Rightarrow> 'k \<Rightarrow> bool \<times> 'k"
  be_detach :: "nat \<Rightarrow> nat \<Rightarrow> 'k \<Rightarrow> bool \<times> 'k"
  be_mapped :: "'k \<Rightarrow> nat set"

definition VA_TOP :: nat where "VA_TOP = 2 ^ 47"

text \<open>What the trait says of the calls: a reservation is a fresh, aligned, page-granular range
  of the address space; decommitting keeps the range, detaching removes it; a refusal changes
  nothing.\<close>

definition backend_ok :: "'k backend \<Rightarrow> bool" where
  "backend_ok be \<longleftrightarrow>
     (\<forall>len al k va k'. be_reserve be len al k = (Some va, k') \<longrightarrow> 0 < len \<longrightarrow> PAGE dvd len \<longrightarrow>
        0 < va \<and> PAGE dvd va \<and> 2 ^ al dvd va \<and> va + len \<le> VA_TOP \<and>
        {va..<va + len} \<inter> be_mapped be k = {} \<and>
        be_mapped be k' = be_mapped be k \<union> {va..<va + len}) \<and>
     (\<forall>len al k k'. be_reserve be len al k = (None, k') \<longrightarrow> k' = k) \<and>
     (\<forall>va len k k'. be_decommit be va len k = (True, k') \<longrightarrow> be_mapped be k' = be_mapped be k) \<and>
     (\<forall>va len k k'. be_decommit be va len k = (False, k') \<longrightarrow> k' = k) \<and>
     (\<forall>va len k k'. be_detach be va len k = (True, k') \<longrightarrow>
        be_mapped be k' = be_mapped be k - {va..<va + len}) \<and>
     (\<forall>va len k k'. be_detach be va len k = (False, k') \<longrightarrow> k' = k)"

section \<open>Page arithmetic\<close>

definition page_round :: "nat \<Rightarrow> nat option" where
  "page_round sz =
     map_option (\<lambda>s. unat ((of_nat s :: u64) AND NOT (of_nat (PAGE - 1)))) (checked_add sz (PAGE - 1))"

definition is_direct :: "nat \<Rightarrow> nat \<Rightarrow> bool" where
  "is_direct sz align \<longleftrightarrow> sz \<ge> DIRECT_MIN \<or> align \<ge> DIRECT_MIN"

section \<open>The table of reservations\<close>

record reservation =
  rs_base :: nat
  rs_len :: nat
  rs_bump :: nat

text \<open>\<open>Reservations<B>\<close> with its table, the kernel's state and the memory the heap's blocks
  are in.\<close>

record 'k reservations =
  rv_backend :: "'k backend"
  first_len :: nat
  live :: "reservation list"
  carved :: nat
  direct :: nat
  peak :: nat
  kern :: 'k
  mem :: "nat \<Rightarrow> u8"

definition reservations_new :: "'k backend \<Rightarrow> nat \<Rightarrow> 'k \<Rightarrow> (nat \<Rightarrow> u8) \<Rightarrow> 'k reservations" where
  "reservations_new be fl k m =
     \<lparr>rv_backend = be, first_len = fl, live = [], carved = 0, direct = 0, peak = 0, kern = k, mem = m\<rparr>"

definition zero_range :: "nat \<Rightarrow> nat \<Rightarrow> (nat \<Rightarrow> u8) \<Rightarrow> nat \<Rightarrow> u8" where
  "zero_range va len m = (\<lambda>a. if va \<le> a \<and> a < va + len then 0 else m a)"

text \<open>The three calls on the state: fresh and decommitted pages read as zero.\<close>

definition reserve :: "nat \<Rightarrow> nat \<Rightarrow> 'k reservations \<Rightarrow> nat option \<times> 'k reservations" where
  "reserve len al s =
     (case be_reserve (rv_backend s) len al (kern s) of
        (None, k) \<Rightarrow> (None, s\<lparr>kern := k\<rparr>)
      | (Some va, k) \<Rightarrow> (Some va, s\<lparr>kern := k, mem := zero_range va len (mem s)\<rparr>))"

definition decommit :: "nat \<Rightarrow> nat \<Rightarrow> 'k reservations \<Rightarrow> bool \<times> 'k reservations" where
  "decommit va len s =
     (case be_decommit (rv_backend s) va len (kern s) of
        (False, k) \<Rightarrow> (False, s\<lparr>kern := k\<rparr>)
      | (True, k) \<Rightarrow> (True, s\<lparr>kern := k, mem := zero_range va len (mem s)\<rparr>))"

definition detach :: "nat \<Rightarrow> nat \<Rightarrow> 'k reservations \<Rightarrow> bool \<times> 'k reservations" where
  "detach va len s =
     (case be_detach (rv_backend s) va len (kern s) of (b, k) \<Rightarrow> (b, s\<lparr>kern := k\<rparr>))"

definition grew :: "'k reservations \<Rightarrow> 'k reservations option" where
  "grew s = do { f \<leftarrow> checked_add (carved s) (direct s); Some (s\<lparr>peak := max (peak s) f\<rparr>) }"

definition footprint :: "'k reservations \<Rightarrow> nat option" where
  "footprint s = checked_add (carved s) (direct s)"

definition reset_peak :: "'k reservations \<Rightarrow> 'k reservations option" where
  "reset_peak s = do { f \<leftarrow> checked_add (carved s) (direct s); Some (s\<lparr>peak := f\<rparr>) }"

definition add_direct :: "nat \<Rightarrow> 'k reservations \<Rightarrow> (bool \<times> 'k reservations) option" where
  "add_direct len s =
     (case Option.bind (checked_add (carved s) (direct s)) (\<lambda>f. checked_add f len) of
        Some f \<Rightarrow>
          if f \<le> isize_max
          then do {
            d \<leftarrow> checked_add (direct s) len;
            s \<leftarrow> grew (s\<lparr>direct := d\<rparr>);
            Some (True, s)
          }
          else Some (False, s)
      | None \<Rightarrow> Some (False, s))"

definition sub_direct :: "nat \<Rightarrow> 'k reservations \<Rightarrow> 'k reservations option" where
  "sub_direct len s = do { d \<leftarrow> checked_sub (direct s) len; Some (s\<lparr>direct := d\<rparr>) }"

lemma half_less:
  assumes "least < len"
  shows "max (len div 2 div PAGE * PAGE) least < len"
proof -
  have "len div 2 div PAGE * PAGE \<le> len div 2" by (rule div_times_less_eq_dividend)
  with assms have "len div 2 div PAGE * PAGE < len" by linarith
  with assms show ?thesis by simp
qed

text \<open>The loop of \<open>carve\<close> that asks for \<open>len\<close>, and on a refusal for half of it, down to
  \<open>least\<close>. It ends because a length above \<open>least\<close> strictly decreases.\<close>

function reserve_loop :: "nat \<Rightarrow> nat \<Rightarrow> 'k reservations \<Rightarrow> (nat \<times> nat) option \<times> 'k reservations" where
  "reserve_loop least len s =
     (case reserve len 0 s of
        (Some base, s) \<Rightarrow> (Some (base, len), s)
      | (None, s) \<Rightarrow>
          if len = least then (None, s)
          else reserve_loop least (max (len div 2 div PAGE * PAGE) least) s)"
  by auto

termination
proof (relation "measure (\<lambda>(least, len, _). if len < least then 1 else len - least)", goal_cases)
  case (2 least len s x y)
  then have "len \<noteq> least" by simp
  moreover have "len div 2 div PAGE * PAGE \<le> len"
    using div_times_less_eq_dividend [of "len div 2" PAGE] by linarith
  ultimately show ?case
    using half_less [of least len] by (auto simp: max_def split: if_splits)
qed simp

declare reserve_loop.simps [simp del]

definition push_reservation :: "nat \<Rightarrow> nat \<Rightarrow> nat \<Rightarrow> 'k reservations \<Rightarrow> 'k reservations option" where
  "push_reservation base len sz s = do {
     b \<leftarrow> checked_add base sz;
     c \<leftarrow> checked_add (carved s) sz;
     grew (s\<lparr>live := live s @ [\<lparr>rs_base = base, rs_len = len, rs_bump = b\<rparr>], carved := c\<rparr>)
   }"

text \<open>\<open>carve\<close>: the outer option is the panic, the inner one the \<open>Option\<close> the source returns.
  \<open>carve_latest\<close> is its first half, the carve at the bump of the latest reservation.\<close>

definition carve_latest :: "nat \<Rightarrow> 'k reservations \<Rightarrow> ((nat \<times> 'k reservations) option) option" where
  "carve_latest sz s =
     (if live s = [] then Some None
      else do {
        let latest = length (live s) - 1;
        let r = live s ! latest;
        e \<leftarrow> checked_add (rs_base r) (rs_len r);
        room \<leftarrow> checked_sub e (rs_bump r);
        if room > sz then do {
          b \<leftarrow> checked_add (rs_bump r) sz;
          c \<leftarrow> checked_add (carved s) sz;
          s \<leftarrow> grew (s\<lparr>live := (live s)[latest := r\<lparr>rs_bump := b\<rparr>], carved := c\<rparr>);
          Some (Some (rs_bump r, s))
        } else Some None
      })"

definition carve :: "nat \<Rightarrow> 'k reservations \<Rightarrow> (nat option \<times> 'k reservations) option" where
  "carve sz s =
     (if sz = 0 \<or> \<not> PAGE dvd sz then Some (None, s)
      else do {
        at_bump \<leftarrow> carve_latest sz s;
        case at_bump of
          Some (va, s) \<Rightarrow> Some (Some va, s)
        | None \<Rightarrow>
            if length (live s) = RESERVATIONS_MAX then Some (None, s)
            else
              (case checked_add sz PAGE of
                 None \<Rightarrow> Some (None, s)
               | Some least \<Rightarrow>
                   (case checked_mul (first_len s) (2 ^ min (length (live s)) RESERVATION_DOUBLINGS) of
                      None \<Rightarrow> Some (None, s)
                    | Some len \<Rightarrow>
                        (case reserve_loop least (max len least) s of
                           (None, s) \<Rightarrow> Some (None, s)
                         | (Some (base, len), s) \<Rightarrow> do {
                             s \<leftarrow> push_reservation base len sz s;
                             Some (Some base, s)
                           })))
      })"

definition shrink :: "nat \<Rightarrow> nat \<Rightarrow> nat \<Rightarrow> 'k reservations \<Rightarrow> (bool \<times> 'k reservations) option" where
  "shrink ptr old new s =
     (if live s = [] then Some (False, s)
      else do {
        let latest = length (live s) - 1;
        let r = live s ! latest;
        seg \<leftarrow> checked_sub (rs_bump r) (rs_base r);
        if ptr \<noteq> rs_base r \<or> seg \<noteq> old \<or> new > old \<or> \<not> PAGE dvd (old - new) then Some (False, s)
        else if new = old then Some (True, s)
        else do {
          va \<leftarrow> checked_add ptr new;
          case decommit va (old - new) s of
            (False, s) \<Rightarrow> Some (False, s)
          | (True, s) \<Rightarrow> do {
              c \<leftarrow> checked_sub (carved s) (old - new);
              Some (True, s\<lparr>live := (live s)[latest := r\<lparr>rs_bump := va\<rparr>], carved := c\<rparr>)
            }
        }
      })"

definition release :: "nat \<Rightarrow> nat \<Rightarrow> 'k reservations \<Rightarrow> (bool \<times> 'k reservations) option" where
  "release ptr sz s =
     (case position (\<lambda>r. rs_base r = ptr) (live s) of
        None \<Rightarrow> Some (False, s)
      | Some i \<Rightarrow> do {
          let r = live s ! i;
          seg \<leftarrow> checked_sub (rs_bump r) (rs_base r);
          if seg \<noteq> sz then Some (False, s)
          else
            (case detach (rs_base r) (rs_len r) s of
               (False, s) \<Rightarrow> Some (False, s)
             | (True, s) \<Rightarrow> do {
                 c \<leftarrow> checked_sub (carved s) sz;
                 Some (True, s\<lparr>live := take i (live s) @ drop (i + 1) (live s), carved := c\<rparr>)
               })
        })"

section \<open>The heap\<close>

text \<open>The direct blocks. A null pointer is 0.\<close>

definition trailing_zeros :: "nat \<Rightarrow> nat" where
  "trailing_zeros a = length (takeWhile (\<lambda>i. \<not> bit a i) [0..<64])"

definition direct_alloc :: "nat \<Rightarrow> nat \<Rightarrow> 'k reservations \<Rightarrow> (nat \<times> 'k reservations) option" where
  "direct_alloc sz align s =
     (case page_round sz of
        None \<Rightarrow> Some (0, s)
      | Some len \<Rightarrow> do {
          let al = (if align > PAGE then trailing_zeros align else 0);
          (counted, s) \<leftarrow> add_direct len s;
          if \<not> counted then Some (0, s)
          else
            (case reserve len al s of
               (Some va, s) \<Rightarrow> Some (va, s)
             | (None, s) \<Rightarrow> do { s \<leftarrow> sub_direct len s; Some (0, s) })
        })"

definition direct_free :: "nat \<Rightarrow> nat \<Rightarrow> 'k reservations \<Rightarrow> 'k reservations option" where
  "direct_free p sz s =
     (let len = (case page_round sz of Some len \<Rightarrow> len | None \<Rightarrow> 0)
      in case detach p len s of
           (True, s) \<Rightarrow> sub_direct len s
         | (False, s) \<Rightarrow> Some s)"

definition copy_mem :: "nat \<Rightarrow> nat \<Rightarrow> nat \<Rightarrow> (nat \<Rightarrow> u8) \<Rightarrow> nat \<Rightarrow> u8" where
  "copy_mem p q n m = (\<lambda>a. if q \<le> a \<and> a < q + n then m (p + (a - q)) else m a)"

definition direct_realloc ::
    "nat \<Rightarrow> nat \<Rightarrow> nat \<Rightarrow> nat \<Rightarrow> 'k reservations \<Rightarrow> (nat \<times> 'k reservations) option" where
  "direct_realloc p old align new s =
     (let old_len = (case page_round old of Some len \<Rightarrow> len | None \<Rightarrow> 0)
      in case page_round new of
           None \<Rightarrow> Some (0, s)
         | Some new_len \<Rightarrow>
             if new_len = old_len then Some (p, s)
             else do {
               (shrunk, s) \<leftarrow>
                 (if new_len < old_len
                  then do { va \<leftarrow> checked_add p new_len; Some (detach va (old_len - new_len) s) }
                  else Some (False, s));
               if shrunk
               then do { s \<leftarrow> sub_direct (old_len - new_len) s; Some (p, s) }
               else do {
                 (q, s) \<leftarrow> direct_alloc new align s;
                 if q = 0 then Some (q, s)
                 else do {
                   s \<leftarrow> direct_free p old (s\<lparr>mem := copy_mem p q (min old new) (mem s)\<rparr>);
                   Some (q, s)
                 }
               }
             })"

text \<open>The dispatch of \<open>GlobalAlloc\<close>. dlmalloc is the parameter \<open>dlmalloc\<close>: its entry points on its
  own state and the reservations it was given.\<close>

record ('d, 'k) dlmalloc =
  dl_malloc :: "nat \<Rightarrow> nat \<Rightarrow> 'd \<times> 'k reservations \<Rightarrow> (nat \<times> 'd \<times> 'k reservations) option"
  dl_calloc :: "nat \<Rightarrow> nat \<Rightarrow> 'd \<times> 'k reservations \<Rightarrow> (nat \<times> 'd \<times> 'k reservations) option"
  dl_free :: "nat \<Rightarrow> nat \<Rightarrow> nat \<Rightarrow> 'd \<times> 'k reservations \<Rightarrow> ('d \<times> 'k reservations) option"
  dl_realloc :: "nat \<Rightarrow> nat \<Rightarrow> nat \<Rightarrow> nat \<Rightarrow> 'd \<times> 'k reservations \<Rightarrow> (nat \<times> 'd \<times> 'k reservations) option"

definition heap_alloc where
  "heap_alloc dl sz align h =
     (if is_direct sz align
      then do { (p, s) \<leftarrow> direct_alloc sz align (snd h); Some (p, fst h, s) }
      else dl_malloc dl sz align h)"

definition heap_alloc_zeroed where
  "heap_alloc_zeroed dl sz align h =
     (if is_direct sz align
      then do { (p, s) \<leftarrow> direct_alloc sz align (snd h); Some (p, fst h, s) }
      else dl_calloc dl sz align h)"

definition heap_dealloc where
  "heap_dealloc dl p sz align h =
     (if is_direct sz align
      then do { s \<leftarrow> direct_free p sz (snd h); Some (fst h, s) }
      else dl_free dl p sz align h)"

definition heap_realloc where
  "heap_realloc dl p sz align new h =
     (case (is_direct sz align, is_direct new align) of
        (False, False) \<Rightarrow> dl_realloc dl p sz align new h
      | (True, True) \<Rightarrow> do { (q, s) \<leftarrow> direct_realloc p sz align new (snd h); Some (q, fst h, s) }
      | _ \<Rightarrow> do {
          (q, h) \<leftarrow> heap_alloc dl new align h;
          if q = 0 then Some (q, h)
          else do {
            let h = (fst h, (snd h)\<lparr>mem := copy_mem p q (min sz new) (mem (snd h))\<rparr>);
            h \<leftarrow> heap_dealloc dl p sz align h;
            Some (q, h)
          }
        })"

section \<open>The invariant\<close>

abbreviation rs_range :: "reservation \<Rightarrow> nat set" where
  "rs_range r \<equiv> {rs_base r..<rs_base r + rs_len r}"

text \<open>A reservation is page-granular, below the top of the address space, and never full.\<close>

definition rs_ok :: "reservation \<Rightarrow> bool" where
  "rs_ok r \<longleftrightarrow> 0 < rs_base r \<and> PAGE dvd rs_base r \<and> PAGE dvd rs_len r \<and> PAGE dvd rs_bump r \<and>
     rs_base r \<le> rs_bump r \<and> rs_bump r < rs_base r + rs_len r \<and> rs_base r + rs_len r \<le> VA_TOP"

definition held :: "reservation list \<Rightarrow> nat" where
  "held rs = sum_list (map (\<lambda>r. rs_bump r - rs_base r) rs)"

definition apart :: "reservation \<Rightarrow> reservation \<Rightarrow> bool" where
  "apart r r' \<longleftrightarrow> rs_base r + rs_len r \<le> rs_base r' \<or> rs_base r' + rs_len r' \<le> rs_base r"

definition live_ok :: "nat set \<Rightarrow> reservation list \<Rightarrow> bool" where
  "live_ok M rs \<longleftrightarrow> list_all rs_ok rs \<and> sorted_wrt apart rs \<and> (\<forall>r \<in> set rs. rs_range r \<subseteq> M)"

definition mapped :: "'k reservations \<Rightarrow> nat set" where
  "mapped s = be_mapped (rv_backend s) (kern s)"

text \<open>The part of a reservation above its bump reads as zero.\<close>

definition zero_tails :: "(nat \<Rightarrow> u8) \<Rightarrow> reservation list \<Rightarrow> bool" where
  "zero_tails m rs \<longleftrightarrow> (\<forall>r \<in> set rs. \<forall>a. rs_bump r \<le> a \<longrightarrow> a < rs_base r + rs_len r \<longrightarrow> m a = 0)"

definition rv_inv :: "'k reservations \<Rightarrow> bool" where
  "rv_inv s \<longleftrightarrow> backend_ok (rv_backend s) \<and> PAGE dvd first_len s \<and>
     length (live s) \<le> RESERVATIONS_MAX \<and> live_ok (mapped s) (live s) \<and>
     zero_tails (mem s) (live s) \<and> carved s = held (live s) \<and> direct s \<le> isize_max \<and>
     carved s + direct s \<le> peak s \<and> peak s \<le> isize_max + VA_TOP"

lemma apart_disjoint: "rs_ok r \<Longrightarrow> rs_ok r' \<Longrightarrow> apart r r' \<longleftrightarrow> rs_range r \<inter> rs_range r' = {}"
  by (auto simp: apart_def rs_ok_def disjoint_iff)

text \<open>Disjoint ranges below the top add up to at most the top, so the count of carved bytes
  cannot overflow.\<close>

lemma held_card:
  "list_all rs_ok rs \<Longrightarrow> sorted_wrt apart rs \<Longrightarrow> held rs \<le> card (\<Union> (rs_range ` set rs))"
proof (induction rs)
  case (Cons r rs)
  have "rs_range r \<inter> (\<Union> (rs_range ` set rs)) = {}"
    using Cons.prems by (auto simp: list_all_iff apart_def)
  then have "card (\<Union> (rs_range ` set (r # rs))) = rs_len r + card (\<Union> (rs_range ` set rs))"
    by (simp add: card_Un_disjoint)
  moreover have "rs_bump r - rs_base r \<le> rs_len r"
    using Cons.prems by (auto simp: rs_ok_def)
  ultimately show ?case using Cons by (simp add: held_def)
qed (simp add: held_def)

lemma held_le_top:
  assumes "live_ok M rs"
  shows "held rs \<le> VA_TOP"
proof -
  have "\<Union> (rs_range ` set rs) \<subseteq> {..<VA_TOP}"
    using assms by (fastforce simp: live_ok_def list_all_iff rs_ok_def)
  then have "card (\<Union> (rs_range ` set rs)) \<le> VA_TOP"
    using card_mono [of "{..<VA_TOP}"] by simp
  with assms held_card [of rs] show ?thesis by (simp add: live_ok_def)
qed

lemma held_append [simp]: "held (xs @ ys) = held xs + held ys"
  by (simp add: held_def)

lemma held_single [simp]: "held [r] = rs_bump r - rs_base r"
  by (simp add: held_def)

lemma live_ok_append:
  "live_ok M (xs @ ys) \<longleftrightarrow> live_ok M xs \<and> live_ok M ys \<and> (\<forall>x \<in> set xs. \<forall>y \<in> set ys. apart x y)"
  by (auto simp: live_ok_def sorted_wrt_append)

lemma live_ok_single [simp]: "live_ok M [r] \<longleftrightarrow> rs_ok r \<and> rs_range r \<subseteq> M"
  by (simp add: live_ok_def)

lemma live_ok_mono: "live_ok M rs \<Longrightarrow> M \<subseteq> M' \<Longrightarrow> live_ok M' rs"
  by (auto simp: live_ok_def)

lemma apart_bump [simp]: "apart (r\<lparr>rs_bump := b\<rparr>) r' = apart r r'" "apart r (r'\<lparr>rs_bump := b\<rparr>) = apart r r'"
  by (simp_all add: apart_def)

lemma limits: "isize_max + VA_TOP < usize_limit" "isize_max < usize_limit" "VA_TOP < usize_limit"
  by (simp_all add: isize_max_def VA_TOP_def usize_limit_def)

lemma PAGE_pos [simp]: "0 < PAGE" by (simp add: PAGE_def)

section \<open>What the calls guarantee\<close>

lemma backend_okD:
  assumes "backend_ok be"
  shows "be_reserve be len al k = (Some va, k') \<Longrightarrow> 0 < len \<Longrightarrow> PAGE dvd len \<Longrightarrow>
        0 < va \<and> PAGE dvd va \<and> 2 ^ al dvd va \<and> va + len \<le> VA_TOP \<and>
        {va..<va + len} \<inter> be_mapped be k = {} \<and>
        be_mapped be k' = be_mapped be k \<union> {va..<va + len}"
    and "be_reserve be len al k = (None, k') \<Longrightarrow> k' = k"
    and "be_decommit be va len k = (True, k') \<Longrightarrow> be_mapped be k' = be_mapped be k"
    and "be_decommit be va len k = (False, k') \<Longrightarrow> k' = k"
    and "be_detach be va len k = (True, k') \<Longrightarrow> be_mapped be k' = be_mapped be k - {va..<va + len}"
    and "be_detach be va len k = (False, k') \<Longrightarrow> k' = k"
proof -
  note ok = assms [unfolded backend_ok_def]
  note ok2 = conjunct2 [OF ok] and ok3 = conjunct2 [OF conjunct2 [OF ok]]
  note ok5 = conjunct2 [OF conjunct2 [OF ok3]]
  show "be_reserve be len al k = (Some va, k') \<Longrightarrow> 0 < len \<Longrightarrow> PAGE dvd len \<Longrightarrow>
        0 < va \<and> PAGE dvd va \<and> 2 ^ al dvd va \<and> va + len \<le> VA_TOP \<and>
        {va..<va + len} \<inter> be_mapped be k = {} \<and>
        be_mapped be k' = be_mapped be k \<union> {va..<va + len}"
    using conjunct1 [OF ok] by blast
  show "be_reserve be len al k = (None, k') \<Longrightarrow> k' = k" using conjunct1 [OF ok2] by blast
  show "be_decommit be va len k = (True, k') \<Longrightarrow> be_mapped be k' = be_mapped be k"
    using conjunct1 [OF ok3] by blast
  show "be_decommit be va len k = (False, k') \<Longrightarrow> k' = k"
    using conjunct1 [OF conjunct2 [OF ok3]] by blast
  show "be_detach be va len k = (True, k') \<Longrightarrow> be_mapped be k' = be_mapped be k - {va..<va + len}"
    using conjunct1 [OF ok5] by blast
  show "be_detach be va len k = (False, k') \<Longrightarrow> k' = k" using conjunct2 [OF ok5] by blast
qed

lemma reserve_cases:
  assumes "backend_ok (rv_backend s)" and "0 < len" and "PAGE dvd len"
  obtains (refused) "reserve len al s = (None, s)"
  | (granted) va k where "reserve len al s = (Some va, s\<lparr>kern := k, mem := zero_range va len (mem s)\<rparr>)"
      "0 < va" "PAGE dvd va" "2 ^ al dvd va" "va + len \<le> VA_TOP"
      "{va..<va + len} \<inter> mapped s = {}"
      "be_mapped (rv_backend s) k = mapped s \<union> {va..<va + len}"
proof (cases "be_reserve (rv_backend s) len al (kern s)")
  case (Pair r k)
  show thesis
  proof (cases r)
    case None
    with Pair have "be_reserve (rv_backend s) len al (kern s) = (None, k)" by simp
    then have "k = kern s" by (rule backend_okD(2) [OF assms(1)])
    with None Pair show thesis by (intro refused) (simp add: reserve_def)
  next
    case (Some va)
    then have "0 < va \<and> PAGE dvd va \<and> 2 ^ al dvd va \<and> va + len \<le> VA_TOP \<and>
        {va..<va + len} \<inter> mapped s = {} \<and> be_mapped (rv_backend s) k = mapped s \<union> {va..<va + len}"
      unfolding mapped_def by (intro backend_okD(1) [OF assms(1) _ assms(2,3)]) (simp add: Pair)
    with Some Pair show thesis by (intro granted [of va k]) (simp_all add: reserve_def)
  qed
qed

lemma decommit_cases:
  assumes "backend_ok (rv_backend s)"
  obtains (refused) "decommit va len s = (False, s)"
  | (granted) k where "decommit va len s = (True, s\<lparr>kern := k, mem := zero_range va len (mem s)\<rparr>)"
      "be_mapped (rv_backend s) k = mapped s"
proof (cases "be_decommit (rv_backend s) va len (kern s)")
  case (Pair b k)
  show thesis
  proof (cases b)
    case False
    then have "k = kern s" by (intro backend_okD(4) [OF assms, of va len]) (simp add: Pair)
    with False Pair show thesis by (intro refused) (simp add: decommit_def)
  next
    case True
    then have "be_mapped (rv_backend s) k = mapped s"
      unfolding mapped_def by (intro backend_okD(3) [OF assms, of va len]) (simp add: Pair)
    with True Pair show thesis by (intro granted [of k]) (simp_all add: decommit_def)
  qed
qed

lemma detach_cases:
  assumes "backend_ok (rv_backend s)"
  obtains (refused) "detach va len s = (False, s)"
  | (granted) k where "detach va len s = (True, s\<lparr>kern := k\<rparr>)"
      "be_mapped (rv_backend s) k = mapped s - {va..<va + len}"
proof (cases "be_detach (rv_backend s) va len (kern s)")
  case (Pair b k)
  show thesis
  proof (cases b)
    case False
    then have "k = kern s" by (intro backend_okD(6) [OF assms, of va len]) (simp add: Pair)
    with False Pair show thesis by (intro refused) (simp add: detach_def)
  next
    case True
    then have "be_mapped (rv_backend s) k = mapped s - {va..<va + len}"
      unfolding mapped_def by (intro backend_okD(5) [OF assms, of va len]) (simp add: Pair)
    with True Pair show thesis by (intro granted [of k]) (simp_all add: detach_def)
  qed
qed

lemma reserve_loop_cases:
  assumes "backend_ok (rv_backend s)" and "0 < least" and "PAGE dvd least"
    and "least \<le> len" and "PAGE dvd len"
  shows "reserve_loop least len s = (None, s) \<or>
    (\<exists>va n k. reserve_loop least len s = (Some (va, n), s\<lparr>kern := k, mem := zero_range va n (mem s)\<rparr>) \<and>
      least \<le> n \<and> PAGE dvd n \<and> 0 < va \<and> PAGE dvd va \<and> va + n \<le> VA_TOP \<and>
      {va..<va + n} \<inter> mapped s = {} \<and> be_mapped (rv_backend s) k = mapped s \<union> {va..<va + n})"
    (is "?P len")
  using assms(4,5)
proof (induction len rule: less_induct)
  case (less len)
  have "0 < len" using less.prems assms(2) by simp
  from assms(1) this less.prems(2) show ?case
  proof (cases rule: reserve_cases [of s len 0])
    case refused
    show ?thesis
    proof (cases "len = least")
      case True
      have "reserve_loop least len s = (None, s)"
        using refused True by (subst reserve_loop.simps) simp
      then show ?thesis ..
    next
      case False
      let ?len = "max (len div 2 div PAGE * PAGE) least"
      have run: "reserve_loop least len s = reserve_loop least ?len s"
        using refused False by (subst reserve_loop.simps) simp
      have "?len < len" using False less.prems(1) by (intro half_less) simp
      moreover have "PAGE dvd ?len" using assms(3) by (simp add: max_def)
      ultimately have "?P ?len" by (intro less.IH) simp_all
      then show ?thesis unfolding run .
    qed
  next
    case (granted va k)
    have "reserve_loop least len s = (Some (va, len), s\<lparr>kern := k, mem := zero_range va len (mem s)\<rparr>)"
      using granted(1) by (subst reserve_loop.simps) simp
    then show ?thesis
      using granted(2-) less.prems by (intro disjI2 exI [of _ va] exI [of _ len] exI [of _ k]) simp
  qed
qed

section \<open>The operations on the table\<close>

lemma zero_tails_zero_range: "zero_tails m rs \<Longrightarrow> zero_tails (zero_range va n m) rs"
  by (auto simp: zero_tails_def zero_range_def)

lemma zero_tails_append: "zero_tails m (xs @ ys) \<longleftrightarrow> zero_tails m xs \<and> zero_tails m ys"
  by (auto simp: zero_tails_def)

text \<open>Replacing the table: the counters follow, and the footprint stays far from the end of
  the range of \<open>usize\<close>.\<close>

lemma rv_inv_replace:
  assumes "rv_inv s" and "live_ok (be_mapped (rv_backend s) k) rs" and "zero_tails m rs"
    and "length rs \<le> RESERVATIONS_MAX"
  shows "\<exists>t. grew (s\<lparr>live := rs, carved := held rs, kern := k, mem := m\<rparr>) = Some t \<and> rv_inv t \<and>
      t = s\<lparr>live := rs, carved := held rs, kern := k, mem := m, peak := max (peak s) (held rs + direct s)\<rparr>"
    and "held rs \<le> carved s \<Longrightarrow> rv_inv (s\<lparr>live := rs, carved := held rs, kern := k, mem := m\<rparr>)"
proof -
  have "held rs + direct s \<le> isize_max + VA_TOP"
    using held_le_top [OF assms(2)] assms(1) by (simp add: rv_inv_def)
  then show "\<exists>t. grew (s\<lparr>live := rs, carved := held rs, kern := k, mem := m\<rparr>) = Some t \<and> rv_inv t \<and>
      t = s\<lparr>live := rs, carved := held rs, kern := k, mem := m, peak := max (peak s) (held rs + direct s)\<rparr>"
    using assms limits(1) by (simp add: grew_def checked_add_def rv_inv_def mapped_def)
  show "held rs \<le> carved s \<Longrightarrow> rv_inv (s\<lparr>live := rs, carved := held rs, kern := k, mem := m\<rparr>)"
    using assms by (simp add: rv_inv_def mapped_def)
qed

lemma rv_inv_last:
  assumes "rv_inv s" and "live s = xs @ [r]"
  shows "rs_ok r" "carved s = held xs + (rs_bump r - rs_base r)"
    "rs_base r + rs_len r < usize_limit" "rs_bump r < rs_base r + rs_len r" "rs_base r \<le> rs_bump r"
  using assms limits(3) by (auto simp: rv_inv_def live_ok_append rs_ok_def)

lemma carved_small: "rv_inv s \<Longrightarrow> carved s \<le> VA_TOP"
  by (auto simp: rv_inv_def intro: held_le_top)

lemma carve_latest_cases:
  assumes inv: "rv_inv s" and sz: "PAGE dvd sz" "sz \<noteq> 0"
  shows "carve_latest sz s = Some None \<or>
    (\<exists>xs r t. live s = xs @ [r] \<and> carve_latest sz s = Some (Some (rs_bump r, t)) \<and> rv_inv t \<and>
      t = s\<lparr>live := xs @ [r\<lparr>rs_bump := rs_bump r + sz\<rparr>], carved := carved s + sz,
            peak := max (peak s) (carved s + sz + direct s)\<rparr>)"
proof (cases "live s" rule: rev_cases)
  case Nil
  then show ?thesis by (simp add: carve_latest_def)
next
  case (snoc xs r)
  note last = rv_inv_last [OF inv snoc]
  show ?thesis
  proof (cases "rs_base r + rs_len r - rs_bump r > sz")
    case False
    then show ?thesis using snoc last by (simp add: carve_latest_def checked_add_def checked_sub_def)
  next
    case room: True
    let ?r = "r\<lparr>rs_bump := rs_bump r + sz\<rparr>"
    let ?rs = "xs @ [?r]"
    have "live_ok (mapped s) ?rs" "zero_tails (mem s) ?rs" "length ?rs \<le> RESERVATIONS_MAX"
      using inv snoc room last(1) sz
      by (auto simp: rv_inv_def live_ok_append rs_ok_def zero_tails_append zero_tails_def)
    moreover have held: "held ?rs = carved s + sz" using last by simp
    ultimately obtain t where t: "grew (s\<lparr>live := ?rs, carved := carved s + sz\<rparr>) = Some t" "rv_inv t"
      "t = s\<lparr>live := ?rs, carved := carved s + sz, peak := max (peak s) (carved s + sz + direct s)\<rparr>"
      using rv_inv_replace(1) [OF inv, of "kern s" ?rs "mem s"] by (auto simp: mapped_def)
    have "rs_bump r + sz < usize_limit" using room last by linarith
    moreover have "carved s + sz < usize_limit"
      using held_le_top [of "mapped s" ?rs] \<open>live_ok (mapped s) ?rs\<close> held limits(3) by simp
    ultimately have "carve_latest sz s = Some (Some (rs_bump r, t))"
      using snoc last room t(1) by (simp add: carve_latest_def checked_add_def checked_sub_def)
    with snoc t show ?thesis by blast
  qed
qed

lemma fresh_reservation:
  assumes inv: "rv_inv s" and sz: "PAGE dvd sz" "sz \<noteq> 0" and n: "sz + PAGE \<le> n" "PAGE dvd n"
    and va: "0 < va" "PAGE dvd va" "va + n \<le> VA_TOP" "{va..<va + n} \<inter> mapped s = {}"
    and k: "be_mapped (rv_backend s) k = mapped s \<union> {va..<va + n}"
    and room: "length (live s) \<noteq> RESERVATIONS_MAX"
  defines "rs \<equiv> live s @ [\<lparr>rs_base = va, rs_len = n, rs_bump = va + sz\<rparr>]"
  shows "\<exists>t. push_reservation va n sz (s\<lparr>kern := k, mem := zero_range va n (mem s)\<rparr>) = Some t \<and> rv_inv t \<and>
    t = s\<lparr>live := rs, carved := carved s + sz, kern := k, mem := zero_range va n (mem s),
          peak := max (peak s) (carved s + sz + direct s)\<rparr>"
proof -
  let ?m = "zero_range va n (mem s)" and ?r = "\<lparr>rs_base = va, rs_len = n, rs_bump = va + sz\<rparr>"
  have "0 < n - sz" using n(1) PAGE_pos by linarith
  then have ok: "rs_ok ?r" using sz n va by (simp add: rs_ok_def)
  have "apart r ?r" if "r \<in> set (live s)" for r
  proof -
    have "rs_ok r" "rs_range r \<subseteq> mapped s" using inv that by (auto simp: rv_inv_def live_ok_def list_all_iff)
    moreover from this(2) va(4) have "rs_range r \<inter> {va..<va + n} = {}" by blast
    ultimately show ?thesis using apart_disjoint [OF _ ok, of r] by simp
  qed
  moreover have "live_ok (mapped s \<union> {va..<va + n}) (live s)"
    using inv by (auto simp: rv_inv_def intro: live_ok_mono)
  ultimately have live: "live_ok (be_mapped (rv_backend s) k) rs"
    using ok k by (simp add: rs_def live_ok_append)
  have tails: "zero_tails ?m rs"
    using inv by (simp add: rs_def rv_inv_def zero_tails_append zero_tails_zero_range)
      (simp add: zero_tails_def zero_range_def)
  have held: "held rs = carved s + sz" using inv by (simp add: rs_def rv_inv_def)
  have "length rs \<le> RESERVATIONS_MAX" using inv room by (simp add: rs_def rv_inv_def)
  from rv_inv_replace(1) [OF inv live tails this] held
  obtain t where t: "grew (s\<lparr>live := rs, carved := carved s + sz, kern := k, mem := ?m\<rparr>) = Some t" "rv_inv t"
    "t = s\<lparr>live := rs, carved := carved s + sz, kern := k, mem := ?m,
           peak := max (peak s) (carved s + sz + direct s)\<rparr>"
    by auto
  have "va + sz < usize_limit" "carved s + sz < usize_limit"
    using n(1) va(3) held_le_top [OF live] held limits(3) by linarith+
  moreover have "grew (s\<lparr>kern := k, mem := ?m, live := rs, carved := carved s + sz\<rparr>)
      = grew (s\<lparr>live := rs, carved := carved s + sz, kern := k, mem := ?m\<rparr>)"
    by (rule arg_cong [where f = grew]) simp
  ultimately have "push_reservation va n sz (s\<lparr>kern := k, mem := ?m\<rparr>) = Some t"
    using t(1) by (simp add: push_reservation_def checked_add_def rs_def [symmetric])
  with t show ?thesis by blast
qed

lemma carve_cases:
  assumes inv: "rv_inv s"
  obtains (none) "carve sz s = Some (None, s)"
  | (extend) xs r t where "live s = xs @ [r]" "carve sz s = Some (Some (rs_bump r), t)" "rv_inv t"
      "PAGE dvd sz" "0 < sz"
      "t = s\<lparr>live := xs @ [r\<lparr>rs_bump := rs_bump r + sz\<rparr>], carved := carved s + sz,
             peak := max (peak s) (carved s + sz + direct s)\<rparr>"
  | (fresh) va n k t where "carve sz s = Some (Some va, t)" "rv_inv t" "PAGE dvd sz" "0 < sz"
      "t = s\<lparr>live := live s @ [\<lparr>rs_base = va, rs_len = n, rs_bump = va + sz\<rparr>], carved := carved s + sz,
             kern := k, mem := zero_range va n (mem s), peak := max (peak s) (carved s + sz + direct s)\<rparr>"
      "{va..<va + n} \<inter> mapped s = {}" "sz < n" "be_mapped (rv_backend s) k = mapped s \<union> {va..<va + n}"
proof (cases "sz = 0 \<or> \<not> PAGE dvd sz")
  case True
  then show thesis by (intro none) (simp add: carve_def)
next
  case False
  then have sz: "PAGE dvd sz" "sz \<noteq> 0" by simp_all
  from carve_latest_cases [OF inv sz] show thesis
  proof (elim disjE exE conjE)
    fix xs r t
    assume "live s = xs @ [r]" "carve_latest sz s = Some (Some (rs_bump r, t))" "rv_inv t"
      "t = s\<lparr>live := xs @ [r\<lparr>rs_bump := rs_bump r + sz\<rparr>], carved := carved s + sz,
             peak := max (peak s) (carved s + sz + direct s)\<rparr>"
    then show thesis using sz by (intro extend [of xs r t]) (simp_all add: carve_def)
  next
    assume latest: "carve_latest sz s = Some None"
    show thesis
    proof (cases "length (live s) = RESERVATIONS_MAX \<or> checked_add sz PAGE = None \<or>
        checked_mul (first_len s) (2 ^ min (length (live s)) RESERVATION_DOUBLINGS) = None")
      case True
      then show thesis using latest sz
        by (intro none) (auto simp: carve_def checked_add_def checked_mul_def split: if_splits)
    next
      case False
      then obtain len where len: "checked_add sz PAGE = Some (sz + PAGE)"
          "checked_mul (first_len s) (2 ^ min (length (live s)) RESERVATION_DOUBLINGS) = Some len"
          "PAGE dvd len" and room: "length (live s) \<noteq> RESERVATIONS_MAX"
        using inv by (auto simp: rv_inv_def)
      have "PAGE dvd max len (sz + PAGE)" using len(3) sz by (simp add: max_def)
      with inv sz have "reserve_loop (sz + PAGE) (max len (sz + PAGE)) s = (None, s) \<or>
        (\<exists>va n k. reserve_loop (sz + PAGE) (max len (sz + PAGE)) s
            = (Some (va, n), s\<lparr>kern := k, mem := zero_range va n (mem s)\<rparr>) \<and>
          sz + PAGE \<le> n \<and> PAGE dvd n \<and> 0 < va \<and> PAGE dvd va \<and> va + n \<le> VA_TOP \<and>
          {va..<va + n} \<inter> mapped s = {} \<and> be_mapped (rv_backend s) k = mapped s \<union> {va..<va + n})"
        by (intro reserve_loop_cases) (simp_all add: rv_inv_def)
      then show thesis
      proof (elim disjE exE conjE)
        assume "reserve_loop (sz + PAGE) (max len (sz + PAGE)) s = (None, s)"
        then show thesis using latest sz room len
          by (intro none) (simp add: carve_def checked_add_def checked_mul_def)
      next
        fix va n k
        assume loop: "reserve_loop (sz + PAGE) (max len (sz + PAGE)) s
            = (Some (va, n), s\<lparr>kern := k, mem := zero_range va n (mem s)\<rparr>)"
          and n: "sz + PAGE \<le> n" "PAGE dvd n" and va: "0 < va" "PAGE dvd va" "va + n \<le> VA_TOP"
            "{va..<va + n} \<inter> mapped s = {}" and k: "be_mapped (rv_backend s) k = mapped s \<union> {va..<va + n}"
        from fresh_reservation [OF inv sz n va k room] obtain t where t:
          "push_reservation va n sz (s\<lparr>kern := k, mem := zero_range va n (mem s)\<rparr>) = Some t" "rv_inv t"
          "t = s\<lparr>live := live s @ [\<lparr>rs_base = va, rs_len = n, rs_bump = va + sz\<rparr>], carved := carved s + sz,
             kern := k, mem := zero_range va n (mem s), peak := max (peak s) (carved s + sz + direct s)\<rparr>"
          by blast
        have "sz < n" using n(1) PAGE_pos by linarith
        moreover have "carve sz s = Some (Some va, t)"
          using latest sz room len loop t(1)
          by (simp add: carve_def checked_add_def checked_mul_def)
        ultimately show thesis using t sz va k by (intro fresh [of va t n k]) simp_all
      qed
    qed
  qed
qed

lemma shrink_cases:
  assumes inv: "rv_inv s"
  obtains (refused) "shrink p old new s = Some (False, s)"
  | (same) "shrink p old new s = Some (True, s)" "new = old"
  | (shrunk) xs r k t where "live s = xs @ [r]" "rs_base r = p" "rs_bump r = p + old" "new < old"
      "shrink p old new s = Some (True, t)" "rv_inv t"
      "t = s\<lparr>live := xs @ [r\<lparr>rs_bump := p + new\<rparr>], carved := carved s - (old - new), kern := k,
             mem := zero_range (p + new) (old - new) (mem s)\<rparr>"
      "be_mapped (rv_backend s) k = mapped s"
proof (cases "live s" rule: rev_cases)
  case Nil
  then show thesis by (intro refused) (simp add: shrink_def)
next
  case (snoc xs r)
  note last = rv_inv_last [OF inv snoc]
  show thesis
  proof (cases "p \<noteq> rs_base r \<or> rs_bump r - rs_base r \<noteq> old \<or> new > old \<or> \<not> PAGE dvd (old - new)")
    case True
    then show thesis using snoc last by (intro refused) (simp add: shrink_def checked_sub_def)
  next
    case False
    then have p: "rs_base r = p" "rs_bump r = p + old" and new: "new \<le> old" "PAGE dvd old - new"
      using last by auto
    show thesis
    proof (cases "new = old")
      case True
      then show thesis using False snoc last by (intro same) (simp_all add: shrink_def checked_sub_def)
    next
      case ne: False
      have va: "p + new < usize_limit" using last p new by linarith
      from inv have "backend_ok (rv_backend s)" by (simp add: rv_inv_def)
      then show thesis
      proof (cases rule: decommit_cases [of s "p + new" "old - new"])
        case refused
        then show thesis
          using that(1) False ne snoc last va p by (simp add: shrink_def checked_sub_def checked_add_def)
      next
        case (granted k)
        let ?r = "r\<lparr>rs_bump := p + new\<rparr>" and ?m = "zero_range (p + new) (old - new) (mem s)"
        let ?rs = "xs @ [?r]"
        have "PAGE dvd p + new"
        proof -
          have "p + new = rs_bump r - (old - new)" using p new by simp
          moreover have "PAGE dvd rs_bump r" using last(1) by (simp add: rs_ok_def)
          ultimately show ?thesis using new(2) by (simp add: dvd_diff_nat)
        qed
        then have "rs_ok ?r" using last(1) p new by (simp add: rs_ok_def)
        then have live: "live_ok (be_mapped (rv_backend s) k) ?rs"
          using inv snoc granted(2) by (simp add: rv_inv_def live_ok_append)
        have tails: "zero_tails ?m ?rs"
          using inv snoc p by (auto simp: rv_inv_def zero_tails_append zero_tails_zero_range)
            (auto simp: zero_tails_def zero_range_def)
        have held: "held ?rs = carved s - (old - new)" using last p new by simp
        have "rv_inv (s\<lparr>live := ?rs, carved := carved s - (old - new), kern := k, mem := ?m\<rparr>)"
          using rv_inv_replace(2) [OF inv live tails] inv snoc held by (simp add: rv_inv_def)
        moreover have "old - new \<le> carved s" using last p new by simp
        ultimately show thesis
          using granted False ne snoc last va p new
          by (intro shrunk [of xs r]) (simp_all add: shrink_def checked_sub_def checked_add_def)
      qed
    qed
  qed
qed

lemma live_ok_detach:
  assumes "live_ok M (xs @ r # ys)"
  shows "live_ok (M - rs_range r) (xs @ ys)"
proof -
  have "rs_range x \<subseteq> M - rs_range r" if "x \<in> set (xs @ ys)" for x
  proof -
    have "apart x r \<or> apart r x" "rs_ok x" "rs_ok r" "rs_range x \<subseteq> M"
      using assms that by (auto simp: live_ok_def sorted_wrt_append list_all_iff)
    then have "rs_range x \<inter> rs_range r = {}"
      using apart_disjoint [of x r] apart_disjoint [of r x] by blast
    with \<open>rs_range x \<subseteq> M\<close> show ?thesis by blast
  qed
  with assms show ?thesis by (auto simp: live_ok_def sorted_wrt_append)
qed

lemma release_cases:
  assumes inv: "rv_inv s"
  obtains (refused) "release p sz s = Some (False, s)"
  | (released) xs r ys k t where "live s = xs @ r # ys" "rs_base r = p" "rs_bump r = p + sz"
      "release p sz s = Some (True, t)" "rv_inv t"
      "be_mapped (rv_backend s) k = mapped s - rs_range r"
      "t = s\<lparr>live := xs @ ys, carved := carved s - sz, kern := k\<rparr>"
proof (cases "position (\<lambda>r. rs_base r = p) (live s)")
  case None
  then show thesis by (intro refused) (simp add: release_def)
next
  case (Some i)
  define r xs ys where "r = live s ! i" and "xs = take i (live s)" and "ys = drop (i + 1) (live s)"
  have split: "live s = xs @ r # ys" and p: "rs_base r = p"
    using position_Some [OF Some] by (simp_all add: r_def xs_def ys_def)
  have r: "rs_ok r" using inv split by (auto simp: rv_inv_def live_ok_def)
  show thesis
  proof (cases "rs_bump r - rs_base r = sz")
    case False
    then show thesis using Some r
      by (intro refused) (auto simp: release_def r_def rs_ok_def checked_sub_def)
  next
    case seg: True
    then have bump: "rs_bump r = p + sz" using r p by (auto simp: rs_ok_def)
    from inv have "backend_ok (rv_backend s)" by (simp add: rv_inv_def)
    then show thesis
    proof (cases rule: detach_cases [of s "rs_base r" "rs_len r"])
      case refused
      then show thesis using that(1) Some r seg
        by (auto simp: release_def r_def rs_ok_def checked_sub_def)
    next
      case (granted k)
      have "live_ok (be_mapped (rv_backend s) k) (xs @ ys)"
        using inv split granted(2) live_ok_detach [of "mapped s" xs r ys] by (simp add: rv_inv_def)
      moreover have "zero_tails (mem s) (xs @ ys)"
        using inv split by (simp add: rv_inv_def zero_tails_def)
      moreover have "held (xs @ ys) = carved s - sz" "sz \<le> carved s"
        using inv split seg by (simp_all add: rv_inv_def held_def)
      moreover have "length (xs @ ys) \<le> RESERVATIONS_MAX"
        using inv split by (simp add: rv_inv_def)
      ultimately have "rv_inv (s\<lparr>live := xs @ ys, carved := carved s - sz, kern := k\<rparr>)"
        using rv_inv_replace(2) [OF inv, of k "xs @ ys" "mem s"] by simp
      moreover have "release p sz s = Some (True, s\<lparr>live := xs @ ys, carved := carved s - sz, kern := k\<rparr>)"
        using granted(1) Some r seg \<open>sz \<le> carved s\<close>
        by (auto simp: release_def r_def xs_def ys_def rs_ok_def checked_sub_def)
      ultimately show thesis using split p bump granted(2) by (intro released [of xs r ys]) simp_all
    qed
  qed
qed

section \<open>The contract with dlmalloc\<close>

text \<open>
  What dlmalloc is promised by its platform: the calls do not fail abruptly, an allocation
  extends the newest segment or adds one, a trim shortens the newest segment, a release removes
  one segment, a refusal changes no segment, and no segment ends where another begins, so that
  two are never taken for one.
\<close>

type_synonym segment = "nat \<times> nat"

locale segment_source =
  fixes inv :: "'s \<Rightarrow> bool"
    and segs :: "'s \<Rightarrow> segment list"
    and alloc :: "nat \<Rightarrow> 's \<Rightarrow> (nat option \<times> 's) option"
    and free_part :: "nat \<Rightarrow> nat \<Rightarrow> nat \<Rightarrow> 's \<Rightarrow> (bool \<times> 's) option"
    and free :: "nat \<Rightarrow> nat \<Rightarrow> 's \<Rightarrow> (bool \<times> 's) option"
  assumes segs_apart: "inv s \<Longrightarrow> sorted_wrt (\<lambda>(b, n) (b', n'). b + n < b' \<or> b' + n' < b) (segs s)"
    and alloc_law: "inv s \<Longrightarrow> \<exists>r t. alloc n s = Some (r, t) \<and> inv t \<and>
      (case r of
         None \<Rightarrow> segs t = segs s
       | Some va \<Rightarrow> 0 < n \<and> (segs t = segs s @ [(va, n)] \<or>
           (\<exists>xs b m. segs s = xs @ [(b, m)] \<and> va = b + m \<and> segs t = xs @ [(b, m + n)])))"
    and free_part_law: "inv s \<Longrightarrow> \<exists>r t. free_part p old new s = Some (r, t) \<and> inv t \<and>
      (if r \<and> new \<noteq> old
       then new < old \<and> (\<exists>xs. segs s = xs @ [(p, old)] \<and> segs t = xs @ [(p, new)])
       else segs t = segs s)"
    and free_law: "inv s \<Longrightarrow> \<exists>r t. free p n s = Some (r, t) \<and> inv t \<and>
      (if r then \<exists>xs ys. segs s = xs @ (p, n) # ys \<and> segs t = xs @ ys else segs t = segs s)"
begin

definition total :: "'s \<Rightarrow> nat" where
  "total s = sum_list (map snd (segs s))"

lemma alloc_total:
  "inv s \<Longrightarrow> alloc n s = Some (r, t) \<Longrightarrow> total t = total s + (case r of None \<Rightarrow> 0 | Some _ \<Rightarrow> n)"
  using alloc_law [of s n] by (auto simp: total_def split: option.splits)

lemma free_total: "inv s \<Longrightarrow> free p n s = Some (r, t) \<Longrightarrow> total s = total t + (if r then n else 0)"
  using free_law [of s p n] by (auto simp: total_def split: if_splits)

text \<open>The bytes an allocation returns belong to no segment before it.\<close>

lemma alloc_fresh:
  assumes "inv s" and "alloc n s = Some (Some va, t)" and "(b, m) \<in> set (segs s)"
  shows "va + n \<le> b \<or> b + m \<le> va"
proof -
  from assms(1,2) have inv: "inv t" and grown: "segs t = segs s @ [(va, n)] \<or>
      (\<exists>xs b m. segs s = xs @ [(b, m)] \<and> va = b + m \<and> segs t = xs @ [(b, m + n)])"
    using alloc_law [of s n] by auto
  note apart = segs_apart [OF inv]
  from grown show ?thesis
  proof (elim disjE exE conjE)
    assume "segs t = segs s @ [(va, n)]"
    with apart assms(3) show ?thesis by (auto simp: sorted_wrt_append)
  next
    fix xs b' m'
    assume "segs s = xs @ [(b', m')]" "va = b' + m'" "segs t = xs @ [(b', m' + n)]"
    with apart assms(3) show ?thesis by (auto simp: sorted_wrt_append)
  qed
qed

end

definition segments :: "'k reservations \<Rightarrow> segment list" where
  "segments s = map (\<lambda>r. (rs_base r, rs_bump r - rs_base r)) (live s)"

lemma segments_apart:
  assumes "rv_inv s"
  shows "sorted_wrt (\<lambda>(b, n) (b', n'). b + n < b' \<or> b' + n' < b) (segments s)"
  unfolding segments_def sorted_wrt_map
proof (rule sorted_wrt_mono_rel [of "live s" apart])
  show "sorted_wrt apart (live s)" using assms by (simp add: rv_inv_def live_ok_def)
  fix r r' assume "r \<in> set (live s)" "r' \<in> set (live s)" and apart: "apart r r'"
  then have "rs_ok r" "rs_ok r'" using assms by (simp_all add: rv_inv_def live_ok_def list_all_iff)
  with apart show "(\<lambda>(b, n) (b', n'). b + n < b' \<or> b' + n' < b)
      (rs_base r, rs_bump r - rs_base r) (rs_base r', rs_bump r' - rs_base r')"
    by (auto simp: rs_ok_def apart_def)
qed

interpretation hs: segment_source rv_inv segments carve shrink release
proof
  fix s :: "'k reservations" assume inv: "rv_inv s"
  show "sorted_wrt (\<lambda>(b, n) (b', n'). b + n < b' \<or> b' + n' < b) (segments s)"
    by (rule segments_apart [OF inv])
  fix n p old new
  show "\<exists>r t. carve n s = Some (r, t) \<and> rv_inv t \<and>
      (case r of None \<Rightarrow> segments t = segments s
       | Some va \<Rightarrow> 0 < n \<and> (segments t = segments s @ [(va, n)] \<or>
           (\<exists>xs b m. segments s = xs @ [(b, m)] \<and> va = b + m \<and> segments t = xs @ [(b, m + n)])))"
    using inv
  proof (cases rule: carve_cases [of s n])
    case (extend xs r t)
    have "rs_base r \<le> rs_bump r" using rv_inv_last [OF inv extend(1)] by simp
    with extend show ?thesis by (intro exI [of _ "Some (rs_bump r)"] exI [of _ t]) (simp add: segments_def)
  qed (use inv in \<open>simp_all add: segments_def\<close>)
  show "\<exists>r t. shrink p old new s = Some (r, t) \<and> rv_inv t \<and>
      (if r \<and> new \<noteq> old then new < old \<and> (\<exists>xs. segments s = xs @ [(p, old)] \<and> segments t = xs @ [(p, new)])
       else segments t = segments s)"
    using inv by (cases rule: shrink_cases [of s p old new]) (use inv in \<open>auto simp: segments_def\<close>)
  show "\<exists>r t. release p n s = Some (r, t) \<and> rv_inv t \<and>
      (if r then \<exists>xs ys. segments s = xs @ (p, n) # ys \<and> segments t = xs @ ys else segments t = segments s)"
    using inv
  proof (cases rule: release_cases [of s p n])
    case (released xs r ys k t)
    then have "segments s = map (\<lambda>r. (rs_base r, rs_bump r - rs_base r)) xs @ (p, n)
        # map (\<lambda>r. (rs_base r, rs_bump r - rs_base r)) ys"
      by (simp add: segments_def)
    with released show ?thesis by (auto simp: segments_def)
  qed (use inv in auto)
qed

section \<open>Direct blocks\<close>

lemma page_round_eq:
  "page_round sz = (if sz + 4095 < usize_limit then Some ((sz + 4095) div 4096 * 4096) else None)"
proof -
  have "unat ((of_nat s :: u64) AND NOT (of_nat (PAGE - 1))) = s div 4096 * 4096" if "s < usize_limit" for s
  proof -
    have "(of_nat (PAGE - 1) :: u64) = mask 12" by (simp add: PAGE_def mask_eq_exp_minus_1)
    moreover have "unat (of_nat s :: u64) = s"
      using that by (simp add: usize_limit_def unat_of_nat take_bit_eq_mod)
    ultimately show ?thesis by (simp add: unat_and_not_mask)
  qed
  from this [of "sz + (PAGE - 1)"] show ?thesis
    by (simp add: page_round_def checked_add_def del: of_nat_add) (simp add: PAGE_def)
qed

lemma page_round_Some:
  assumes "page_round sz = Some len"
  shows "sz \<le> len" "len < sz + PAGE" "PAGE dvd len" "0 < sz \<Longrightarrow> 0 < len" "len < usize_limit"
proof -
  have len: "len = (sz + 4095) div 4096 * 4096" and lim: "sz + 4095 < usize_limit"
    using assms by (auto simp: page_round_eq split: if_splits)
  have "(sz + 4095) div 4096 * 4096 + (sz + 4095) mod 4096 = sz + 4095" by simp
  moreover have "(sz + 4095) mod 4096 < 4096" by simp
  ultimately show "sz \<le> len" "len < sz + PAGE" "len < usize_limit"
    unfolding len PAGE_def using lim by linarith+
  then show "0 < sz \<Longrightarrow> 0 < len" by simp
  show "PAGE dvd len" by (simp add: len PAGE_def)
qed

lemma trailing_zeros_power: "k < 64 \<Longrightarrow> trailing_zeros (2 ^ k) = k"
proof -
  assume "k < 64"
  have "takeWhile (\<lambda>i. \<not> bit (2 ^ k :: nat) i) [0..<64] = [0..<k]"
  proof -
    have "[0..<64] = [0..<k] @ k # [Suc k..<64]"
      using \<open>k < 64\<close> upt_add_eq_append [of 0 k "64 - k"] by (simp add: upt_conv_Cons)
    moreover have "\<forall>i \<in> set [0..<k]. \<not> bit (2 ^ k :: nat) i" by (auto simp: bit_exp_iff)
    ultimately show ?thesis by (simp add: takeWhile_append bit_exp_iff)
  qed
  then show ?thesis by (simp add: trailing_zeros_def)
qed

lemma aligned_power:
  assumes "PAGE dvd va" and "2 ^ k > PAGE \<Longrightarrow> 2 ^ trailing_zeros (2 ^ k) dvd va" and "k < 64"
  shows "2 ^ k dvd va"
proof (cases "2 ^ k > PAGE")
  case True
  then show ?thesis using assms(2,3) by (simp add: trailing_zeros_power)
next
  case False
  then have "k \<le> 12"
    using power_strict_increasing_iff [of "2 :: nat" 12 k] by (simp add: PAGE_def not_less)
  then have "2 ^ k dvd PAGE" using le_imp_power_dvd [of k 12 "2 :: nat"] by (simp add: PAGE_def)
  then show ?thesis using assms(1) by (rule dvd_trans)
qed

lemma add_direct_cases:
  assumes inv: "rv_inv s"
  obtains (refused) "add_direct len s = Some (False, s)"
  | (counted) t where "add_direct len s = Some (True, t)" "rv_inv t"
      "t = s\<lparr>direct := direct s + len, peak := max (peak s) (carved s + direct s + len)\<rparr>"
proof (cases "carved s + direct s + len \<le> isize_max")
  case True
  then have "carved s + direct s < usize_limit" "carved s + direct s + len < usize_limit"
    "direct s + len < usize_limit" "carved s + (direct s + len) < usize_limit"
    using limits(2) by linarith+
  then have "add_direct len s =
      Some (True, s\<lparr>direct := direct s + len, peak := max (peak s) (carved s + direct s + len)\<rparr>)"
    using True by (simp add: add_direct_def grew_def checked_add_def add.assoc)
  moreover have "rv_inv (s\<lparr>direct := direct s + len, peak := max (peak s) (carved s + direct s + len)\<rparr>)"
    using inv True by (simp add: rv_inv_def mapped_def)
  ultimately show thesis by (intro counted) simp_all
next
  case False
  then show thesis
    by (intro refused) (auto simp: add_direct_def checked_add_def split: option.splits)
qed

lemma rv_inv_kern:
  assumes "rv_inv s" and "mapped s \<subseteq> be_mapped (rv_backend s) k" and "zero_tails m (live s)"
  shows "rv_inv (s\<lparr>kern := k, mem := m\<rparr>)"
  using assms by (auto simp: rv_inv_def mapped_def intro: live_ok_mono)

lemma direct_alloc_cases:
  assumes inv: "rv_inv s" and sz: "0 < sz"
  obtains (refused) t where "direct_alloc sz align s = Some (0, t)" "rv_inv t"
      "live t = live s" "carved t = carved s" "direct t = direct s" "kern t = kern s" "mem t = mem s"
      "rv_backend t = rv_backend s"
  | (granted) va len k t where "direct_alloc sz align s = Some (va, t)" "rv_inv t" "page_round sz = Some len"
      "0 < va" "PAGE dvd va" "align > PAGE \<Longrightarrow> 2 ^ trailing_zeros align dvd va" "va + len \<le> VA_TOP"
      "{va..<va + len} \<inter> mapped s = {}" "mapped t = mapped s \<union> {va..<va + len}"
      "t = s\<lparr>direct := direct s + len, peak := max (peak s) (carved s + direct s + len), kern := k,
             mem := zero_range va len (mem s)\<rparr>"
proof (cases "page_round sz")
  case None
  then show thesis using inv by (intro refused [of s]) (simp_all add: direct_alloc_def)
next
  case (Some len)
  note len = page_round_Some [OF Some]
  let ?al = "if align > PAGE then trailing_zeros align else 0"
  from inv show thesis
  proof (cases rule: add_direct_cases [of s len])
    case r: refused
    then show thesis using inv Some by (intro refused [of s]) (simp_all add: direct_alloc_def)
  next
    case (counted t)
    then have ok: "backend_ok (rv_backend t)" and m: "mapped t = mapped s"
      by (simp_all add: rv_inv_def mapped_def)
    from ok len(4) [OF sz] len(3) show thesis
    proof (cases rule: reserve_cases [of t len ?al])
      case r: refused
      have "direct_alloc sz align s = Some (0, s\<lparr>peak := peak t\<rparr>)"
        using Some counted r by (simp add: direct_alloc_def sub_direct_def checked_sub_def Let_def)
      moreover have "rv_inv (s\<lparr>peak := peak t\<rparr>)"
        using inv counted(2,3) by (simp add: rv_inv_def mapped_def)
      ultimately show thesis by (intro that(1) [of "s\<lparr>peak := peak t\<rparr>"]) simp_all
    next
      case (granted va k)
      let ?t = "t\<lparr>kern := k, mem := zero_range va len (mem t)\<rparr>"
      have "rv_inv ?t"
        using counted(2) granted(7)
        by (intro rv_inv_kern) (auto simp: rv_inv_def intro: zero_tails_zero_range)
      moreover have "direct_alloc sz align s = Some (va, ?t)"
        using Some counted(1) granted(1) by (simp add: direct_alloc_def Let_def)
      ultimately show thesis
        using granted Some m counted(3)
        by (intro that(2) [of va ?t len k]) (auto simp: mapped_def)
    qed
  qed
qed

text \<open>A direct block of the caller: its pages are mapped, counted, and apart from every
  reservation.\<close>

definition direct_block :: "'k reservations \<Rightarrow> nat \<Rightarrow> nat \<Rightarrow> bool" where
  "direct_block s p sz \<longleftrightarrow> (case page_round sz of None \<Rightarrow> False | Some len \<Rightarrow>
     0 < p \<and> p + len \<le> VA_TOP \<and> len \<le> direct s \<and> {p..<p + len} \<subseteq> mapped s \<and>
     (\<forall>r \<in> set (live s). rs_range r \<inter> {p..<p + len} = {}))"

lemma rv_inv_unmap:
  assumes "rv_inv s" and "be_mapped (rv_backend s) k = mapped s - A"
    and "\<forall>r \<in> set (live s). rs_range r \<inter> A = {}" and "n \<le> direct s"
  shows "rv_inv (s\<lparr>kern := k, direct := direct s - n\<rparr>)"
proof -
  have "rs_range r \<subseteq> mapped s - A" if "r \<in> set (live s)" for r
    using assms(1,3) that by (auto simp: rv_inv_def live_ok_def)
  then have "live_ok (mapped s - A) (live s)"
    using assms(1) by (simp add: rv_inv_def live_ok_def)
  with assms show ?thesis by (auto simp: rv_inv_def mapped_def)
qed

lemma detach_tail:
  assumes inv: "rv_inv s" and apart: "\<forall>r \<in> set (live s). rs_range r \<inter> {va..<va + n} = {}"
    and n: "n \<le> direct s"
  obtains (refused) "detach va n s = (False, s)"
  | (granted) t u where "detach va n s = (True, t)" "sub_direct n t = Some u" "rv_inv u"
      "mem u = mem s" "live u = live s" "carved u = carved s" "direct u = direct s - n"
      "mapped u = mapped s - {va..<va + n}" "rv_backend u = rv_backend s" "peak u = peak s"
proof -
  have "backend_ok (rv_backend s)" using inv by (simp add: rv_inv_def)
  then show thesis
  proof (cases rule: detach_cases [of s va n])
    case r: refused
    then show thesis by (intro that(1))
  next
    case (granted k)
    let ?u = "s\<lparr>kern := k, direct := direct s - n\<rparr>"
    have "rv_inv ?u" using rv_inv_unmap [OF inv granted(2) apart n] .
    moreover have "sub_direct n (s\<lparr>kern := k\<rparr>) = Some ?u"
      using n by (simp add: sub_direct_def checked_sub_def)
    ultimately show thesis using granted by (intro that(2) [of _ ?u]) (simp_all add: mapped_def)
  qed
qed

text \<open>A kernel that refuses no detach of a range it is asked to give up.\<close>

definition detaches :: "'k backend \<Rightarrow> bool" where
  "detaches be \<longleftrightarrow> (\<forall>va len k. fst (be_detach be va len k))"

lemma detach_refused: "detach va n s = (False, t) \<Longrightarrow> \<not> detaches (rv_backend s)"
  by (auto simp: detach_def detaches_def split: prod.splits)
    (metis fst_conv)

lemma direct_free_cases:
  assumes inv: "rv_inv s" and blk: "direct_block s p sz" and len: "page_round sz = Some len"
  obtains (refused) "direct_free p sz s = Some s" "\<not> detaches (rv_backend s)"
  | (freed) t where "direct_free p sz s = Some t" "rv_inv t" "mem t = mem s" "live t = live s"
      "rv_backend t = rv_backend s" "direct t = direct s - len" "mapped t = mapped s - {p..<p + len}"
proof -
  have b: "len \<le> direct s" "\<forall>r \<in> set (live s). rs_range r \<inter> {p..<p + len} = {}"
    using blk len by (auto simp: direct_block_def)
  from inv b(2,1) show thesis
  proof (cases rule: detach_tail)
    case r: refused
    then show thesis using len detach_refused [OF r] by (intro refused) (simp_all add: direct_free_def)
  next
    case (granted t u)
    then show thesis using len by (intro freed [of u]) (simp_all add: direct_free_def)
  qed
qed

lemma zero_tails_copy:
  assumes "zero_tails m rs" and "list_all rs_ok rs" and "\<forall>r \<in> set rs. rs_range r \<inter> {q..<q + n} = {}"
  shows "zero_tails (copy_mem p q n m) rs"
  unfolding zero_tails_def
proof (intro ballI allI impI)
  fix r a assume r: "r \<in> set rs" and a: "rs_bump r \<le> a" "a < rs_base r + rs_len r"
  have "rs_base r \<le> rs_bump r" using assms(2) r by (auto simp: list_all_iff rs_ok_def)
  then have "a \<in> rs_range r" using a by simp
  then have "\<not> (q \<le> a \<and> a < q + n)" using assms(3) r by fastforce
  with assms(1) r a show "copy_mem p q n m a = 0" by (auto simp: copy_mem_def zero_tails_def)
qed

text \<open>What \<open>direct_realloc\<close> does: it refuses, keeps the block where it is and gives up the pages past its new end,
  or moves it to fresh pages. A moved block's old pages stay only if the kernel refuses to take them.\<close>

lemma move_cases:
  fixes align :: nat
  assumes inv: "rv_inv s" and blk: "direct_block s p old" and new: "0 < new"
    and old: "page_round old = Some m"
  defines "move \<equiv> do {
      (q, s) \<leftarrow> direct_alloc new align s;
      if q = 0 then Some (q, s)
      else do { s \<leftarrow> direct_free p old (s\<lparr>mem := copy_mem p q (min old new) (mem s)\<rparr>); Some (q, s) } }"
  obtains (null) t where "move = Some (0, t)" "rv_inv t" "live t = live s" "rv_backend t = rv_backend s"
      "direct t = direct s" "mapped t = mapped s" "mem t = mem s"
  | (moved) q n t A where "move = Some (q, t)" "rv_inv t" "live t = live s" "rv_backend t = rv_backend s"
      "page_round new = Some n" "0 < q" "PAGE dvd q" "align > PAGE \<Longrightarrow> 2 ^ trailing_zeros align dvd q" "q + n \<le> VA_TOP"
      "{q..<q + n} \<inter> mapped s = {}" "mem t = copy_mem p q (min old new) (zero_range q n (mem s))"
      "A = {p..<p + m} \<or> A = {} \<and> \<not> detaches (rv_backend s)"
      "mapped t = mapped s \<union> {q..<q + n} - A" "direct t + card A = direct s + n"
proof -
  have block: "0 < p" "p + m \<le> VA_TOP" "{p..<p + m} \<subseteq> mapped s" "m \<le> direct s"
      "\<forall>r \<in> set (live s). rs_range r \<inter> {p..<p + m} = {}"
    using blk old by (auto simp: direct_block_def)
  from inv new show thesis
  proof (cases rule: direct_alloc_cases [of s new align])
    case (refused t)
    then show thesis by (intro null [of t]) (simp_all add: move_def mapped_def)
  next
    case (granted q n k t)
    let ?m = "copy_mem p q (min old new) (mem t)"
    let ?t = "t\<lparr>mem := ?m\<rparr>"
    have "min old new \<le> n" using page_round_Some(1) [OF granted(3)] by simp
    then have "{q..<q + min old new} \<subseteq> {q..<q + n}" by auto
    moreover have "rs_range r \<subseteq> mapped s" if "r \<in> set (live t)" for r
      using inv that granted(10) by (auto simp: rv_inv_def live_ok_def)
    ultimately have "\<forall>r \<in> set (live t). rs_range r \<inter> {q..<q + min old new} = {}" using granted(8) by blast
    then have "zero_tails ?m (live t)"
      using granted(2) by (intro zero_tails_copy) (simp_all add: rv_inv_def live_ok_def)
    then have inv': "rv_inv ?t"
      using rv_inv_kern [OF granted(2), of "kern t" ?m] by (simp add: mapped_def)
    have mt: "mapped ?t = mapped s \<union> {q..<q + n}" using granted(9) by (simp add: mapped_def)
    have blk': "direct_block ?t p old"
      using block old granted(10) mt by (auto simp: direct_block_def)
    have mem: "?m = copy_mem p q (min old new) (zero_range q n (mem s))" using granted(10) by simp
    have start: "move = map_option (Pair q) (direct_free p old ?t)"
      using granted(1,4) by (cases "direct_free p old ?t") (simp_all add: move_def)
    from inv' blk' old show thesis
    proof (cases rule: direct_free_cases)
      case refused
      then show thesis using start inv' granted mt mem
        by (intro moved [of q ?t n "{}"]) (simp_all)
    next
      case (freed u)
      then show thesis using start granted mt mem block(4)
        by (intro moved [of q u n "{p..<p + m}"]) simp_all
    qed
  qed
qed

lemma direct_realloc_cases:
  assumes inv: "rv_inv s" and blk: "direct_block s p old" and pos: "0 < new"
    and old: "page_round old = Some m"
  obtains (null) t where "direct_realloc p old align new s = Some (0, t)" "rv_inv t" "live t = live s"
      "rv_backend t = rv_backend s" "direct t = direct s" "mapped t = mapped s" "mem t = mem s"
  | (kept) n t where "direct_realloc p old align new s = Some (p, t)" "rv_inv t" "live t = live s"
      "rv_backend t = rv_backend s" "page_round new = Some n" "n \<le> m" "0 < p" "mem t = mem s"
      "mapped t = mapped s - {p + n..<p + m}" "direct t + (m - n) = direct s"
  | (moved) q n t A where "direct_realloc p old align new s = Some (q, t)" "rv_inv t" "live t = live s"
      "rv_backend t = rv_backend s" "page_round new = Some n" "0 < q" "PAGE dvd q"
      "align > PAGE \<Longrightarrow> 2 ^ trailing_zeros align dvd q" "q + n \<le> VA_TOP"
      "{q..<q + n} \<inter> mapped s = {}" "mem t = copy_mem p q (min old new) (zero_range q n (mem s))"
      "A = {p..<p + m} \<or> A = {} \<and> \<not> detaches (rv_backend s)"
      "mapped t = mapped s \<union> {q..<q + n} - A" "direct t + card A = direct s + n"
proof (cases "page_round new")
  case None
  then show thesis using inv by (intro null [of s]) (simp_all add: direct_realloc_def)
next
  case (Some n)
  have block: "0 < p" "p + m \<le> VA_TOP" "m \<le> direct s" "\<forall>r \<in> set (live s). rs_range r \<inter> {p..<p + m} = {}"
    using blk old by (auto simp: direct_block_def)
  have step: thesis if "direct_realloc p old align new s = do {
      (q, s) \<leftarrow> direct_alloc new align s;
      if q = 0 then Some (q, s)
      else do { s \<leftarrow> direct_free p old (s\<lparr>mem := copy_mem p q (min old new) (mem s)\<rparr>); Some (q, s) } }"
  proof (rule move_cases [OF inv blk pos old, of align], unfold that [symmetric], goal_cases)
    case (1 t)
    then show thesis by (rule null)
  next
    case (2 q t n A)
    then show thesis by (rule moved)
  qed
  consider "n = m" | "n < m" | "m < n" by linarith
  then show thesis
  proof cases
    case 1
    then show thesis using inv old Some block(1) by (intro kept [of s n]) (simp_all add: direct_realloc_def)
  next
    case 2
    then have va: "p + n < usize_limit" using block(2) limits(3) by linarith
    have "{p + n..<p + n + (m - n)} \<subseteq> {p..<p + m}" using 2 by auto
    then have apart: "\<forall>r \<in> set (live s). rs_range r \<inter> {p + n..<p + n + (m - n)} = {}" using block(4) by blast
    have "m - n \<le> direct s" using block(3) by simp
    from inv apart this show thesis
    proof (cases rule: detach_tail)
      case refused
      with 2 va old Some show thesis by (intro step) (simp add: direct_realloc_def checked_add_def)
    next
      case (granted t u)
      then show thesis using 2 va old Some block(1,3)
        by (intro kept [of u n]) (simp_all add: direct_realloc_def checked_add_def)
    qed
  next
    case 3
    with old Some show thesis by (intro step) (simp add: direct_realloc_def)
  qed
qed

section \<open>What the heap guarantees\<close>

text \<open>A small kernel that satisfies the contract: it grants one range at a time, at one
  address.\<close>

definition demo_backend :: "nat set backend" where
  "demo_backend =
     \<lparr>be_reserve = (\<lambda>len al k.
        if al \<le> 20 \<and> 2 ^ 20 + len \<le> VA_TOP \<and> {2 ^ 20..<2 ^ 20 + len} \<inter> k = {}
        then (Some (2 ^ 20), k \<union> {2 ^ 20..<2 ^ 20 + len}) else (None, k)),
      be_decommit = (\<lambda>va len k. (True, k)),
      be_detach = (\<lambda>va len k. (True, k - {va..<va + len})),
      be_mapped = (\<lambda>k. k)\<rparr>"

lemma demo_backend_ok: "backend_ok demo_backend"
proof -
  have "al \<le> 20 \<Longrightarrow> (2 :: nat) ^ al dvd 1048576" for al
    using le_imp_power_dvd [of al 20 "2 :: nat"] by simp
  then show ?thesis
    by (auto simp: backend_ok_def demo_backend_def PAGE_def split: if_splits)
qed

lemma demo_mapped [simp]: "be_mapped demo_backend k = k"
  by (simp add: demo_backend_def)

definition demo_heap :: "nat set reservations" where
  "demo_heap = \<lparr>rv_backend = demo_backend, first_len = 16 * 4096, live = [], carved = 0,
     direct = 65 * 4096, peak = 65 * 4096, kern = {2 ^ 30..<2 ^ 30 + 65 * 4096}, mem = (\<lambda>_. 7)\<rparr>"

lemma demo_heap_inv: "rv_inv demo_heap" "direct_block demo_heap (2 ^ 30) (65 * 4096)"
  by (simp_all add: rv_inv_def demo_heap_def demo_backend_ok PAGE_def live_ok_def zero_tails_def held_def
      isize_max_def VA_TOP_def direct_block_def page_round_eq usize_limit_def mapped_def)

text \<open>C23. Carving never panics, and what it returns is fresh, zeroed and page-aligned memory. From
  any state in which the invariant holds, \<open>carve\<close> either refuses and changes nothing, or returns a
  mapped page-aligned range of the size asked that reads as zero, overlaps no segment dlmalloc holds,
  and is counted; the invariant holds again.\<close>

theorem carve_safe:
  assumes "rv_inv s"
  shows "\<exists>r t. carve sz s = Some (r, t) \<and> rv_inv t \<and>
    (case r of
       None \<Rightarrow> t = s
     | Some va \<Rightarrow> 0 < va \<and> PAGE dvd va \<and> {va..<va + sz} \<subseteq> mapped t \<and> (\<forall>a \<in> {va..<va + sz}. mem t a = 0) \<and>
         carved t = carved s + sz \<and> direct t = direct s \<and>
         (\<forall>(b, n) \<in> set (segments s). va + sz \<le> b \<or> b + n \<le> va))"
proof -
  have apart: "va + sz \<le> b \<or> b + n \<le> va"
    if "carve sz s = Some (Some va, t)" "(b, n) \<in> set (segments s)" for va t b n
    using hs.alloc_fresh [OF assms that] .
  from assms show ?thesis
  proof (cases rule: carve_cases [of s sz])
    case none
    with assms show ?thesis by simp
  next
    case (extend xs r t)
    have r: "rs_ok r" "rs_range r \<subseteq> mapped s" "zero_tails (mem s) [r]"
      using assms extend(1) by (auto simp: rv_inv_def live_ok_append zero_tails_append)
    have "rs_ok (r\<lparr>rs_bump := rs_bump r + sz\<rparr>)"
      using extend(3,6) by (simp add: rv_inv_def live_ok_append)
    then have "{rs_bump r..<rs_bump r + sz} \<subseteq> rs_range r" using r(1) by (auto simp: rs_ok_def)
    moreover have "mem s a = 0" if "a \<in> {rs_bump r..<rs_bump r + sz}" for a
    proof -
      have "a < rs_base r + rs_len r"
        using that \<open>rs_ok (r\<lparr>rs_bump := rs_bump r + sz\<rparr>)\<close> by (simp add: rs_ok_def)
      with r(3) that show ?thesis by (simp add: zero_tails_def)
    qed
    ultimately show ?thesis
      using r extend apart [OF extend(2)]
      by (intro exI [of _ "Some (rs_bump r)"] exI [of _ t]) (auto simp: rs_ok_def mapped_def)
  next
    case (fresh va n k t)
    have "rs_ok \<lparr>rs_base = va, rs_len = n, rs_bump = va + sz\<rparr>" "{va..<va + n} \<subseteq> mapped t"
    proof -
      have "live t = live s @ [\<lparr>rs_base = va, rs_len = n, rs_bump = va + sz\<rparr>]" using fresh(5) by simp
      with fresh(2) show "rs_ok \<lparr>rs_base = va, rs_len = n, rs_bump = va + sz\<rparr>" "{va..<va + n} \<subseteq> mapped t"
        by (simp_all add: rv_inv_def live_ok_append)
    qed
    then show ?thesis
      using fresh apart [OF fresh(1)]
      by (intro exI [of _ "Some va"] exI [of _ t]) (auto simp: rs_ok_def zero_range_def)
  qed
qed

theorem carve_safe_witness: "\<exists>r t. carve 8192 demo_heap = Some (r, t) \<and> rv_inv t"
  using carve_safe [OF demo_heap_inv(1), of 8192] by blast

text \<open>The life of a heap: dlmalloc's calls in any order, the program writing to bytes dlmalloc
  holds and to its direct blocks, direct blocks allocated, freed and reallocated, the peak
  restarted. Beside the state runs the set of the direct blocks the program has, as addresses and
  sizes: an allocation that returns an address adds one, a free removes the one it is given, and a
  reallocation that returns an address puts the new block in the place of the old one.\<close>

type_synonym direct_blocks = "(nat \<times> nat) set"

inductive rv_step :: "'k reservations \<times> direct_blocks \<Rightarrow> 'k reservations \<times> direct_blocks \<Rightarrow> bool" where
  carve: "carve sz s = Some (r, t) \<Longrightarrow> rv_step (s, D) (t, D)"
| shrink: "shrink p old new s = Some (b, t) \<Longrightarrow> rv_step (s, D) (t, D)"
| release: "release p sz s = Some (b, t) \<Longrightarrow> rv_step (s, D) (t, D)"
| store: "(b, n) \<in> set (segments s) \<Longrightarrow> b \<le> a \<Longrightarrow> a < b + n \<Longrightarrow> rv_step (s, D) (s\<lparr>mem := (mem s)(a := v)\<rparr>, D)"
| store_direct: "(p, sz) \<in> D \<Longrightarrow> p \<le> a \<Longrightarrow> a < p + sz \<Longrightarrow> rv_step (s, D) (s\<lparr>mem := (mem s)(a := v)\<rparr>, D)"
| direct_alloc: "0 < sz \<Longrightarrow> direct_alloc sz align s = Some (p, t) \<Longrightarrow>
    rv_step (s, D) (t, if p = 0 then D else insert (p, sz) D)"
| direct_free: "(p, sz) \<in> D \<Longrightarrow> direct_free p sz s = Some t \<Longrightarrow> rv_step (s, D) (t, D - {(p, sz)})"
| direct_realloc: "(p, old) \<in> D \<Longrightarrow> 0 < new \<Longrightarrow> direct_realloc p old align new s = Some (q, t) \<Longrightarrow>
    rv_step (s, D) (t, if q = 0 then D else insert (q, new) (D - {(p, old)}))"
| reset_peak: "reset_peak s = Some t \<Longrightarrow> rv_step (s, D) (t, D)"

text \<open>The pages of a block, and the bytes that are mapped beyond what was mapped before the heap and
  outside every reservation. These are the direct bytes: the program's direct blocks, and the pages
  that the kernel refused to take back.\<close>

definition block_pages :: "nat \<times> nat \<Rightarrow> nat set" where
  "block_pages b = (case page_round (snd b) of None \<Rightarrow> {} | Some len \<Rightarrow> {fst b..<fst b + len})"

definition direct_bytes :: "nat set \<Rightarrow> 'k reservations \<Rightarrow> nat set" where
  "direct_bytes M s = mapped s - M - (\<Union>r \<in> set (live s). rs_range r)"

definition ledger_inv :: "'k backend \<Rightarrow> nat set \<Rightarrow> 'k reservations \<Rightarrow> direct_blocks \<Rightarrow> bool" where
  "ledger_inv be M s D \<longleftrightarrow> rv_inv s \<and> rv_backend s = be \<and> M \<subseteq> mapped s \<and> (\<forall>r \<in> set (live s). rs_range r \<inter> M = {}) \<and>
     direct_bytes M s \<subseteq> {..<VA_TOP} \<and> direct s = card (direct_bytes M s) \<and> finite D \<and>
     (\<forall>(p, sz) \<in> D. 0 < p \<and> 0 < sz \<and> page_round sz \<noteq> None \<and> block_pages (p, sz) \<subseteq> direct_bytes M s) \<and>
     (\<forall>b \<in> D. \<forall>c \<in> D. b \<noteq> c \<longrightarrow> block_pages b \<inter> block_pages c = {}) \<and>
     (detaches be \<longrightarrow> direct_bytes M s = \<Union> (block_pages ` D))"

lemma write_keeps:
  assumes inv: "rv_inv s" and seg: "(b, n) \<in> set (segments s)" "b \<le> a" "a < b + n"
  shows "rv_inv (s\<lparr>mem := (mem s)(a := v)\<rparr>)"
proof -
  from seg obtain r where r: "r \<in> set (live s)" "b = rs_base r" "n = rs_bump r - rs_base r"
    by (auto simp: segments_def)
  have ok: "list_all rs_ok (live s)" and sorted: "sorted_wrt apart (live s)"
    using inv by (simp_all add: rv_inv_def live_ok_def)
  have a: "a \<in> rs_range r" "a < rs_bump r" using seg r ok by (auto simp: list_all_iff rs_ok_def)
  have other: "a \<notin> {rs_bump r'..<rs_base r' + rs_len r'}" if "r' \<in> set (live s)" for r'
  proof (cases "r' = r")
    case True
    with a show ?thesis by simp
  next
    case False
    have "apart r r' \<or> apart r' r"
      using sorted r(1) that False
      by (metis in_set_conv_nth linorder_neqE_nat sorted_wrt_nth_less)
    moreover have "rs_ok r'" using ok that by (simp add: list_all_iff)
    ultimately show ?thesis using a by (auto simp: apart_def rs_ok_def)
  qed
  have "zero_tails ((mem s)(a := v)) (live s)"
    using inv other by (auto simp: rv_inv_def zero_tails_def)
  with inv show ?thesis by (simp add: rv_inv_def mapped_def)
qed

lemma ledgerD:
  assumes "ledger_inv be M s D"
  shows "rv_inv s" "rv_backend s = be" "M \<subseteq> mapped s" "\<And>r. r \<in> set (live s) \<Longrightarrow> rs_range r \<inter> M = {}"
    "direct_bytes M s \<subseteq> {..<VA_TOP}" "direct s = card (direct_bytes M s)" "finite D"
    "\<And>b c. b \<in> D \<Longrightarrow> c \<in> D \<Longrightarrow> b \<noteq> c \<Longrightarrow> block_pages b \<inter> block_pages c = {}"
    "\<And>b. b \<in> D \<Longrightarrow> block_pages b \<subseteq> direct_bytes M s"
    "detaches be \<Longrightarrow> direct_bytes M s = \<Union> (block_pages ` D)" "finite (direct_bytes M s)"
proof -
  note L = assms [unfolded ledger_inv_def]
  show "rv_inv s" "rv_backend s = be" "M \<subseteq> mapped s" "direct_bytes M s \<subseteq> {..<VA_TOP}" "direct s = card (direct_bytes M s)" "finite D"
    using L by simp_all
  then show "finite (direct_bytes M s)" using finite_subset [of "direct_bytes M s" "{..<VA_TOP}"] by simp
  show "r \<in> set (live s) \<Longrightarrow> rs_range r \<inter> M = {}" for r using L by simp
  show "b \<in> D \<Longrightarrow> c \<in> D \<Longrightarrow> b \<noteq> c \<Longrightarrow> block_pages b \<inter> block_pages c = {}" for b c using L by simp
  show "b \<in> D \<Longrightarrow> block_pages b \<subseteq> direct_bytes M s" for b using L by (cases b) fastforce
  show "detaches be \<Longrightarrow> direct_bytes M s = \<Union> (block_pages ` D)" using L by simp
qed

lemma ledgerI:
  assumes "rv_inv s" "rv_backend s = be" "M \<subseteq> mapped s" "\<forall>r \<in> set (live s). rs_range r \<inter> M = {}"
    "direct_bytes M s \<subseteq> {..<VA_TOP}" "direct s = card (direct_bytes M s)" "finite D"
    "\<And>b c. b \<in> D \<Longrightarrow> c \<in> D \<Longrightarrow> b \<noteq> c \<Longrightarrow> block_pages b \<inter> block_pages c = {}"
    "\<And>p sz. (p, sz) \<in> D \<Longrightarrow> 0 < p \<and> 0 < sz \<and> page_round sz \<noteq> None \<and> block_pages (p, sz) \<subseteq> direct_bytes M s"
    "detaches be \<Longrightarrow> direct_bytes M s = \<Union> (block_pages ` D)"
  shows "ledger_inv be M s D"
  unfolding ledger_inv_def using assms(1-7,10) by (intro conjI ballI impI) (auto dest: assms(8,9))

lemma ledger_cong:
  "ledger_inv be M s D \<Longrightarrow> rv_inv t \<Longrightarrow> rv_backend t = rv_backend s \<Longrightarrow> live t = live s \<Longrightarrow> mapped t = mapped s \<Longrightarrow>
     direct t = direct s \<Longrightarrow> ledger_inv be M t D"
  by (simp add: ledger_inv_def direct_bytes_def)

lemma ledger_block:
  assumes "ledger_inv be M s D" and "(p, sz) \<in> D"
  shows "direct_block s p sz"
    and "\<exists>len. page_round sz = Some len \<and> block_pages (p, sz) = {p..<p + len} \<and> {p..<p + len} \<subseteq> direct_bytes M s \<and> 0 < p \<and> 0 < sz \<and> 0 < len"
proof -
  from assms obtain len where len: "page_round sz = Some len" "0 < p" "0 < sz" "{p..<p + len} \<subseteq> direct_bytes M s"
    by (auto simp: ledger_inv_def block_pages_def)
  then have pos: "0 < len" using page_round_Some(4) by blast
  have top: "direct_bytes M s \<subseteq> {..<VA_TOP}" using assms(1) by (simp add: ledger_inv_def)
  have "p + len - 1 \<in> {p..<p + len}" using pos by simp
  then have "p + len - 1 < VA_TOP" using len(4) top by blast
  moreover have "card {p..<p + len} \<le> direct s"
    using ledgerD(6,11) [OF assms(1)] len(4) by (metis card_mono)
  moreover have "{p..<p + len} \<subseteq> mapped s" "\<forall>r \<in> set (live s). rs_range r \<inter> {p..<p + len} = {}"
    using len(4) unfolding direct_bytes_def by blast+
  ultimately show "direct_block s p sz" using len by (simp add: direct_block_def)
  show "\<exists>len. page_round sz = Some len \<and> block_pages (p, sz) = {p..<p + len} \<and> {p..<p + len} \<subseteq> direct_bytes M s \<and> 0 < p \<and> 0 < sz \<and> 0 < len"
    using len pos by (simp add: block_pages_def)
qed

text \<open>A step of dlmalloc's side leaves the direct bytes alone.\<close>

lemma ledger_same:
  assumes "ledger_inv be M s D" and "rv_inv t" and "direct t = direct s" and "rv_backend t = rv_backend s"
    and "direct_bytes M t = direct_bytes M s" and "M \<subseteq> mapped t" and "\<forall>r \<in> set (live t). rs_range r \<inter> M = {}"
  shows "ledger_inv be M t D"
  using assms by (simp add: ledger_inv_def)

text \<open>A step of the direct side maps the bytes \<open>B\<close> and gives up the bytes \<open>A\<close>.\<close>

lemma ledger_remap:
  assumes led: "ledger_inv be M s D" and t: "rv_inv t" "live t = live s" "rv_backend t = rv_backend s"
    and map: "mapped t = mapped s \<union> B - A" "B \<inter> mapped s = {}" "B \<subseteq> {..<VA_TOP}" "A \<subseteq> direct_bytes M s"
    and count: "direct t + card A = direct s + card B"
  shows "direct_bytes M t = direct_bytes M s \<union> B - A" "M \<subseteq> mapped t" "\<forall>r \<in> set (live t). rs_range r \<inter> M = {}"
    "direct_bytes M t \<subseteq> {..<VA_TOP}" "direct t = card (direct_bytes M t)"
proof -
  have L: "M \<subseteq> mapped s" "\<forall>r \<in> set (live s). rs_range r \<inter> M = {}" "direct_bytes M s \<subseteq> {..<VA_TOP}"
    "direct s = card (direct_bytes M s)" using led by (simp_all add: ledger_inv_def)
  have R: "\<forall>r \<in> set (live s). rs_range r \<subseteq> mapped s" using led by (auto simp: ledger_inv_def rv_inv_def live_ok_def)
  show eq: "direct_bytes M t = direct_bytes M s \<union> B - A"
    unfolding direct_bytes_def map(1) t(2) using L(1) R map(2) by blast
  show "M \<subseteq> mapped t" using L(1) map(1,4) by (auto simp: direct_bytes_def)
  show "\<forall>r \<in> set (live t). rs_range r \<inter> M = {}" using L(2) t(2) by simp
  show "direct_bytes M t \<subseteq> {..<VA_TOP}" using eq L(3) map(3) by blast
  have fin: "finite (direct_bytes M s)" "finite B" using L(3) map(3) finite_subset by blast+
  have "direct_bytes M s \<inter> B = {}" using map(2) by (auto simp: direct_bytes_def)
  then have "card (direct_bytes M s \<union> B) = direct s + card B" using fin L(4) by (simp add: card_Un_disjoint)
  moreover have "card (direct_bytes M s \<union> B - A) = card (direct_bytes M s \<union> B) - card A"
    using map(4) fin by (intro card_Diff_subset) (auto intro: finite_subset)
  ultimately show "direct t = card (direct_bytes M t)" using eq count by simp
qed

lemma ledger_put:
  assumes t: "rv_inv t" "rv_backend t = be" "M \<subseteq> mapped t" "\<forall>r \<in> set (live t). rs_range r \<inter> M = {}"
      "direct_bytes M t \<subseteq> {..<VA_TOP}" "direct t = card (direct_bytes M t)"
    and led: "ledger_inv be M s D" and E: "E \<subseteq> D" "\<And>b. b \<in> E \<Longrightarrow> block_pages b \<subseteq> direct_bytes M t"
    and q: "0 < q" "0 < new" "page_round new = Some n" "{q..<q + n} \<subseteq> direct_bytes M t"
      "\<And>b. b \<in> E \<Longrightarrow> block_pages b \<inter> {q..<q + n} = {}"
    and all: "detaches be \<Longrightarrow> direct_bytes M t \<subseteq> {q..<q + n} \<union> \<Union> (block_pages ` E)"
  shows "ledger_inv be M t (insert (q, new) E)"
proof (rule ledgerI [OF t])
  have Q: "block_pages (q, new) = {q..<q + n}" using q(3) by (simp add: block_pages_def)
  show "finite (insert (q, new) E)" using ledgerD(7) [OF led] E(1) finite_subset by blast
  show "block_pages b \<inter> block_pages c = {}"
    if "b \<in> insert (q, new) E" "c \<in> insert (q, new) E" "b \<noteq> c" for b c
    using that q(5) [of b] q(5) [of c] ledgerD(8) [OF led, of b c] Q E(1) by (elim insertE) auto
  show "0 < x \<and> 0 < z \<and> page_round z \<noteq> None \<and> block_pages (x, z) \<subseteq> direct_bytes M t"
    if "(x, z) \<in> insert (q, new) E" for x z
  proof (cases "(x, z) = (q, new)")
    case True
    then show ?thesis using q Q by simp
  next
    case False
    then have xz: "(x, z) \<in> E" using that by blast
    then show ?thesis using ledger_block(2) [OF led, of x z] E by auto
  qed
  have sub: "\<Union> (block_pages ` insert (q, new) E) \<subseteq> direct_bytes M t" using E(2) q(4) Q by blast
  show "direct_bytes M t = \<Union> (block_pages ` insert (q, new) E)" if "detaches be"
    using all [OF that] Q by (intro equalityI [OF _ sub]) simp
qed

lemma ledger_alloc:
  assumes led: "ledger_inv be M s D" and sz: "0 < sz" and run: "direct_alloc sz align s = Some (p, t)"
  shows "ledger_inv be M t (if p = 0 then D else insert (p, sz) D)"
proof -
  have inv: "rv_inv s" using led by (simp add: ledger_inv_def)
  from inv sz show ?thesis
  proof (cases rule: direct_alloc_cases [of s sz align])
    case (refused u)
    then have "ledger_inv be M u D" by (intro ledger_cong [OF led]) (simp_all add: mapped_def)
    then show ?thesis using run refused(1) by auto
  next
    case (granted va len k u)
    then have u: "u = t" "p = va" using run by auto
    let ?B = "{va..<va + len}"
    have map: "mapped t = mapped s \<union> ?B - {}" "?B \<inter> mapped s = {}" "?B \<subseteq> {..<VA_TOP}" "direct t + card {} = direct s + card ?B"
      using granted(7-10) u(1) by auto
    have t: "rv_inv t" "live t = live s" "rv_backend t = rv_backend s" using granted(2,10) u(1) by simp_all
    note new = ledger_remap [OF led t map(1-3) empty_subsetI map(4)]
    have "?B \<inter> direct_bytes M s = {}" using granted(8) by (auto simp: direct_bytes_def)
    then have apart: "block_pages b \<inter> ?B = {}" if "b \<in> D" for b using ledgerD(9) [OF led that] by blast
    have within: "block_pages b \<subseteq> direct_bytes M t" if "b \<in> D" for b using ledgerD(9) [OF led that] new(1) by blast
    have "ledger_inv be M t (insert (va, sz) D)"
      using ledgerD(10) [OF led] new(1) t(3) ledgerD(2) [OF led]
      by (intro ledger_put [OF t(1) _ new(2-5) led subset_refl within granted(4) sz granted(3) _ apart]) auto
    then show ?thesis using u granted(4) by simp
  qed
qed

lemma ledger_free:
  assumes led: "ledger_inv be M s D" and blk: "(p, sz) \<in> D" and run: "direct_free p sz s = Some t"
  shows "ledger_inv be M t (D - {(p, sz)})"
proof -
  have inv: "rv_inv s" using led by (simp add: ledger_inv_def)
  obtain len where len: "page_round sz = Some len" "block_pages (p, sz) = {p..<p + len}" "{p..<p + len} \<subseteq> direct_bytes M s"
      "len \<le> direct s"
    using ledger_block [OF led blk] by (auto simp: direct_block_def)
  from inv ledger_block(1) [OF led blk] len(1) show ?thesis
  proof (cases rule: direct_free_cases)
    case refused
    then show ?thesis using run led by (auto simp: ledger_inv_def)
  next
    case (freed u)
    then have t: "rv_inv t" "live t = live s" "rv_backend t = rv_backend s" using run by simp_all
    have map: "mapped t = mapped s \<union> {} - {p..<p + len}" "direct t + card {p..<p + len} = direct s + card {}"
      using freed run len(4) by simp_all
    note new = ledger_remap [OF led t map(1) Int_empty_left empty_subsetI len(3) map(2)]
    have others: "block_pages b \<inter> {p..<p + len} = {}" if "b \<in> D - {(p, sz)}" for b
      using ledgerD(8) [OF led _ blk] that len(2) by auto
    show ?thesis
    proof (rule ledgerI)
      show "rv_backend t = be" using t(3) ledgerD(2) [OF led] by simp
      show "finite (D - {(p, sz)})" using ledgerD(7) [OF led] by simp
      show "block_pages b \<inter> block_pages c = {}" if "b \<in> D - {(p, sz)}" "c \<in> D - {(p, sz)}" "b \<noteq> c" for b c
        using ledgerD(8) [OF led] that by blast
      show "0 < x \<and> 0 < z \<and> page_round z \<noteq> None \<and> block_pages (x, z) \<subseteq> direct_bytes M t" if "(x, z) \<in> D - {(p, sz)}" for x z
        using ledger_block(2) [OF led, of x z] others [OF that] new(1) that by auto
      show "direct_bytes M t = \<Union> (block_pages ` (D - {(p, sz)}))" if "detaches be"
      proof -
        have "\<Union> (block_pages ` D) = {p..<p + len} \<union> \<Union> (block_pages ` (D - {(p, sz)}))" using blk len(2) by auto
        moreover have "{p..<p + len} \<inter> \<Union> (block_pages ` (D - {(p, sz)})) = {}" using others by blast
        ultimately show ?thesis using ledgerD(10) [OF led that] new(1) by auto
      qed
    qed (use t(1) new(2-5) in simp_all)
  qed
qed

lemma ledger_replace:
  assumes led: "ledger_inv be M s D" and blk: "(p, old) \<in> D" and q: "0 < q" "0 < new" "page_round new = Some n"
    and t: "rv_inv t" "live t = live s" "rv_backend t = rv_backend s"
    and map: "mapped t = mapped s \<union> B - A" "B \<inter> mapped s = {}" "B \<subseteq> {..<VA_TOP}"
    and count: "direct t + card A = direct s + card B"
    and old: "page_round old = Some m" and A: "A \<subseteq> {p..<p + m}"
    and pages: "{q..<q + n} = B \<or> B = {} \<and> {q..<q + n} = {p..<p + m} - A"
    and left: "detaches be \<Longrightarrow> {p..<p + m} - A \<subseteq> {q..<q + n}"
  shows "ledger_inv be M t (insert (q, new) (D - {(p, old)}))"
proof -
  have P: "block_pages (p, old) = {p..<p + m}" "{p..<p + m} \<subseteq> direct_bytes M s"
    using ledger_block(2) [OF led blk] old by auto
  have A': "A \<subseteq> direct_bytes M s" using A P(2) by blast
  note new = ledger_remap [OF led t map A' count]
  have mem: "block_pages b \<subseteq> direct_bytes M s" "block_pages b \<inter> {p..<p + m} = {}" if "b \<in> D - {(p, old)}" for b
    using ledgerD(8) [OF led _ blk] ledgerD(9) [OF led] that P(1) by auto
  have fresh: "B \<inter> direct_bytes M s = {}" using map(2) by (auto simp: direct_bytes_def)
  have Qd: "{q..<q + n} \<subseteq> direct_bytes M t" using pages P(2) A new(1) fresh by blast
  have apart: "block_pages b \<inter> {q..<q + n} = {}" if "b \<in> D - {(p, old)}" for b
    using pages mem [OF that] fresh by blast
  have within: "block_pages b \<subseteq> direct_bytes M t" if "b \<in> D - {(p, old)}" for b
    using mem [OF that] A new(1) by blast
  have all: "direct_bytes M t \<subseteq> {q..<q + n} \<union> \<Union> (block_pages ` (D - {(p, old)}))" if "detaches be"
  proof -
    have "direct_bytes M s = \<Union> (block_pages ` (D - {(p, old)})) \<union> {p..<p + m}"
      using ledgerD(10) [OF led that] blk P(1) by auto
    moreover have "B \<subseteq> {q..<q + n}" using pages by blast
    ultimately show ?thesis using new(1) left [OF that] by auto
  qed
  have "rv_backend t = be" using t(3) ledgerD(2) [OF led] by simp
  then show ?thesis by (rule ledger_put [OF t(1) _ new(2-5) led Diff_subset within q Qd apart all])
qed

lemma ledger_realloc:
  assumes led: "ledger_inv be M s D" and blk: "(p, old) \<in> D" and pos: "0 < new"
    and run: "direct_realloc p old align new s = Some (q, t)"
  shows "ledger_inv be M t (if q = 0 then D else insert (q, new) (D - {(p, old)}))"
proof -
  have inv: "rv_inv s" using led by (simp add: ledger_inv_def)
  obtain m where m: "page_round old = Some m" "{p..<p + m} \<subseteq> direct_bytes M s" using ledger_block(2) [OF led blk] by auto
  from inv ledger_block(1) [OF led blk] pos m(1) show ?thesis
  proof (cases rule: direct_realloc_cases [where align = align])
    case (null u)
    then show ?thesis using run led by (simp add: ledger_inv_def direct_bytes_def)
  next
    case (kept n u)
    then have u: "u = t" "q = p" using run by auto
    have parts: "{p..<p + n} = {p..<p + m} - {p + n..<p + m}" "{p + n..<p + m} \<subseteq> {p..<p + m}" using kept(6) by auto
    have "ledger_inv be M t (insert (p, new) (D - {(p, old)}))"
      by (rule ledger_replace [OF led blk kept(7) pos kept(5) _ _ _ _ _ _ _ m(1) parts(2), where B = "{}"])
        (use kept(2-4,9,10) u parts(1) in simp_all)
    then show ?thesis using u kept(7) by simp
  next
    case (moved r n u A)
    then have u: "u = t" "q = r" using run by auto
    have "ledger_inv be M t (insert (r, new) (D - {(p, old)}))"
      by (rule ledger_replace [OF led blk moved(6) pos moved(5) _ _ _ _ _ _ _ m(1), where A = A and B = "{r..<r + n}"])
        (use moved(2-4,9,10,12-14) u ledgerD(2) [OF led] in auto)
    then show ?thesis using u moved(6) by simp
  qed
qed

lemma ledger_carve:
  assumes led: "ledger_inv be M s D" and run: "carve sz s = Some (r, t)"
  shows "ledger_inv be M t D"
proof -
  have inv: "rv_inv s" and M: "M \<subseteq> mapped s" "\<forall>r \<in> set (live s). rs_range r \<inter> M = {}" using led by (simp_all add: ledger_inv_def)
  from inv show ?thesis
  proof (cases rule: carve_cases [of s sz])
    case none
    then show ?thesis using run led by simp
  next
    case (extend xs x u)
    then have u: "u = t" using run by simp
    show ?thesis using M extend(1,6) u extend(3)
      by (intro ledger_same [OF led]) (auto simp: direct_bytes_def mapped_def)
  next
    case (fresh va n k u)
    then have u: "u = t" using run by simp
    have mt: "mapped t = mapped s \<union> {va..<va + n}" "live t = live s @ [\<lparr>rs_base = va, rs_len = n, rs_bump = va + sz\<rparr>]"
      using fresh(5,8) u by (simp_all add: mapped_def)
    have "direct_bytes M t = direct_bytes M s" using mt fresh(6) by (auto simp: direct_bytes_def)
    then show ?thesis using M mt fresh(2,5,6) u by (intro ledger_same [OF led]) auto
  qed
qed

lemma ledger_shrink:
  assumes led: "ledger_inv be M s D" and run: "shrink p old new s = Some (b, t)"
  shows "ledger_inv be M t D"
proof -
  have inv: "rv_inv s" and M: "M \<subseteq> mapped s" "\<forall>r \<in> set (live s). rs_range r \<inter> M = {}" using led by (simp_all add: ledger_inv_def)
  from inv show ?thesis
  proof (cases rule: shrink_cases [of s p old new])
    case (shrunk xs r k u)
    then have u: "u = t" using run by simp
    have "mapped t = mapped s" using shrunk(7,8) u by (simp add: mapped_def)
    then show ?thesis using M shrunk(1,6,7) u
      by (intro ledger_same [OF led]) (auto simp: direct_bytes_def)
  qed (use run led in simp_all)
qed

lemma ledger_release:
  assumes led: "ledger_inv be M s D" and run: "release p sz s = Some (b, t)"
  shows "ledger_inv be M t D"
proof -
  have inv: "rv_inv s" and M: "M \<subseteq> mapped s" "\<forall>r \<in> set (live s). rs_range r \<inter> M = {}" using led by (simp_all add: ledger_inv_def)
  from inv show ?thesis
  proof (cases rule: release_cases [of s p sz])
    case (released xs r ys k u)
    then have u: "u = t" using run by simp
    have mt: "mapped t = mapped s - rs_range r" "live t = xs @ ys" using released(6,7) u by (simp_all add: mapped_def)
    have "direct_bytes M t = direct_bytes M s" using mt released(1) by (auto simp: direct_bytes_def)
    moreover have "rs_range r \<inter> M = {}" using M(2) released(1) by simp
    ultimately show ?thesis using M mt released(1,5,7) u
      by (intro ledger_same [OF led]) auto
  qed (use run led in simp_all)
qed

lemma ledger_store:
  assumes led: "ledger_inv be M s D" and inv: "rv_inv (s\<lparr>mem := m\<rparr>)"
  shows "ledger_inv be M (s\<lparr>mem := m\<rparr>) D"
  using inv by (intro ledger_cong [OF led]) (simp_all add: mapped_def)

lemma store_direct_keeps:
  assumes led: "ledger_inv be M s D" and blk: "(p, sz) \<in> D" "p \<le> a" "a < p + sz"
  shows "rv_inv (s\<lparr>mem := (mem s)(a := v)\<rparr>)"
proof -
  obtain len where len: "page_round sz = Some len" "{p..<p + len} \<subseteq> direct_bytes M s" using ledger_block(2) [OF led blk(1)] by auto
  then have "a \<in> direct_bytes M s" using page_round_Some(1) [OF len(1)] blk(2,3) by auto
  then have out: "\<forall>r \<in> set (live s). a \<notin> rs_range r" by (auto simp: direct_bytes_def)
  have inv: "rv_inv s" using led by (simp add: ledger_inv_def)
  have "zero_tails ((mem s)(a := v)) (live s)"
    using inv out by (fastforce simp: rv_inv_def zero_tails_def live_ok_def list_all_iff rs_ok_def)
  then show ?thesis using rv_inv_kern [OF inv, of "kern s" "(mem s)(a := v)"] by (simp add: mapped_def)
qed

lemma ledger_step: "rv_step c c' \<Longrightarrow> ledger_inv be M (fst c) (snd c) \<Longrightarrow> ledger_inv be M (fst c') (snd c')"
proof (induction rule: rv_step.induct)
  case (store b n s a D v)
  then have "rv_inv (s\<lparr>mem := (mem s)(a := v)\<rparr>)" by (intro write_keeps) (auto simp: ledger_inv_def)
  then show ?case using store.prems by (simp add: ledger_store)
next
  case (store_direct p sz D a s v)
  then have "rv_inv (s\<lparr>mem := (mem s)(a := v)\<rparr>)" by (intro store_direct_keeps) auto
  then show ?case using store_direct.prems by (simp add: ledger_store)
next
  case (reset_peak s t D)
  then have t: "t = s\<lparr>peak := carved s + direct s\<rparr>" "rv_inv s"
    by (auto simp: reset_peak_def bind_eq_Some_conv ledger_inv_def)
  then have "rv_inv t" by (auto simp: rv_inv_def mapped_def)
  then have "ledger_inv be M t D" by (rule ledger_cong [of be M s, rotated]) (use reset_peak.prems t(1) in \<open>simp_all add: mapped_def\<close>)
  then show ?case by simp
next
  case (carve sz s r t D)
  then show ?case using ledger_carve by simp
next
  case (shrink p old new s b t D)
  then show ?case using ledger_shrink by simp
next
  case (release p sz s b t D)
  then show ?case using ledger_release by simp
next
  case (direct_alloc sz align s p t D)
  then show ?case using ledger_alloc [of be M s D sz align p t] by simp
next
  case (direct_free p sz D s t)
  then show ?case using ledger_free by simp
next
  case (direct_realloc p old D new align s q t)
  then show ?case using ledger_realloc [of be M s D p old new align q t] by simp
qed

lemma ledger_new: "backend_ok be \<Longrightarrow> PAGE dvd fl \<Longrightarrow> ledger_inv be (be_mapped be k) (reservations_new be fl k m) {}"
  by (simp add: ledger_inv_def rv_inv_def reservations_new_def live_ok_def zero_tails_def held_def direct_bytes_def mapped_def)

text \<open>The direct counter against the blocks of the program: it is at least the sum of their pages, and
  it is that sum when the kernel refuses no detach.\<close>

lemma ledger_total:
  assumes led: "ledger_inv be M s D"
  shows "(\<Sum>b \<in> D. card (block_pages b)) \<le> direct s"
    and "detaches be \<Longrightarrow> direct s = (\<Sum>b \<in> D. card (block_pages b))"
proof -
  have D: "finite D" "\<forall>b \<in> D. \<forall>c \<in> D. b \<noteq> c \<longrightarrow> block_pages b \<inter> block_pages c = {}" "\<Union> (block_pages ` D) \<subseteq> direct_bytes M s"
    "direct s = card (direct_bytes M s)" "finite (direct_bytes M s)"
    using led by (auto simp: ledger_inv_def intro: finite_subset)
  have "\<forall>b \<in> D. finite (block_pages b)" by (auto simp: block_pages_def split: option.splits)
  then have sum: "card (\<Union> (block_pages ` D)) = (\<Sum>b \<in> D. card (block_pages b))"
    using D(1,2) by (intro card_UN_disjoint) auto
  then show "(\<Sum>b \<in> D. card (block_pages b)) \<le> direct s" unfolding sum [symmetric] D(4) using D(3,5) by (intro card_mono)
  show "detaches be \<Longrightarrow> direct s = (\<Sum>b \<in> D. card (block_pages b))"
    using sum led by (simp add: ledger_inv_def)
qed

lemma ledger_no_panic:
  assumes led: "ledger_inv be M s D"
  shows "carve sz s \<noteq> None" "shrink p old new s \<noteq> None" "release p sz s \<noteq> None"
    and "0 < n \<Longrightarrow> direct_alloc n align s \<noteq> None"
    and "(q, m) \<in> D \<Longrightarrow> direct_free q m s \<noteq> None"
    and "(q, m) \<in> D \<Longrightarrow> 0 < n \<Longrightarrow> direct_realloc q m align n s \<noteq> None"
proof -
  have inv: "rv_inv s" using led by (simp add: ledger_inv_def)
  show "carve sz s \<noteq> None" "shrink p old new s \<noteq> None" "release p sz s \<noteq> None"
    using hs.alloc_law [OF inv, of sz] hs.free_part_law [OF inv, of p old new] hs.free_law [OF inv, of p sz] by auto
  show "0 < n \<Longrightarrow> direct_alloc n align s \<noteq> None"
    using inv by (cases rule: direct_alloc_cases [of s n align]) auto
  assume q: "(q, m) \<in> D"
  note blk = ledger_block(1) [OF led q]
  obtain len where len: "page_round m = Some len" using ledger_block(2) [OF led q] by auto
  show "direct_free q m s \<noteq> None" using inv blk len by (cases rule: direct_free_cases) auto
  assume n: "0 < n"
  from inv blk n len show "direct_realloc q m align n s \<noteq> None"
    by (cases rule: direct_realloc_cases [where align = align]) auto
qed

text \<open>C6. dlmalloc never sees two segments as one, the program's direct blocks stay its own, and the
  counters are exact and never overflow. Over a backend that keeps its contract, from a fresh heap
  and after any sequence of operations: at most 64 reservations are live and no segment ends where
  another begins; the pages of every direct block the program has are mapped, outside every
  reservation, apart from what was mapped before the heap and from the pages of every other block;
  the carved count is the sum of the segments; the direct count is the number of bytes mapped since
  the start outside the reservations, so at least the pages of the program's blocks, and exactly
  these when the kernel refuses no detach; the footprint is at most the peak and the peak far below
  the range of \<open>usize\<close>; and no operation can panic.\<close>

theorem reservations_reachable:
  assumes reach: "rv_step\<^sup>*\<^sup>* (reservations_new be fl k m, {}) (s, D)"
    and be: "backend_ok be" and fl: "PAGE dvd fl"
  shows "length (live s) \<le> 64 \<and>
    sorted_wrt (\<lambda>(b, n) (b', n'). b + n < b' \<or> b' + n' < b) (segments s) \<and>
    (\<forall>b \<in> D. block_pages b \<noteq> {} \<and>
       block_pages b \<subseteq> mapped s - be_mapped be k - (\<Union>r \<in> set (live s). {rs_base r..<rs_base r + rs_len r})) \<and>
    (\<forall>b \<in> D. \<forall>c \<in> D. b \<noteq> c \<longrightarrow> block_pages b \<inter> block_pages c = {}) \<and>
    carved s = sum_list (map snd (segments s)) \<and>
    direct s = card (mapped s - be_mapped be k - (\<Union>r \<in> set (live s). {rs_base r..<rs_base r + rs_len r})) \<and>
    (\<Sum>b \<in> D. card (block_pages b)) \<le> direct s \<and>
    ((\<forall>va len k. fst (be_detach be va len k)) \<longrightarrow> direct s = (\<Sum>b \<in> D. card (block_pages b))) \<and>
    carved s + direct s \<le> peak s \<and> peak s < usize_limit \<and>
    carve sz s \<noteq> None \<and> shrink p old new s \<noteq> None \<and> release p sz s \<noteq> None \<and>
    (0 < n \<longrightarrow> direct_alloc n align s \<noteq> None) \<and>
    (\<forall>(q, sz) \<in> D. direct_free q sz s \<noteq> None \<and> (0 < n \<longrightarrow> direct_realloc q sz align n s \<noteq> None))"
proof -
  have "ledger_inv be (be_mapped be k) (fst c) (snd c)"
    if "rv_step\<^sup>*\<^sup>* (reservations_new be fl k m, {}) c" for c
    using that
  proof (induction rule: rtranclp_induct)
    case base
    then show ?case using ledger_new [OF be fl] by simp
  next
    case (step c c')
    then show ?case using ledger_step by blast
  qed
  from this [OF reach] have led: "ledger_inv be (be_mapped be k) s D" by simp
  have inv: "rv_inv s" using led by (simp add: ledger_inv_def)
  have "\<forall>b \<in> D. block_pages b \<noteq> {} \<and> block_pages b \<subseteq> direct_bytes (be_mapped be k) s"
    using ledger_block(2) [OF led] by fastforce
  moreover have "carved s = sum_list (map snd (segments s))"
    using inv by (simp add: rv_inv_def held_def segments_def comp_def)
  moreover have "direct s = card (direct_bytes (be_mapped be k) s)"
    "\<forall>b \<in> D. \<forall>c \<in> D. b \<noteq> c \<longrightarrow> block_pages b \<inter> block_pages c = {}" using led by (simp_all add: ledger_inv_def)
  moreover have "peak s < usize_limit" using inv limits(1) by (simp add: rv_inv_def)
  moreover have "length (live s) \<le> 64" "carved s + direct s \<le> peak s" using inv by (simp_all add: rv_inv_def RESERVATIONS_MAX_def)
  ultimately show ?thesis
    using hs.segs_apart [OF inv] ledger_total [OF led] ledger_no_panic [OF led]
    by (auto simp: direct_bytes_def detaches_def)
qed

theorem reservations_reachable_witness:
  "\<exists>p t. direct_alloc 300000 16 (reservations_new demo_backend 65536 {} (\<lambda>_. 0)) = Some (p, t) \<and>
     direct t = card (mapped t - {} - (\<Union>r \<in> set (live t). {rs_base r..<rs_base r + rs_len r}))"
proof -
  let ?s = "reservations_new demo_backend 65536 {} (\<lambda>_. 0)"
  have fl: "PAGE dvd 65536" by (simp add: PAGE_def)
  have "direct_alloc 300000 16 ?s \<noteq> None"
    using reservations_reachable [where p = 0 and old = 0 and new = 0 and sz = 4096 and n = 300000 and align = 16,
        OF rtranclp.rtrancl_refl demo_backend_ok fl] by simp
  then obtain p t where t: "direct_alloc 300000 16 ?s = Some (p, t)" by auto
  then have "rv_step\<^sup>*\<^sup>* (?s, {}) (t, if p = 0 then {} else insert (p, 300000) {})"
    by (intro r_into_rtranclp rv_step.direct_alloc) simp_all
  from reservations_reachable [OF this demo_backend_ok fl] t show ?thesis by auto
qed

text \<open>What dlmalloc gives back leaves the heap, and nothing else does. A trim succeeds only on
  the newest segment, shortens it to what was asked and zeroes the pages given up; a release succeeds
  only on a whole segment, unmaps its reservation and forgets it. A call that reports failure changes
  nothing.\<close>

theorem give_back_exact:
  assumes "rv_inv s"
  shows "(\<exists>b t. shrink p old new s = Some (b, t) \<and> rv_inv t \<and>
      (if b \<and> new \<noteq> old
       then (\<exists>xs. segments s = xs @ [(p, old)] \<and> segments t = xs @ [(p, new)]) \<and>
            carved t + (old - new) = carved s \<and> mapped t = mapped s \<and>
            (\<forall>a. mem t a = (if p + new \<le> a \<and> a < p + old then 0 else mem s a))
       else t = s)) \<and>
    (\<exists>b t. release p sz s = Some (b, t) \<and> rv_inv t \<and>
      (if b
       then (\<exists>xs ys. segments s = xs @ (p, sz) # ys \<and> segments t = xs @ ys) \<and>
            carved t + sz = carved s \<and> mem t = mem s \<and> {p..<p + sz} \<inter> mapped t = {} \<and>
            mapped t \<subseteq> mapped s
       else t = s))"
proof
  show "\<exists>b t. shrink p old new s = Some (b, t) \<and> rv_inv t \<and>
      (if b \<and> new \<noteq> old
       then (\<exists>xs. segments s = xs @ [(p, old)] \<and> segments t = xs @ [(p, new)]) \<and>
            carved t + (old - new) = carved s \<and> mapped t = mapped s \<and>
            (\<forall>a. mem t a = (if p + new \<le> a \<and> a < p + old then 0 else mem s a))
       else t = s)"
    using assms
  proof (cases rule: shrink_cases [of s p old new])
    case (shrunk xs r k t)
    have "old - new \<le> carved s" using rv_inv_last(2) [OF assms shrunk(1)] shrunk(2-4) by simp
    with shrunk show ?thesis
      by (intro exI [of _ True] exI [of _ t]) (auto simp: segments_def zero_range_def mapped_def)
  qed (use assms in auto)
  show "\<exists>b t. release p sz s = Some (b, t) \<and> rv_inv t \<and>
      (if b
       then (\<exists>xs ys. segments s = xs @ (p, sz) # ys \<and> segments t = xs @ ys) \<and>
            carved t + sz = carved s \<and> mem t = mem s \<and> {p..<p + sz} \<inter> mapped t = {} \<and>
            mapped t \<subseteq> mapped s
       else t = s)"
    using assms
  proof (cases rule: release_cases [of s p sz])
    case (released xs r ys k t)
    have r: "rs_ok r" "sz \<le> carved s" using assms released(1-3)
      by (auto simp: rv_inv_def live_ok_def held_def)
    have "mapped t = mapped s - rs_range r" using released(6,7) by (simp add: mapped_def)
    moreover have "{p..<p + sz} \<subseteq> rs_range r" using r(1) released(2,3) by (auto simp: rs_ok_def)
    moreover have "segments s = map (\<lambda>r. (rs_base r, rs_bump r - rs_base r)) xs @ (p, sz)
        # map (\<lambda>r. (rs_base r, rs_bump r - rs_base r)) ys" "segments t =
        map (\<lambda>r. (rs_base r, rs_bump r - rs_base r)) xs @ map (\<lambda>r. (rs_base r, rs_bump r - rs_base r)) ys"
      using released(1-3,7) by (simp_all add: segments_def)
    ultimately show ?thesis
      using released(4,5,7) r(2) by (intro exI [of _ True] exI [of _ t]) auto
  qed (use assms in auto)
qed

theorem give_back_exact_witness: "\<exists>b t. release 4096 4096 demo_heap = Some (b, t) \<and> rv_inv t"
  using give_back_exact [OF demo_heap_inv(1), of 4096 0 0 4096] by blast

text \<open>C39. A direct block is fresh, zeroed, aligned and counted. From any state in which the
  invariant holds, \<open>direct_alloc\<close> returns null and leaves the mappings, the memory and the count
  as they were, or a non-null address aligned as asked (to the power of two \<open>2 ^ k\<close> when that
  passes a page), whose page-rounded range was not mapped before, reads as zero and is counted in
  the footprint before it is returned.\<close>

theorem direct_alloc_safe:
  assumes "rv_inv s" and "0 < sz" and "k < 64"
  shows "\<exists>p t. direct_alloc sz (2 ^ k) s = Some (p, t) \<and> rv_inv t \<and>
    (if p = 0 then direct t = direct s \<and> mapped t = mapped s \<and> mem t = mem s
     else \<exists>len. page_round sz = Some len \<and> sz \<le> len \<and> len < sz + PAGE \<and>
       PAGE dvd p \<and> 2 ^ k dvd p \<and>
       {p..<p + len} \<inter> mapped s = {} \<and> mapped t = mapped s \<union> {p..<p + len} \<and>
       (\<forall>a. mem t a = (if p \<le> a \<and> a < p + len then 0 else mem s a)) \<and>
       direct t = direct s + len \<and> carved s + direct s + len \<le> peak t)"
  using assms(1,2)
proof (cases rule: direct_alloc_cases [of s sz "2 ^ k"])
  case (refused t)
  then show ?thesis by (intro exI [of _ 0] exI [of _ t]) (simp add: mapped_def)
next
  case (granted va len kk t)
  have "2 ^ k dvd va" using aligned_power [OF granted(5,6) assms(3)] .
  with granted page_round_Some [OF granted(3)] show ?thesis
    by (intro exI [of _ va] exI [of _ t]) (auto simp: zero_range_def)
qed

theorem direct_alloc_safe_witness: "\<exists>p t. direct_alloc 300000 (2 ^ 14) demo_heap = Some (p, t) \<and> rv_inv t"
  using direct_alloc_safe [OF demo_heap_inv(1), of 300000 14] by auto

text \<open>What the program reads at an address: nothing where no page is mapped.\<close>

definition byte_at :: "'k reservations \<Rightarrow> nat \<Rightarrow> u8 option" where
  "byte_at s a = (if a \<in> mapped s then Some (mem s a) else None)"

text \<open>C40. Reallocating a direct block keeps its contents, and everyone else's. For a direct block of
  the caller, \<open>direct_realloc\<close> never panics and keeps the invariant. When it returns null, every byte
  reads as before and the count is as before. When it returns a block, that block is mapped to its last page and its first \<open>min old new\<close>
  bytes read as those of the old block; a moved block is aligned as asked, lies where nothing was mapped and reads as
  zero past what was copied; every byte outside the old block reads as before; nothing but the new block
  is newly mapped; and the count changes by exactly the bytes that were mapped and unmapped.\<close>

theorem direct_realloc_keeps:
  assumes inv: "rv_inv s" and blk: "direct_block s p old" and old: "page_round old = Some m"
    and pos: "0 < old" "0 < new" and k: "k < 64"
  shows "\<exists>q t. direct_realloc p old (2 ^ k) new s = Some (q, t) \<and> rv_inv t \<and>
    (if q = 0 then byte_at t = byte_at s \<and> direct t = direct s
     else \<exists>n. page_round new = Some n \<and> {q..<q + n} \<subseteq> mapped t \<and>
       (\<forall>i < min old new. byte_at s (p + i) \<noteq> None \<and> byte_at t (q + i) = byte_at s (p + i)) \<and>
       (q \<noteq> p \<longrightarrow> PAGE dvd q \<and> 2 ^ k dvd q \<and> {q..<q + n} \<inter> mapped s = {} \<and>
          (\<forall>i < n. min old new \<le> i \<longrightarrow> byte_at t (q + i) = Some 0)) \<and>
       (\<forall>a. a \<notin> {p..<p + m} \<longrightarrow> a \<notin> {q..<q + n} \<longrightarrow> byte_at t a = byte_at s a) \<and>
       mapped t \<subseteq> mapped s \<union> {q..<q + n} \<and>
       direct t + card (mapped s - mapped t) = direct s + card (mapped t - mapped s))"
proof -
  have P: "{p..<p + m} \<subseteq> mapped s" "old \<le> m" using blk old page_round_Some(1) by (auto simp: direct_block_def)
  from inv blk pos(2) old show ?thesis
  proof (cases rule: direct_realloc_cases [where align = "2 ^ k"])
    case (null t)
    then show ?thesis by (intro exI [of _ 0] exI [of _ t]) (simp add: byte_at_def fun_eq_iff)
  next
    case (kept n t)
    have "new \<le> n" using page_round_Some(1) [OF kept(5)] .
    then have same: "byte_at s (p + i) \<noteq> None \<and> byte_at t (p + i) = byte_at s (p + i)" if "i < min old new" for i
    proof -
      have "p + i \<in> {p..<p + m}" "p + i \<notin> {p + n..<p + m}" using that P(2) \<open>new \<le> n\<close> by auto
      then show ?thesis using P(1) kept(8,9) by (auto simp: byte_at_def)
    qed
    have diff: "mapped s - mapped t = {p + n..<p + m}" "mapped t - mapped s = {}" using kept(6,9) P(1) by auto
    have count: "direct t + card (mapped s - mapped t) = direct s + card (mapped t - mapped s)" unfolding diff using kept(10) by simp
    have stays: "{p..<p + n} \<subseteq> mapped t" using kept(6,9) P(1) by auto
    have "byte_at t a = byte_at s a" if "a \<notin> {p..<p + m}" for a using that kept(6,8,9) by (auto simp: byte_at_def)
    then show ?thesis using kept(1,2,5,7,9) same count stays
      by (intro exI [of _ p] exI [of _ t]) auto
  next
    case (moved q n t A)
    have n: "new \<le> n" using page_round_Some(1) [OF moved(5)] .
    have A: "A \<subseteq> {p..<p + m}" using moved(12) by auto
    then have gone: "mapped s - mapped t = A" "mapped t - mapped s = {q..<q + n}"
      using moved(10,13) P(1) by auto
    have Q: "{q..<q + n} \<subseteq> mapped t" using moved(10,13) A P(1) by blast
    have "q \<noteq> p"
    proof
      assume "q = p"
      moreover have "q \<in> {q..<q + n}" "p \<in> {p..<p + m}" using n P(2) pos by auto
      ultimately show False using moved(10) P(1) by blast
    qed
    have copied: "byte_at s (p + i) \<noteq> None \<and> byte_at t (q + i) = byte_at s (p + i)" if "i < min old new" for i
    proof -
      have "p + i \<in> mapped s" "q + i \<in> {q..<q + n}" using P that n by auto
      then show ?thesis using Q that moved(10,11) by (auto simp: byte_at_def copy_mem_def zero_range_def)
    qed
    have "2 ^ k dvd q" using aligned_power [OF moved(7,8) k] .
    moreover have "byte_at t (q + i) = Some 0" if "i < n" "min old new \<le> i" for i
    proof -
      have "q + i \<in> mapped t" using Q that by auto
      moreover have "mem t (q + i) = zero_range q n (mem s) (q + i)"
        unfolding moved(11) using that(2) by (auto simp: copy_mem_def)
      ultimately show ?thesis using that(1) by (simp add: byte_at_def zero_range_def)
    qed
    moreover have "byte_at t a = byte_at s a" if "a \<notin> {p..<p + m}" "a \<notin> {q..<q + n}" for a
    proof -
      have "a \<in> mapped t \<longleftrightarrow> a \<in> mapped s" using that A moved(13) by blast
      moreover have "mem t a = mem s a" using that(2) n moved(11) by (auto simp: copy_mem_def zero_range_def)
      ultimately show ?thesis by (simp add: byte_at_def)
    qed
    moreover have "direct t + card (mapped s - mapped t) = direct s + card (mapped t - mapped s)" using gone moved(14) by simp
    moreover have "mapped t \<subseteq> mapped s \<union> {q..<q + n}" using moved(13) by blast
    ultimately have "page_round new = Some n \<and> {q..<q + n} \<subseteq> mapped t \<and>
       (\<forall>i < min old new. byte_at s (p + i) \<noteq> None \<and> byte_at t (q + i) = byte_at s (p + i)) \<and>
       (q \<noteq> p \<longrightarrow> PAGE dvd q \<and> 2 ^ k dvd q \<and> {q..<q + n} \<inter> mapped s = {} \<and>
          (\<forall>i < n. min old new \<le> i \<longrightarrow> byte_at t (q + i) = Some 0)) \<and>
       (\<forall>a. a \<notin> {p..<p + m} \<longrightarrow> a \<notin> {q..<q + n} \<longrightarrow> byte_at t a = byte_at s a) \<and>
       mapped t \<subseteq> mapped s \<union> {q..<q + n} \<and>
       direct t + card (mapped s - mapped t) = direct s + card (mapped t - mapped s)"
      using moved(5,7,10) Q copied by blast
    then show ?thesis using moved(1,2,6) by (intro exI [of _ q] exI [of _ t]) auto
  qed
qed

theorem direct_realloc_keeps_witness:
  "\<exists>q t. direct_realloc (2 ^ 30) (65 * 4096) (2 ^ 4) (100 * 4096) demo_heap = Some (q, t) \<and> rv_inv t"
proof -
  have "page_round (65 * 4096) = Some (65 * 4096)" by (simp add: page_round_eq usize_limit_def)
  from direct_realloc_keeps [OF demo_heap_inv this, of "100 * 4096" 4] show ?thesis by auto
qed

end
