(* ===== verification/Rust_Text.thy ===== *)
theory Rust_Text
  imports Thyla_Base
begin

text \<open>
  The parts of Rust's string and number library that the text formats of the driver
  framework use: splitting, prefixes, trimming, decimal and radix conversion, UTF-8
  validation. A \<open>str\<close> is a \<^typ>\<open>string\<close> whose characters are the bytes of its UTF-8
  encoding. Splitting at an ASCII character is the same on the bytes and on the
  characters, because no byte of a multi-byte character is ASCII.

  The contract of one item of a delimited list, a printer and the parser that undoes it,
  is the locale \<open>text_item\<close>; that a whole list survives printing and parsing is proved
  once in it.
\<close>

section \<open>Splitting\<close>

fun split_on :: "char \<Rightarrow> string \<Rightarrow> string list" where
  "split_on c [] = [[]]"
| "split_on c (x # xs) =
     (if x = c then [] # split_on c xs
      else case split_on c xs of [] \<Rightarrow> [[x]] | h # t \<Rightarrow> (x # h) # t)"

fun split_once :: "char \<Rightarrow> string \<Rightarrow> (string \<times> string) option" where
  "split_once c [] = None"
| "split_once c (x # xs) =
     (if x = c then Some ([], xs) else map_option (\<lambda>(a, b). (x # a, b)) (split_once c xs))"

fun strip_prefix :: "string \<Rightarrow> string \<Rightarrow> string option" where
  "strip_prefix [] s = Some s"
| "strip_prefix (p # ps) [] = None"
| "strip_prefix (p # ps) (x # xs) = (if p = x then strip_prefix ps xs else None)"

lemma strip_prefix_Some: "strip_prefix p s = Some r \<longleftrightarrow> s = p @ r"
  by (induction p s rule: strip_prefix.induct) auto

text \<open>\<open>str::replace\<close> with a non-empty pattern: the matches from left to right.\<close>

function replace_all :: "string \<Rightarrow> string \<Rightarrow> string \<Rightarrow> string" where
  "replace_all pat new s =
     (case s of
        [] \<Rightarrow> []
      | x # xs \<Rightarrow>
          (case strip_prefix pat s of
             Some rest \<Rightarrow> if pat = [] then s else new @ replace_all pat new rest
           | None \<Rightarrow> x # replace_all pat new xs))"
  by auto

termination
  by (relation "measure (\<lambda>(_, _, s). length s)") (auto simp: strip_prefix_Some)

declare replace_all.simps [simp del]

text \<open>The pieces written one after the other with a separator between them, as the
  encoders' loops do.\<close>

fun join_with :: "string \<Rightarrow> string list \<Rightarrow> string" where
  "join_with sep [] = []"
| "join_with sep [x] = x"
| "join_with sep (x # y # ys) = x @ sep @ join_with sep (y # ys)"

lemma split_on_ne [simp]: "split_on c s \<noteq> []"
  by (induction s) (auto split: list.splits)

lemma split_on_none: "c \<notin> set s \<Longrightarrow> split_on c s = [s]"
  by (induction s) auto

lemma split_on_append: "c \<notin> set s \<Longrightarrow> split_on c (s @ c # t) = s # split_on c t"
  by (induction s) auto

lemma split_once_append: "c \<notin> set s \<Longrightarrow> split_once c (s @ c # t) = Some (s, t)"
  by (induction s) auto

lemma split_once_Some: "split_once c s = Some (a, b) \<Longrightarrow> s = a @ c # b \<and> c \<notin> set a"
  by (induction s arbitrary: a) (auto split: if_splits)

lemma split_join:
  assumes "\<forall>x \<in> set xs. c \<notin> set x" and "xs \<noteq> []"
  shows "split_on c (join_with [c] xs) = xs"
  using assms by (induction "[c]" xs rule: join_with.induct)
    (auto simp: split_on_none split_on_append)

lemma set_join: "set (join_with sep xs) \<subseteq> set sep \<union> \<Union> (set ` set xs)"
  by (induction sep xs rule: join_with.induct) auto

lemma in_join: "c \<in> set (join_with sep xs) \<Longrightarrow> c \<in> set sep \<or> (\<exists>x \<in> set xs. c \<in> set x)"
  using set_join [of sep xs] by auto

lemma strip_prefix_append [simp]: "strip_prefix p (p @ r) = Some r"
  by (simp add: strip_prefix_Some)

section \<open>Numbers\<close>

abbreviation ord :: "char \<Rightarrow> nat" where
  "ord c \<equiv> of_char c"

text \<open>\<open>char::to_digit\<close> for a radix up to 36.\<close>

definition to_digit :: "nat \<Rightarrow> char \<Rightarrow> nat option" where
  "to_digit radix c =
     (let d = (if 48 \<le> ord c \<and> ord c \<le> 57 then ord c - 48
               else if 97 \<le> ord c \<and> ord c \<le> 122 then ord c - 87
               else if 65 \<le> ord c \<and> ord c \<le> 90 then ord c - 55
               else radix)
      in if d < radix then Some d else None)"

text \<open>\<open>from_str_radix\<close> of an unsigned type below \<open>lim\<close>: an optional plus sign, at least one
  digit, each step checked for overflow.\<close>

fun parse_digits :: "nat \<Rightarrow> nat \<Rightarrow> nat \<Rightarrow> string \<Rightarrow> nat option" where
  "parse_digits radix lim acc [] = Some acc"
| "parse_digits radix lim acc (c # cs) = do {
     d \<leftarrow> to_digit radix c;
     if acc * radix < lim \<and> acc * radix + d < lim
     then parse_digits radix lim (acc * radix + d) cs else None
   }"

definition from_str_radix :: "nat \<Rightarrow> nat \<Rightarrow> string \<Rightarrow> nat option" where
  "from_str_radix radix lim s =
     (case s of
        [] \<Rightarrow> None
      | c # cs \<Rightarrow>
          if c = CHR ''+'' then (if cs = [] then None else parse_digits radix lim 0 cs)
          else parse_digits radix lim 0 s)"

abbreviation parse_u16 :: "string \<Rightarrow> u16 option" where
  "parse_u16 s \<equiv> map_option of_nat (from_str_radix 10 (2 ^ 16) s)"
abbreviation parse_u32 :: "string \<Rightarrow> u32 option" where
  "parse_u32 s \<equiv> map_option of_nat (from_str_radix 10 (2 ^ 32) s)"
abbreviation parse_u64 :: "string \<Rightarrow> u64 option" where
  "parse_u64 s \<equiv> map_option of_nat (from_str_radix 10 (2 ^ 64) s)"

text \<open>\<open>to_string\<close> of an unsigned number.\<close>

definition digit_char :: "nat \<Rightarrow> char" where
  "digit_char d = (if d < 10 then char_of (48 + d) else char_of (87 + d))"

function digits_of :: "nat \<Rightarrow> nat \<Rightarrow> string" where
  "digits_of radix n =
     (if radix < 2 \<or> n < radix then [digit_char n]
      else digits_of radix (n div radix) @ [digit_char (n mod radix)])"
  by auto
termination by (relation "measure snd") auto

declare digits_of.simps [simp del]

definition show_nat :: "nat \<Rightarrow> string" where
  "show_nat n = digits_of 10 n"

lemma digits_of_ne [simp]: "digits_of r n \<noteq> []"
  by (subst digits_of.simps) simp

lemma show_nat_ne [simp]: "show_nat n \<noteq> []"
  by (simp add: show_nat_def)

lemma to_digit_char: "d < radix \<Longrightarrow> radix \<le> 16 \<Longrightarrow> to_digit radix (digit_char d) = Some d"
  by (auto simp: to_digit_def digit_char_def Let_def)

lemma parse_digits_append:
  "parse_digits r lim acc (xs @ ys) = Option.bind (parse_digits r lim acc xs) (\<lambda>a. parse_digits r lim a ys)"
proof (induction xs arbitrary: acc)
  case (Cons x xs)
  then show ?case by (cases "to_digit r x") auto
qed simp

lemma parse_digits_of:
  assumes "2 \<le> r" and "r \<le> 16" and "n < lim"
  shows "parse_digits r lim 0 (digits_of r n) = Some n"
  using assms
proof (induction r n rule: digits_of.induct)
  case (1 r n)
  show ?case
  proof (cases "n < r")
    case True
    with 1 show ?thesis by (subst digits_of.simps) (simp add: to_digit_char)
  next
    case False
    have "n div r * r + n mod r = n" by simp
    then have "n div r * r \<le> n" by linarith
    moreover have "n div r \<le> n" by simp
    ultimately have "n div r * r < lim" "n div r < lim" using 1(4) by linarith+
    with False 1 show ?thesis
      by (subst digits_of.simps) (simp add: parse_digits_append to_digit_char)
  qed
qed

text \<open>The characters of a printed number: lowercase hexadecimal digits, so never a
  delimiter, a sign or the \<open>x\<close> of a prefix.\<close>

definition is_digit_char :: "char \<Rightarrow> bool" where
  "is_digit_char c \<longleftrightarrow> 48 \<le> ord c \<and> ord c \<le> 57 \<or> 97 \<le> ord c \<and> ord c \<le> 102"

lemma digits_of_chars:
  assumes "2 \<le> r" and "r \<le> 16"
  shows "c \<in> set (digits_of r n) \<Longrightarrow> is_digit_char c"
  using assms
proof (induction r n rule: digits_of.induct)
  case (1 r n)
  have digit: "is_digit_char (digit_char d)" if "d < r" for d
    using that 1 by (auto simp: is_digit_char_def digit_char_def)
  have "n mod r < r" using 1 by simp
  with 1 digit show ?case
    by (subst (asm) digits_of.simps) (auto split: if_splits)
qed

lemma not_digit_char [simp]:
  "\<not> is_digit_char CHR '';''" "\<not> is_digit_char CHR '',''" "\<not> is_digit_char CHR '':''"
  "\<not> is_digit_char CHR ''=''" "\<not> is_digit_char CHR ''.''" "\<not> is_digit_char CHR ''x''"
  "\<not> is_digit_char CHR ''X''" "\<not> is_digit_char CHR ''+''" "\<not> is_digit_char CHR ''\"''"
  by (simp_all add: is_digit_char_def)

lemma show_nat_chars: "c \<in> set (show_nat n) \<Longrightarrow> is_digit_char c"
  using digits_of_chars [of 10 c n] by (simp add: show_nat_def)

lemma from_str_radix_digits:
  assumes "2 \<le> r" and "r \<le> 16" and "n < lim"
  shows "from_str_radix r lim (digits_of r n) = Some n"
proof -
  obtain c cs where s: "digits_of r n = c # cs" by (cases "digits_of r n") auto
  then have "is_digit_char c" using digits_of_chars [OF assms(1,2), of c n] by simp
  then have "c \<noteq> CHR ''+''" by (auto simp: is_digit_char_def)
  with s parse_digits_of [OF assms] show ?thesis by (simp add: from_str_radix_def)
qed

lemma from_show_nat [simp]: "n < lim \<Longrightarrow> from_str_radix 10 lim (show_nat n) = Some n"
  by (simp add: show_nat_def from_str_radix_digits)

definition is_ascii_digit :: "char \<Rightarrow> bool" where
  "is_ascii_digit c \<longleftrightarrow> 48 \<le> ord c \<and> ord c \<le> 57"

lemma show_nat_decimal: "list_all is_ascii_digit (show_nat n)"
proof -
  have "c \<in> set (digits_of r m) \<Longrightarrow> r = 10 \<Longrightarrow> is_ascii_digit c" for c r m
  proof (induction r m rule: digits_of.induct)
    case (1 r m)
    have digit: "is_ascii_digit (digit_char d)" if "d < 10" for d
      using that by (simp add: is_ascii_digit_def digit_char_def)
    show ?case using 1 digit by (subst (asm) digits_of.simps) (auto split: if_splits)
  qed
  then show ?thesis by (auto simp: list_all_iff show_nat_def)
qed

lemma show_nat_length: "n < 10 ^ k \<Longrightarrow> 0 < k \<Longrightarrow> length (show_nat n) \<le> k"
proof -
  have "r = 10 \<Longrightarrow> n < 10 ^ k \<Longrightarrow> 0 < k \<Longrightarrow> length (digits_of r n) \<le> k" for r
  proof (induction r n arbitrary: k rule: digits_of.induct)
    case (1 r n)
    show ?case
    proof (cases "n < r")
      case False
      then obtain j where k: "k = Suc j" "0 < j" using 1(2-4) by (cases k; cases "k - 1") auto
      then have "n div r < 10 ^ j" using 1(2,3) by (simp add: div_less_iff_less_mult mult.commute)
      then have "length (digits_of r (n div r)) \<le> j" using 1 False k by simp
      then show ?thesis using False k 1(2) by (subst digits_of.simps) simp
    qed (use 1 in \<open>subst digits_of.simps, simp\<close>)
  qed
  then show "n < 10 ^ k \<Longrightarrow> 0 < k \<Longrightarrow> length (show_nat n) \<le> k" by (simp add: show_nat_def)
qed

lemma take_drop_all:
  assumes "list_all P w" and "rest = [] \<or> \<not> P (hd rest)"
  shows "takeWhile P (w @ rest) = w" "dropWhile P (w @ rest) = rest"
  using assms by (induction w; cases rest; simp)+

definition is_ascii_whitespace :: "char \<Rightarrow> bool" where
  "is_ascii_whitespace c \<longleftrightarrow> ord c \<in> {0x09, 0x0A, 0x0C, 0x0D, 0x20}"

section \<open>UTF-8 and white space\<close>

text \<open>\<open>core::str::from_utf8\<close>: the well-formed byte sequences of the Unicode standard.\<close>

definition is_cont :: "nat \<Rightarrow> bool" where
  "is_cont b \<longleftrightarrow> 0x80 \<le> b \<and> b \<le> 0xBF"

fun utf8_bytes :: "nat list \<Rightarrow> bool" where
  "utf8_bytes [] = True"
| "utf8_bytes (a # xs) =
     (if a < 0x80 then utf8_bytes xs
      else case xs of
        [] \<Rightarrow> False
      | b # ys \<Rightarrow>
          if 0xC2 \<le> a \<and> a \<le> 0xDF then is_cont b \<and> utf8_bytes ys
          else case ys of
            [] \<Rightarrow> False
          | c # zs \<Rightarrow>
              if 0xE0 \<le> a \<and> a \<le> 0xEF then
                (if a = 0xE0 then 0xA0 \<le> b \<and> b \<le> 0xBF
                 else if a = 0xED then 0x80 \<le> b \<and> b \<le> 0x9F
                 else is_cont b) \<and> is_cont c \<and> utf8_bytes zs
              else case zs of
                [] \<Rightarrow> False
              | d # ws \<Rightarrow>
                  0xF0 \<le> a \<and> a \<le> 0xF4 \<and>
                  (if a = 0xF0 then 0x90 \<le> b \<and> b \<le> 0xBF
                   else if a = 0xF4 then 0x80 \<le> b \<and> b \<le> 0x8F
                   else is_cont b) \<and> is_cont c \<and> is_cont d \<and> utf8_bytes ws)"

definition utf8_ok :: "string \<Rightarrow> bool" where
  "utf8_ok s = utf8_bytes (map of_char s)"

lemma utf8_ascii: "list_all (\<lambda>c. ord c < 128) s \<Longrightarrow> utf8_ok s"
  unfolding utf8_ok_def by (induction s) auto

text \<open>One well-formed character; a well-formed sequence is a sequence of those.\<close>

definition utf8_unit :: "nat list \<Rightarrow> bool" where
  "utf8_unit w =
     (case w of
        [a] \<Rightarrow> a < 0x80
      | [a, b] \<Rightarrow> 0xC2 \<le> a \<and> a \<le> 0xDF \<and> is_cont b
      | [a, b, c] \<Rightarrow> 0xE0 \<le> a \<and> a \<le> 0xEF \<and> is_cont c \<and>
          (if a = 0xE0 then 0xA0 \<le> b \<and> b \<le> 0xBF else if a = 0xED then 0x80 \<le> b \<and> b \<le> 0x9F else is_cont b)
      | [a, b, c, d] \<Rightarrow> 0xF0 \<le> a \<and> a \<le> 0xF4 \<and> is_cont c \<and> is_cont d \<and>
          (if a = 0xF0 then 0x90 \<le> b \<and> b \<le> 0xBF else if a = 0xF4 then 0x80 \<le> b \<and> b \<le> 0x8F else is_cont b)
      | _ \<Rightarrow> False)"

lemma utf8_bytes_cases:
  "a < 0x80 \<Longrightarrow> utf8_bytes (a # s) = utf8_bytes s"
  "0xC2 \<le> a \<Longrightarrow> a \<le> 0xDF \<Longrightarrow> utf8_bytes (a # b # s) = (utf8_unit [a, b] \<and> utf8_bytes s)"
  "0xE0 \<le> a \<Longrightarrow> a \<le> 0xEF \<Longrightarrow> utf8_bytes (a # b # c # s) = (utf8_unit [a, b, c] \<and> utf8_bytes s)"
  "0xF0 \<le> a \<Longrightarrow> a \<le> 0xF4 \<Longrightarrow> utf8_bytes (a # b # c # d # s) = (utf8_unit [a, b, c, d] \<and> utf8_bytes s)"
  by (subst utf8_bytes.simps, simp add: utf8_unit_def conj_ac del: utf8_bytes.simps)+

lemma utf8_unit_cases:
  assumes "utf8_unit w"
  obtains a where "w = [a]" "a < 0x80" | a b where "w = [a, b]" "0xC2 \<le> a" "a \<le> 0xDF"
    | a b c where "w = [a, b, c]" "0xE0 \<le> a" "a \<le> 0xEF" | a b c d where "w = [a, b, c, d]" "0xF0 \<le> a" "a \<le> 0xF4"
  using assms unfolding utf8_unit_def by (auto split: list.splits)

lemma utf8_unit_append: "utf8_unit w \<Longrightarrow> utf8_bytes (w @ s) = utf8_bytes s"
proof -
  assume u: "utf8_unit w"
  then show ?thesis by (cases rule: utf8_unit_cases) (use u in \<open>simp_all add: utf8_bytes_cases del: utf8_bytes.simps\<close>)
qed

lemma utf8_bytes_shapes:
  assumes "utf8_bytes (a # xs)"
  obtains "a < 0x80" | b ys where "xs = b # ys" "0xC2 \<le> a" "a \<le> 0xDF"
    | b c zs where "xs = b # c # zs" "0xE0 \<le> a" "a \<le> 0xEF" | b c d ws where "xs = b # c # d # ws" "0xF0 \<le> a" "a \<le> 0xF4"
proof (cases "a < 0x80")
  case False
  with assms obtain b ys where xs: "xs = b # ys" by (cases xs) simp_all
  show ?thesis
  proof (cases "0xC2 \<le> a \<and> a \<le> 0xDF")
    case no2: False
    then obtain c zs where ys: "ys = c # zs" using assms False xs by (cases ys) (simp_all split: if_splits)
    show ?thesis
    proof (cases "0xE0 \<le> a \<and> a \<le> 0xEF")
      case no3: False
      then obtain d ws where zs: "zs = d # ws" using assms False xs ys no2 by (cases zs) (simp_all split: if_splits)
      have "0xF0 \<le> a \<and> a \<le> 0xF4"
        using assms unfolding xs ys zs by (subst (asm) utf8_bytes.simps) (simp add: False no2 no3 del: utf8_bytes.simps)
      then show ?thesis using that(4) xs ys zs by blast
    qed (use that(3) xs ys in blast)
  qed (use that(2) xs in blast)
qed (use that(1) in blast)

lemma utf8_first: "utf8_bytes (a # xs) \<Longrightarrow> \<exists>w s. a # xs = w @ s \<and> utf8_unit w \<and> utf8_bytes s"
proof -
  assume u: "utf8_bytes (a # xs)"
  then show ?thesis
  proof (cases rule: utf8_bytes_shapes)
    case 1
    then show ?thesis using u by (intro exI [of _ "[a]"] exI [of _ xs]) (simp add: utf8_bytes_cases utf8_unit_def del: utf8_bytes.simps)
  next
    case (2 b ys)
    then show ?thesis using u by (intro exI [of _ "[a, b]"] exI [of _ ys]) (simp add: utf8_bytes_cases del: utf8_bytes.simps)
  next
    case (3 b c zs)
    then show ?thesis using u by (intro exI [of _ "[a, b, c]"] exI [of _ zs]) (simp add: utf8_bytes_cases del: utf8_bytes.simps)
  next
    case (4 b c d ws)
    then show ?thesis using u by (intro exI [of _ "[a, b, c, d]"] exI [of _ ws]) (simp add: utf8_bytes_cases del: utf8_bytes.simps)
  qed
qed

definition utf8_char :: "string \<Rightarrow> bool" where
  "utf8_char w = utf8_unit (map of_char w)"

lemma utf8_char_ne: "utf8_char w \<Longrightarrow> w \<noteq> []"
  by (auto simp: utf8_char_def utf8_unit_def)

lemma utf8_char_append: "utf8_char w \<Longrightarrow> utf8_ok (w @ s) = utf8_ok s"
  by (simp add: utf8_char_def utf8_ok_def utf8_unit_append)

lemma utf8_induct [consumes 1, case_names Nil char]:
  assumes "utf8_ok s" and "P []" and "\<And>w s. utf8_char w \<Longrightarrow> utf8_ok s \<Longrightarrow> P s \<Longrightarrow> P (w @ s)"
  shows "P s"
  using assms(1)
proof (induction s rule: length_induct)
  case (1 s)
  show ?case
  proof (cases s)
    case (Cons c cs)
    then have "utf8_bytes (ord c # map of_char cs)" using 1(2) by (simp add: utf8_ok_def)
    from utf8_first [OF this] obtain w t where "map of_char s = w @ t" "utf8_unit w" "utf8_bytes t" by (auto simp: Cons)
    then obtain w' t' where p: "s = w' @ t'" "w = map of_char w'" "t = map of_char t'" by (metis map_eq_append_conv)
    then have ok: "utf8_char w'" "utf8_ok t'" using \<open>utf8_unit w\<close> \<open>utf8_bytes t\<close> by (simp_all add: utf8_char_def utf8_ok_def)
    then have "P t'" using 1(1) p(1) utf8_char_ne [OF ok(1)] by simp
    then show ?thesis using assms(3) ok p(1) by simp
  qed (simp add: assms(2))
qed

lemma utf8_append: "utf8_ok a \<Longrightarrow> utf8_ok b \<Longrightarrow> utf8_ok (a @ b)"
  by (induction a rule: utf8_induct) (simp_all add: utf8_char_append)

text \<open>The encodings of the characters with the property \<open>White_Space\<close>, by their first
  byte: \<open>ws_head s\<close> is the number of bytes of the white space character \<open>s\<close> starts with,
  0 if it starts with none.\<close>

definition ws1 :: "nat \<Rightarrow> bool" where
  "ws1 a \<longleftrightarrow> 9 \<le> a \<and> a \<le> 13 \<or> a = 32"

definition ws2 :: "nat \<Rightarrow> nat \<Rightarrow> bool" where
  "ws2 a b \<longleftrightarrow> a = 0xC2 \<and> (b = 0x85 \<or> b = 0xA0)"

definition ws3 :: "nat \<Rightarrow> nat \<Rightarrow> nat \<Rightarrow> bool" where
  "ws3 a b c \<longleftrightarrow> a = 0xE1 \<and> b = 0x9A \<and> c = 0x80 \<or>
     a = 0xE2 \<and> b = 0x80 \<and> (0x80 \<le> c \<and> c \<le> 0x8A \<or> c = 0xA8 \<or> c = 0xA9 \<or> c = 0xAF) \<or>
     a = 0xE2 \<and> b = 0x81 \<and> c = 0x9F \<or> a = 0xE3 \<and> b = 0x80 \<and> c = 0x80"

definition ws_head :: "string \<Rightarrow> nat" where
  "ws_head s =
     (case map of_char s of
        [] \<Rightarrow> 0
      | [a] \<Rightarrow> if ws1 a then 1 else 0
      | [a, b] \<Rightarrow> if ws1 a then 1 else if ws2 a b then 2 else 0
      | a # b # c # _ \<Rightarrow> if ws1 a then 1 else if ws2 a b then 2 else if ws3 a b c then 3 else 0)"

text \<open>The same at the end of a string, on the reversed string.\<close>

definition ws_last :: "string \<Rightarrow> nat" where
  "ws_last s =
     (case map of_char s of
        [] \<Rightarrow> 0
      | [a] \<Rightarrow> if ws1 a then 1 else 0
      | [b, a] \<Rightarrow> if ws1 b then 1 else if ws2 a b then 2 else 0
      | c # b # a # _ \<Rightarrow> if ws1 c then 1 else if ws2 b c then 2 else if ws3 a b c then 3 else 0)"

lemma ws_head_le: "ws_head s \<le> length s" "ws_last s \<le> length s"
  by (cases s rule: remdups_adj.cases; auto simp: ws_head_def ws_last_def split: list.splits)+

function trim_start :: "string \<Rightarrow> string" where
  "trim_start s = (if ws_head s = 0 then s else trim_start (drop (ws_head s) s))"
  by auto
termination
proof (relation "measure length", goal_cases)
  case (2 s)
  then show ?case using ws_head_le(1) [of s] by auto
qed simp

function trim_rev :: "string \<Rightarrow> string" where
  "trim_rev s = (if ws_last s = 0 then s else trim_rev (drop (ws_last s) s))"
  by auto
termination
proof (relation "measure length", goal_cases)
  case (2 s)
  then show ?case using ws_head_le(2) [of s] by auto
qed simp

declare trim_start.simps [simp del] trim_rev.simps [simp del]

definition trim :: "string \<Rightarrow> string" where
  "trim s = rev (trim_rev (rev (trim_start s)))"

text \<open>\<open>split_whitespace\<close>: the non-empty runs between white space.\<close>

function split_ws :: "string \<Rightarrow> string \<Rightarrow> string list" where
  "split_ws cur s =
     (case s of
        [] \<Rightarrow> if cur = [] then [] else [rev cur]
      | x # xs \<Rightarrow>
          if ws_head s = 0 then split_ws (x # cur) xs
          else (if cur = [] then [] else [rev cur]) @ split_ws [] (drop (ws_head s) s))"
  by auto
termination by (relation "measure (\<lambda>(_, s). length s)") auto

declare split_ws.simps [simp del]

definition split_whitespace :: "string \<Rightarrow> string list" where
  "split_whitespace s = split_ws [] s"

text \<open>Text that starts and ends in a visible ASCII character is not changed by trimming.\<close>

definition is_visible :: "char \<Rightarrow> bool" where
  "is_visible c \<longleftrightarrow> 32 < ord c \<and> ord c < 128"

lemma ws_visible:
  "is_visible c \<Longrightarrow> ws_head (c # s) = 0" "is_visible c \<Longrightarrow> ws_last (c # s) = 0"
  by (auto simp: is_visible_def ws_head_def ws_last_def ws1_def ws2_def ws3_def split: list.splits)

lemma trim_visible:
  assumes "s \<noteq> []" and "is_visible (hd s)" and "is_visible (last s)"
  shows "trim s = s"
proof -
  obtain c t where "s = c # t" using assms(1) by (cases s) auto
  then have "trim_start s = s" using assms(2) by (subst trim_start.simps) (simp add: ws_visible)
  moreover obtain d u where "rev s = d # u" "is_visible d"
    using assms(1,3) by (cases "rev s") (auto simp: last_rev [symmetric])
  then have "trim_rev (rev s) = rev s" by (subst trim_rev.simps) (simp add: ws_visible)
  ultimately show ?thesis by (simp add: trim_def)
qed

section \<open>Delimited lists\<close>

text \<open>The loop of the list parsers over the comma-separated parts: empty parts are skipped,
  each item is pushed and then the cap is checked.\<close>

fun comma_loop :: "'e \<Rightarrow> (string \<Rightarrow> 'e + 'a) \<Rightarrow> nat \<Rightarrow> 'a list \<Rightarrow> string list \<Rightarrow> 'e + 'a list" where
  "comma_loop too_many parse cap out [] = Inr out"
| "comma_loop too_many parse cap out (part # parts) =
     (if part = [] then comma_loop too_many parse cap out parts
      else andthen (parse part) (\<lambda>v.
        if length (out @ [v]) > cap then Inl too_many
        else comma_loop too_many parse cap (out @ [v]) parts))"

lemma comma_loop_cap:
  "comma_loop e f cap out parts = Inr xs \<Longrightarrow> length out \<le> cap \<Longrightarrow> length xs \<le> cap"
  by (induction parts arbitrary: out) (auto simp: andthen_eq_Inr split: if_splits)

text \<open>The contract of one item: printing then parsing gives it back, and its text is neither
  empty nor holds the delimiter.\<close>

locale text_item =
  fixes ok :: "'a \<Rightarrow> bool"
    and print :: "'a \<Rightarrow> string"
    and parse :: "string \<Rightarrow> 'e + 'a"
  assumes parse_print: "ok x \<Longrightarrow> parse (print x) = Inr x"
    and print_text: "ok x \<Longrightarrow> print x \<noteq> [] \<and> CHR '','' \<notin> set (print x)"
begin

lemma comma_loop_items:
  "list_all ok xs \<Longrightarrow> length (out @ xs) \<le> cap \<Longrightarrow>
     comma_loop e parse cap out (map print xs) = Inr (out @ xs)"
  by (induction xs arbitrary: out) (auto simp: parse_print print_text)

lemma list_round_trip:
  assumes "list_all ok xs" and "length xs \<le> cap"
  shows "comma_loop e parse cap [] (split_on CHR '','' (join_with '','' (map print xs))) = Inr xs"
proof (cases "xs = []")
  case False
  then have "split_on CHR '','' (join_with [CHR '',''] (map print xs)) = map print xs"
    using assms(1) by (intro split_join) (auto simp: list_all_iff print_text)
  with assms comma_loop_items [of xs "[]" cap e] show ?thesis by simp
qed simp

end

end
