(* ===== verification/Driver_Types.thy ===== *)
theory Driver_Types
  imports Rust_Text
begin

text \<open>
  The data of the driver framework \<open>usr/lib/libdriver\<close>: its errors (\<open>lib.rs\<close>), a driver's
  manifest (\<open>manifest.rs\<close>), a device's resources and the grant conferred on a driver
  (\<open>resource.rs\<close>), a device's identities (\<open>source.rs\<close>). An enum whose variants are called
  \<open>None\<close> or \<open>Node\<close> in the source carries its type's name as a prefix here.
\<close>

datatype drv_error =
    Parse | NoMatch | TooManyWindows | TooManyIrqs | BadVersion | BadField | BadNumber
  | TooManyResources | NoDescriptor | NoSuchResource | Hardware

section \<open>Manifests\<close>

datatype cap = Csprng
datatype mmio_need = MmioNone | MmioNode
datatype irq_need = IrqNone | IrqNode | IrqMsi u32
datatype dma_need = DmaNone | DmaPool u64
datatype pci_need = PciNone | PciNode
datatype restart = Never | OnCrash | Always
datatype lifecycle = Transient | Persistent

record needs =
  nd_mmio :: mmio_need
  nd_irq :: irq_need
  nd_dma :: dma_need
  nd_pci :: pci_need

definition needs_NONE :: needs where
  "needs_NONE = \<lparr>nd_mmio = MmioNone, nd_irq = IrqNone, nd_dma = DmaNone, nd_pci = PciNone\<rparr>"

record manifest =
  mf_name :: string
  mf_abi :: u32
  mf_binds :: "string list"
  mf_needs :: needs
  mf_serves :: string
  mf_restart :: restart
  mf_lifecycle :: lifecycle
  mf_gather :: bool
  mf_caps :: "cap list"
  mf_sig :: "string option"

section \<open>Resources\<close>

type_synonym window = "u64 \<times> u64"
type_synonym bdf = "u8 \<times> u8 \<times> u8"

record node_resources =
  nr_compatible :: "string list"
  nr_reg :: "window list"
  nr_interrupts :: "u32 list"
  nr_pci :: "bdf option"

record bound_resources =
  br_instance :: u32
  br_compatible :: string
  br_serves :: string
  br_mmio :: "window list"
  br_irq :: "u32 list"
  br_dma_max :: u64
  br_pci :: "bdf option"
  br_pci_extra :: "bdf list"

section \<open>Devices\<close>

datatype device_id = Compatible string | Virtio u16 | VirtioPci u16

record device_node =
  dn_label :: string
  dn_ids :: "device_id list"
  dn_resources :: node_resources

text \<open>The manifest of the network driver, the example of the theories that follow.\<close>

definition demo_manifest :: manifest where
  "demo_manifest = \<lparr>mf_name = ''netdev-driver'', mf_abi = 1, mf_binds = [''virtio:1''],
     mf_needs = \<lparr>nd_mmio = MmioNode, nd_irq = IrqNode, nd_dma = DmaPool 0x10000, nd_pci = PciNone\<rparr>,
     mf_serves = ''/dev/net/%instance'', mf_restart = OnCrash, mf_lifecycle = Transient, mf_gather = False,
     mf_caps = [], mf_sig = None\<rparr>"

end
