(* ===== verification/Driver_Resource.thy ===== *)
theory Driver_Resource
  imports Driver_Types
begin

text \<open>
  The spawn descriptor, \<open>usr/lib/libdriver/src/resource.rs\<close>: the grant the warden encodes
  into one argument of a driver and the driver decodes, with the number and list codecs the
  node records share. The items of the lists satisfy the contract \<open>text_item\<close>.
\<close>

definition DESCRIPTOR_VERSION :: u32 where "DESCRIPTOR_VERSION = 1"
definition MAX_MMIO :: nat where "MAX_MMIO = 8"
definition MAX_IRQ :: nat where "MAX_IRQ = 8"
definition MAX_PCI :: nat where "MAX_PCI = 8"

section \<open>Numbers\<close>

lemma unat_drop_bit_4: "unat (drop_bit 4 (n :: u64)) = unat n div 16"
  by (simp add: drop_bit_eq_div unat_div)

text \<open>\<open>push_hex\<close>: the loop fills the buffer from its end.\<close>

function hex_loop :: "u64 \<Rightarrow> string \<Rightarrow> string" where
  "hex_loop n buf =
     (if n \<noteq> 0
      then let d = unat (n AND 0xf)
           in hex_loop (drop_bit 4 n) ((if d < 10 then char_of (48 + d) else char_of (97 + (d - 10))) # buf)
      else buf)"
  by auto

termination
  by (relation "measure (\<lambda>(n, _). unat n)") (simp_all add: unat_drop_bit_4 unat_gt_0 word_neq_0_conv)

declare hex_loop.simps [simp del]

definition push_hex :: "u64 \<Rightarrow> string" where
  "push_hex v = (if v = 0 then ''0'' else hex_loop v [])"

definition parse_hex :: "string \<Rightarrow> drv_error + u64" where
  "parse_hex s =
     (let s = (case strip_prefix ''0x'' s of Some r \<Rightarrow> r
               | None \<Rightarrow> (case strip_prefix ''0X'' s of Some r \<Rightarrow> r | None \<Rightarrow> s))
      in if s = [] then Inl BadNumber
         else ok_or BadNumber (map_option of_nat (from_str_radix 16 (2 ^ 64) s)))"

definition parse_hex_u8 :: "string \<Rightarrow> drv_error + u8" where
  "parse_hex_u8 s = andthen (parse_hex s) (\<lambda>v.
     if unat v < 2 ^ 8 then Inr (ucast v) else Inl BadNumber)"

section \<open>Lists\<close>

definition parse_window :: "string \<Rightarrow> drv_error + window" where
  "parse_window win = andthen (ok_or BadNumber (split_once CHR '':'' win)) (\<lambda>(base, size).
     andthen (parse_hex base) (\<lambda>b. andthen (parse_hex size) (\<lambda>s. Inr (b, s))))"

definition parse_windows :: "string \<Rightarrow> drv_error + window list" where
  "parse_windows val =
     comma_loop TooManyResources parse_window MAX_MMIO [] (split_on CHR '','' val)"

definition parse_bdf :: "string \<Rightarrow> drv_error + bdf" where
  "parse_bdf val =
     (case split_on CHR ''.'' val of
        [bus, dev, fun] \<Rightarrow>
          andthen (parse_hex_u8 bus) (\<lambda>b. andthen (parse_hex_u8 dev) (\<lambda>d.
          andthen (parse_hex_u8 fun) (\<lambda>f. Inr (b, d, f))))
      | _ \<Rightarrow> Inl BadNumber)"

definition parse_irq :: "string \<Rightarrow> drv_error + u32" where
  "parse_irq s = andthen (parse_hex s) (\<lambda>v.
     if unat v < 2 ^ 32 then Inr (ucast v) else Inl BadNumber)"

definition parse_irqs :: "string \<Rightarrow> drv_error + u32 list" where
  "parse_irqs val = comma_loop TooManyResources parse_irq MAX_IRQ [] (split_on CHR '','' val)"

text \<open>The loop over \<open>pcix\<close>: its cap counts the primary function.\<close>

definition parse_pcix :: "string \<Rightarrow> drv_error + bdf list" where
  "parse_pcix val = comma_loop TooManyResources parse_bdf (MAX_PCI - 1) [] (split_on CHR '','' val)"

definition show_window :: "window \<Rightarrow> string" where
  "show_window w = push_hex (fst w) @ '':'' @ push_hex (snd w)"

definition show_irq :: "u32 \<Rightarrow> string" where
  "show_irq intid = push_hex (ucast intid)"

definition show_bdf :: "bdf \<Rightarrow> string" where
  "show_bdf f = (case f of (bus, dev, fun) \<Rightarrow>
     push_hex (ucast bus) @ ''.'' @ push_hex (ucast dev) @ ''.'' @ push_hex (ucast fun))"

section \<open>The descriptor\<close>

definition to_descriptor :: "bound_resources \<Rightarrow> drv_error + string" where
  "to_descriptor b =
     (if length (br_mmio b) > MAX_MMIO then Inl TooManyResources
      else if length (br_irq b) > MAX_IRQ then Inl TooManyResources
      else if CHR '';'' \<in> set (br_compatible b) \<or> CHR '';'' \<in> set (br_serves b) then Inl BadField
      else
        let s = ''v'' @ show_nat (unat DESCRIPTOR_VERSION) @ '';inst='' @ show_nat (unat (br_instance b))
              @ '';compat='' @ br_compatible b @ '';serve='' @ br_serves b;
            s = (if br_mmio b \<noteq> [] then s @ '';mmio='' @ join_with '','' (map show_window (br_mmio b)) else s);
            s = (if br_irq b \<noteq> [] then s @ '';irq='' @ join_with '','' (map show_irq (br_irq b)) else s);
            s = s @ '';dma='' @ push_hex (br_dma_max b);
            s = (case br_pci b of Some f \<Rightarrow> s @ '';pci='' @ show_bdf f | None \<Rightarrow> s)
        in if br_pci_extra b \<noteq> []
           then if 1 + length (br_pci_extra b) > MAX_PCI then Inl TooManyResources
                else Inr (s @ '';pcix='' @ join_with '','' (map show_bdf (br_pci_extra b)))
           else Inr s)"

text \<open>The local variables of \<open>parse_descriptor\<close>. \<open>pci\<close> is set exactly when \<open>pci_seen\<close> is.\<close>

record desc_fields =
  df_instance :: "u32 option"
  df_compatible :: "string option"
  df_serves :: "string option"
  df_mmio :: "window list option"
  df_irq :: "u32 list option"
  df_dma_max :: "u64 option"
  df_pci :: "bdf option"
  df_pci_seen :: bool
  df_pci_extra :: "bdf list option"

definition no_fields :: desc_fields where
  "no_fields = \<lparr>df_instance = None, df_compatible = None, df_serves = None, df_mmio = None,
     df_irq = None, df_dma_max = None, df_pci = None, df_pci_seen = False, df_pci_extra = None\<rparr>"

text \<open>One field: a key seen twice is rejected before its value is looked at.\<close>

definition desc_field :: "string \<Rightarrow> string \<Rightarrow> desc_fields \<Rightarrow> drv_error + desc_fields" where
  "desc_field key val d =
     (if key = ''inst'' then
        if df_instance d \<noteq> None then Inl BadField
        else andthen (ok_or BadNumber (parse_u32 val)) (\<lambda>v. Inr (d\<lparr>df_instance := Some v\<rparr>))
      else if key = ''compat'' then
        if df_compatible d \<noteq> None then Inl BadField else Inr (d\<lparr>df_compatible := Some val\<rparr>)
      else if key = ''serve'' then
        if df_serves d \<noteq> None then Inl BadField else Inr (d\<lparr>df_serves := Some val\<rparr>)
      else if key = ''mmio'' then
        if df_mmio d \<noteq> None then Inl BadField
        else andthen (parse_windows val) (\<lambda>v. Inr (d\<lparr>df_mmio := Some v\<rparr>))
      else if key = ''irq'' then
        if df_irq d \<noteq> None then Inl BadField
        else andthen (parse_irqs val) (\<lambda>v. Inr (d\<lparr>df_irq := Some v\<rparr>))
      else if key = ''dma'' then
        if df_dma_max d \<noteq> None then Inl BadField
        else andthen (parse_hex val) (\<lambda>v. Inr (d\<lparr>df_dma_max := Some v\<rparr>))
      else if key = ''pci'' then
        if df_pci_seen d then Inl BadField
        else andthen (parse_bdf val) (\<lambda>v. Inr (d\<lparr>df_pci_seen := True, df_pci := Some v\<rparr>))
      else if key = ''pcix'' then
        if df_pci_extra d \<noteq> None then Inl BadField
        else andthen (parse_pcix val) (\<lambda>v. Inr (d\<lparr>df_pci_extra := Some v\<rparr>))
      else Inl BadField)"

text \<open>The loop over the \<open>key=value\<close> fields, which the descriptor shares with the node record of
  the discovery sources: empty fields are skipped, \<open>set_field\<close> takes one field.\<close>

fun field_loop :: "(string \<Rightarrow> string \<Rightarrow> 's \<Rightarrow> drv_error + 's) \<Rightarrow> string list \<Rightarrow> 's \<Rightarrow> drv_error + 's" where
  "field_loop set_field [] d = Inr d"
| "field_loop set_field (field # rest) d =
     (if field = [] then field_loop set_field rest d
      else andthen (ok_or BadField (split_once CHR ''='' field)) (\<lambda>(key, val).
        andthen (set_field key val d) (field_loop set_field rest)))"

definition desc_loop :: "string list \<Rightarrow> desc_fields \<Rightarrow> drv_error + desc_fields" where
  "desc_loop = field_loop desc_field"

definition parse_descriptor :: "string \<Rightarrow> drv_error + bound_resources" where
  "parse_descriptor desc =
     (case split_on CHR '';'' desc of
        [] \<Rightarrow> Inl BadVersion
      | v # rest \<Rightarrow>
          andthen (ok_or BadVersion (strip_prefix ''v'' v)) (\<lambda>vnum.
          andthen (ok_or BadVersion (parse_u32 vnum)) (\<lambda>vnum.
          if vnum \<noteq> DESCRIPTOR_VERSION then Inl BadVersion
          else
            andthen (desc_loop rest no_fields) (\<lambda>d.
            andthen (ok_or BadField (df_instance d)) (\<lambda>inst.
            andthen (ok_or BadField (df_compatible d)) (\<lambda>compat.
            andthen (ok_or BadField (df_serves d)) (\<lambda>serves.
            andthen (ok_or BadField (df_dma_max d)) (\<lambda>dma.
            Inr \<lparr>br_instance = inst, br_compatible = compat, br_serves = serves,
                 br_mmio = (case df_mmio d of Some v \<Rightarrow> v | None \<Rightarrow> []),
                 br_irq = (case df_irq d of Some v \<Rightarrow> v | None \<Rightarrow> []),
                 br_dma_max = dma, br_pci = df_pci d,
                 br_pci_extra = (case df_pci_extra d of Some v \<Rightarrow> v | None \<Rightarrow> [])\<rparr>))))))))"

section \<open>Rounding a window to pages\<close>

definition PAGE_4K :: u64 where "PAGE_4K = 0x1000"

definition page_round_window :: "u64 \<Rightarrow> u64 \<Rightarrow> u64 \<times> u64" where
  "page_round_window base sz =
     (let lo = base AND NOT (PAGE_4K - 1)
      in if sz = 0 then (lo, 0)
         else let end' = sat_add base sz;
                  hi = sat_add end' (PAGE_4K - 1) AND NOT (PAGE_4K - 1)
              in (lo, sat_sub hi lo))"

section \<open>The codecs of the items\<close>

lemma unat_and_15: "unat (n AND 0xf) = unat (n :: u64) mod 16"
proof -
  have "n AND 0xf = take_bit 4 n"
    by (simp add: take_bit_eq_mask mask_eq_exp_minus_1)
  then show ?thesis by (simp add: unsigned_take_bit_eq take_bit_eq_mod [where 'a = nat])
qed

lemma hex_loop_digits: "n \<noteq> 0 \<Longrightarrow> hex_loop n buf = digits_of 16 (unat n) @ buf"
proof (induction n buf rule: hex_loop.induct)
  case (1 n buf)
  let ?c = "digit_char (unat n mod 16)"
  have c: "(if unat (n AND 0xf) < 10 then char_of (48 + unat (n AND 0xf))
      else char_of (97 + (unat (n AND 0xf) - 10))) = ?c"
    by (simp add: unat_and_15 digit_char_def)
  have step: "hex_loop n buf = hex_loop (drop_bit 4 n) (?c # buf)"
    using 1 c by (subst hex_loop.simps) (simp add: Let_def)
  show ?case
  proof (cases "drop_bit 4 n = 0")
    case True
    then have "unat n < 16" using unat_drop_bit_4 [of n] by (simp add: div_eq_0_iff)
    moreover have "hex_loop (drop_bit 4 n) (?c # buf) = ?c # buf"
      using True by (subst hex_loop.simps) simp
    ultimately show ?thesis unfolding step by (subst digits_of.simps) simp
  next
    case False
    then have "\<not> unat n < 16" using unat_drop_bit_4 [of n] by (auto simp: unat_eq_0 [symmetric])
    moreover have "hex_loop (drop_bit 4 n) (?c # buf) = digits_of 16 (unat n div 16) @ ?c # buf"
      using 1(1) [OF 1(2) refl, unfolded c, OF False] unat_drop_bit_4 [of n] by simp
    ultimately show ?thesis unfolding step by (subst digits_of.simps) simp
  qed
qed

lemma push_hex_digits: "push_hex v = digits_of 16 (unat v)"
proof (cases "v = 0")
  case True
  moreover have "digit_char 0 = CHR ''0''" by code_simp
  ultimately show ?thesis by (subst digits_of.simps) (simp add: push_hex_def)
qed (simp add: push_hex_def hex_loop_digits)

lemma push_hex_chars: "c \<in> set (push_hex v) \<Longrightarrow> is_digit_char c"
  using digits_of_chars [of 16 c "unat v"] by (simp add: push_hex_digits)

lemma push_hex_ne [simp]: "push_hex v \<noteq> []"
  by (simp add: push_hex_digits)

lemma push_hex_no [simp]:
  "CHR '','' \<notin> set (push_hex v)" "CHR '';'' \<notin> set (push_hex v)" "CHR '':'' \<notin> set (push_hex v)"
  "CHR ''.'' \<notin> set (push_hex v)" "CHR ''='' \<notin> set (push_hex v)"
  by (auto dest: push_hex_chars)

lemma strip_x_digits:
  assumes "\<And>c. c \<in> set s \<Longrightarrow> is_digit_char c" and "x \<in> {CHR ''x'', CHR ''X''}"
  shows "strip_prefix [CHR ''0'', x] s = None"
proof (rule ccontr)
  assume "strip_prefix [CHR ''0'', x] s \<noteq> None"
  then obtain r where "s = [CHR ''0'', x] @ r" by (auto simp: strip_prefix_Some simp del: append.simps)
  then have "is_digit_char x" using assms(1) [of x] by simp
  with assms(2) show False by auto
qed

lemma parse_push_hex [text_codec]: "parse_hex (push_hex v) = Inr v"
proof -
  have "from_str_radix 16 (2 ^ 64) (push_hex v) = Some (unat v)"
    using from_str_radix_digits [of 16 "unat v" "2 ^ 64"] unsigned_less [of v, where 'a = nat]
    by (simp add: push_hex_digits)
  then show ?thesis
    by (simp add: parse_hex_def strip_x_digits [OF push_hex_chars] Let_def)
qed

lemma parse_push_hex_u8 [text_codec]: "parse_hex_u8 (push_hex (ucast b)) = Inr b"
proof -
  have "unat (ucast b :: u64) = unat b" by (simp add: unat_ucast_up)
  then show ?thesis
    using unsigned_less [of b, where 'a = nat]
    by (simp add: parse_hex_u8_def parse_push_hex ucast_up_down)
qed

interpretation window_item: text_item "\<lambda>_. True" show_window parse_window
  by unfold_locales
     (auto simp: show_window_def parse_window_def split_once_append parse_push_hex)

interpretation irq_item: text_item "\<lambda>_. True" show_irq parse_irq
proof
  fix v :: u32
  have "unat (ucast v :: u64) = unat v" by (simp add: unat_ucast_up)
  then show "parse_irq (show_irq v) = Inr v"
    using unsigned_less [of v, where 'a = nat]
    by (simp add: show_irq_def parse_irq_def parse_push_hex ucast_up_down)
qed (simp add: show_irq_def)

interpretation bdf_item: text_item "\<lambda>_. True" show_bdf parse_bdf
  by unfold_locales
     (auto simp: show_bdf_def parse_bdf_def split_on_append split_on_none parse_push_hex_u8)

lemma list_codecs [text_codec]:
  "length ws \<le> 8 \<Longrightarrow> parse_windows (join_with '','' (map show_window ws)) = Inr ws"
  "length is \<le> 8 \<Longrightarrow> parse_irqs (join_with '','' (map show_irq is)) = Inr is"
  "length fs \<le> 7 \<Longrightarrow> parse_pcix (join_with '','' (map show_bdf fs)) = Inr fs"
  using window_item.list_round_trip [of ws 8] irq_item.list_round_trip [of "is" 8]
    bdf_item.list_round_trip [of fs 7]
  by (simp_all add: list.pred_True parse_windows_def parse_irqs_def parse_pcix_def MAX_MMIO_def MAX_IRQ_def MAX_PCI_def)

text \<open>The text of a list of items holds no field delimiter.\<close>

lemma show_items_no [simp]:
  "CHR '';'' \<notin> set (show_window w)" "CHR '';'' \<notin> set (show_irq i)" "CHR '';'' \<notin> set (show_bdf f)"
  by (auto simp: show_window_def show_irq_def show_bdf_def split: prod.splits)

lemma lists_no [simp]:
  "CHR '';'' \<notin> set (join_with '','' (map show_window ws))"
  "CHR '';'' \<notin> set (join_with '','' (map show_irq is))"
  "CHR '';'' \<notin> set (join_with '','' (map show_bdf fs))"
  by (auto dest!: in_join)

lemma show_nat_no [simp]: "CHR '';'' \<notin> set (show_nat n)" "CHR ''='' \<notin> set (show_nat n)"
  by (auto dest: show_nat_chars)

section \<open>What the descriptor guarantees\<close>

text \<open>The grants that have a descriptor.\<close>

definition descriptor_ok :: "bound_resources \<Rightarrow> bool" where
  "descriptor_ok b \<longleftrightarrow> length (br_mmio b) \<le> 8 \<and> length (br_irq b) \<le> 8 \<and>
     CHR '';'' \<notin> set (br_compatible b) \<and> CHR '';'' \<notin> set (br_serves b) \<and> length (br_pci_extra b) \<le> 7"

text \<open>The fields of a descriptor, in the order they are written.\<close>

definition desc_texts :: "bound_resources \<Rightarrow> string list" where
  "desc_texts b =
     [''inst='' @ show_nat (unat (br_instance b))] @ [''compat='' @ br_compatible b] @ [''serve='' @ br_serves b]
     @ (if br_mmio b \<noteq> [] then [''mmio='' @ join_with '','' (map show_window (br_mmio b))] else [])
     @ (if br_irq b \<noteq> [] then [''irq='' @ join_with '','' (map show_irq (br_irq b))] else [])
     @ [''dma='' @ push_hex (br_dma_max b)]
     @ (case br_pci b of Some f \<Rightarrow> [''pci='' @ show_bdf f] | None \<Rightarrow> [])
     @ (if br_pci_extra b \<noteq> [] then [''pcix='' @ join_with '','' (map show_bdf (br_pci_extra b))] else [])"

lemma show_one: "show_nat 1 = ''1''"
  unfolding show_nat_def by (subst digits_of.simps, simp, code_simp)

lemma version_text: "show_nat (unat DESCRIPTOR_VERSION) = ''1''"
  using show_one by (simp add: DESCRIPTOR_VERSION_def)

lemma to_descriptor_texts:
  "to_descriptor b =
     (if descriptor_ok b then Inr (''v1'' @ concat (map ((#) CHR '';'') (desc_texts b)))
      else Inl (if length (br_mmio b) > 8 \<or> length (br_irq b) > 8 then TooManyResources
                else if CHR '';'' \<in> set (br_compatible b) \<or> CHR '';'' \<in> set (br_serves b) then BadField
                else TooManyResources))"
  by (auto simp: to_descriptor_def descriptor_ok_def desc_texts_def version_text Let_def MAX_MMIO_def
      MAX_IRQ_def MAX_PCI_def split: option.splits)

lemma split_texts:
  assumes "CHR '';'' \<notin> set v" and "\<forall>f \<in> set fs. CHR '';'' \<notin> set f"
  shows "split_on CHR '';'' (v @ concat (map ((#) CHR '';'') fs)) = v # fs"
  using assms
proof (induction fs arbitrary: v)
  case Nil
  then show ?case by (simp add: split_on_none)
next
  case (Cons f fs)
  then show ?case using split_on_append [of "CHR '';''" v "f @ concat (map ((#) CHR '';'') fs)"] by simp
qed

lemma field_loop_append:
  "field_loop g (xs @ ys) d = andthen (field_loop g xs d) (field_loop g ys)"
proof (induction xs arbitrary: d)
  case (Cons x xs)
  show ?case
  proof (cases "split_once CHR ''='' x")
    case None
    then show ?thesis by (simp add: Cons)
  next
    case (Some kv)
    then show ?thesis by (cases kv; cases "g (fst kv) (snd kv) d") (auto simp: Cons)
  qed
qed simp

lemma field_loop_single:
  "CHR ''='' \<notin> set key \<Longrightarrow> field_loop g [key @ ''='' @ val] d = g key val d"
  using split_once_append [of "CHR ''=''" key val] by (cases "g key val d") auto

lemma field_loop_keeps:
  assumes "\<And>k v d d'. P d \<Longrightarrow> g k v d = Inr d' \<Longrightarrow> P d'"
  shows "field_loop g fs d = Inr d' \<Longrightarrow> P d \<Longrightarrow> P d'"
  by (induction fs arbitrary: d)
     (auto simp: andthen_eq_Inr split: if_splits option.splits dest: assms)

text \<open>Each field, read back into variables that do not hold it yet.\<close>

lemma desc_loop_fields:
  "df_instance d = None \<Longrightarrow> desc_loop [''inst='' @ show_nat (unat i)] d = Inr (d\<lparr>df_instance := Some i\<rparr>)"
  "df_compatible d = None \<Longrightarrow> desc_loop [''compat='' @ s] d = Inr (d\<lparr>df_compatible := Some s\<rparr>)"
  "df_serves d = None \<Longrightarrow> desc_loop [''serve='' @ s] d = Inr (d\<lparr>df_serves := Some s\<rparr>)"
  "df_mmio d = None \<Longrightarrow> length ws \<le> 8 \<Longrightarrow>
     desc_loop [''mmio='' @ join_with '','' (map show_window ws)] d = Inr (d\<lparr>df_mmio := Some ws\<rparr>)"
  "df_irq d = None \<Longrightarrow> length is \<le> 8 \<Longrightarrow>
     desc_loop [''irq='' @ join_with '','' (map show_irq is)] d = Inr (d\<lparr>df_irq := Some is\<rparr>)"
  "df_dma_max d = None \<Longrightarrow> desc_loop [''dma='' @ push_hex v] d = Inr (d\<lparr>df_dma_max := Some v\<rparr>)"
  "\<not> df_pci_seen d \<Longrightarrow>
     desc_loop [''pci='' @ show_bdf f] d = Inr (d\<lparr>df_pci_seen := True, df_pci := Some f\<rparr>)"
  "df_pci_extra d = None \<Longrightarrow> length fs \<le> 7 \<Longrightarrow>
     desc_loop [''pcix='' @ join_with '','' (map show_bdf fs)] d = Inr (d\<lparr>df_pci_extra := Some fs\<rparr>)"
  using field_loop_single [of "''inst''" desc_field "show_nat (unat i)" d]
    field_loop_single [of "''compat''" desc_field s d] field_loop_single [of "''serve''" desc_field s d]
    field_loop_single [of "''mmio''" desc_field "join_with '','' (map show_window ws)" d]
    field_loop_single [of "''irq''" desc_field "join_with '','' (map show_irq is)" d]
    field_loop_single [of "''dma''" desc_field "push_hex v" d]
    field_loop_single [of "''pci''" desc_field "show_bdf f" d]
    field_loop_single [of "''pcix''" desc_field "join_with '','' (map show_bdf fs)" d]
    unsigned_less [of i, where 'a = nat] bdf_item.parse_print [of f]
  by (simp_all add: desc_loop_def desc_field_def list_codecs parse_push_hex)

lemma desc_loop_texts:
  assumes "descriptor_ok b"
  shows "desc_loop (desc_texts b) no_fields = Inr
    \<lparr>df_instance = Some (br_instance b), df_compatible = Some (br_compatible b), df_serves = Some (br_serves b),
     df_mmio = (if br_mmio b \<noteq> [] then Some (br_mmio b) else None),
     df_irq = (if br_irq b \<noteq> [] then Some (br_irq b) else None), df_dma_max = Some (br_dma_max b),
     df_pci = br_pci b, df_pci_seen = (br_pci b \<noteq> None),
     df_pci_extra = (if br_pci_extra b \<noteq> [] then Some (br_pci_extra b) else None)\<rparr>"
  using assms unfolding desc_texts_def
  by (cases "br_pci b")
     (simp_all add: field_loop_append desc_loop_fields [unfolded desc_loop_def] no_fields_def
       descriptor_ok_def desc_loop_def del: append.simps field_loop.simps(2))

definition descriptor_text :: "bound_resources \<Rightarrow> string" where
  "descriptor_text b = ''v1'' @ concat (map ((#) CHR '';'') (desc_texts b))"

lemma parse_texts:
  assumes "descriptor_ok b"
  shows "parse_descriptor (descriptor_text b) = Inr b"
proof -
  have "\<forall>f \<in> set (desc_texts b). CHR '';'' \<notin> set f"
    using assms by (auto simp: desc_texts_def descriptor_ok_def split: option.splits if_splits)
  then have "split_on CHR '';'' (descriptor_text b) = ''v1'' # desc_texts b"
    unfolding descriptor_text_def by (intro split_texts) simp_all
  moreover have "from_str_radix 10 4294967296 ''1'' = Some 1"
    using from_show_nat [of 1 4294967296, unfolded show_one] by simp
  ultimately show ?thesis
    using assms by (simp add: parse_descriptor_def desc_loop_texts DESCRIPTOR_VERSION_def)
qed

text \<open>C25. The spawn descriptor is exact. A grant within the caps whose names hold no field
  delimiter encodes, and decoding gives back that grant, every axis of it; any other grant is
  refused when it is encoded.\<close>

theorem descriptor_round_trip:
  "case to_descriptor b of
     Inl e \<Rightarrow> \<not> descriptor_ok b \<and> e \<in> {TooManyResources, BadField}
   | Inr s \<Rightarrow> descriptor_ok b \<and> parse_descriptor s = Inr b"
  using parse_texts [of b] by (simp add: to_descriptor_texts descriptor_text_def)

text \<open>What any accepted descriptor holds, whoever wrote it.\<close>

definition desc_bounded :: "desc_fields \<Rightarrow> bool" where
  "desc_bounded d \<longleftrightarrow> (\<forall>v. df_mmio d = Some v \<longrightarrow> length v \<le> 8) \<and> (\<forall>v. df_irq d = Some v \<longrightarrow> length v \<le> 8) \<and>
     (\<forall>v. df_pci_extra d = Some v \<longrightarrow> length v \<le> 7)"

lemma desc_field_bounded: "desc_bounded d \<Longrightarrow> desc_field k v d = Inr d' \<Longrightarrow> desc_bounded d'"
  by (auto simp: desc_field_def desc_bounded_def andthen_eq_Inr parse_windows_def parse_irqs_def parse_pcix_def
      MAX_MMIO_def MAX_IRQ_def MAX_PCI_def dest!: comma_loop_cap split: if_splits)

lemma desc_loop_bounded: "desc_loop fs d = Inr d' \<Longrightarrow> desc_bounded d \<Longrightarrow> desc_bounded d'"
  unfolding desc_loop_def by (rule field_loop_keeps [where g = desc_field]) (rule desc_field_bounded)

text \<open>The decoder is bounded: whatever text it is given, the grant it accepts stays within the
  allowance of the kernel, eight windows, eight interrupts and one primary with seven further
  functions.\<close>

theorem parse_descriptor_bounded:
  assumes "parse_descriptor desc = Inr b"
  shows "length (br_mmio b) \<le> 8 \<and> length (br_irq b) \<le> 8 \<and> length (br_pci_extra b) \<le> 7"
proof -
  obtain fs d where "desc_loop fs no_fields = Inr d"
    and b: "br_mmio b = (case df_mmio d of Some v \<Rightarrow> v | None \<Rightarrow> [])"
      "br_irq b = (case df_irq d of Some v \<Rightarrow> v | None \<Rightarrow> [])"
      "br_pci_extra b = (case df_pci_extra d of Some v \<Rightarrow> v | None \<Rightarrow> [])"
    using assms by (auto simp: parse_descriptor_def andthen_eq_Inr split: list.splits if_splits)
  then have "desc_bounded d"
    using desc_loop_bounded [of fs no_fields d] by (simp add: desc_bounded_def no_fields_def)
  then show ?thesis unfolding b by (simp add: desc_bounded_def split: option.splits)
qed

definition demo_grant :: bound_resources where
  "demo_grant = \<lparr>br_instance = 0, br_compatible = ''arm,pl061'', br_serves = ''/srv/gpio0'',
     br_mmio = [(0x9030000, 0x1000)], br_irq = [39], br_dma_max = 0, br_pci = None, br_pci_extra = []\<rparr>"

theorem parse_descriptor_bounded_witness:
  "parse_descriptor (descriptor_text demo_grant) = Inr demo_grant \<and>
     length (br_mmio demo_grant) \<le> 8 \<and> length (br_irq demo_grant) \<le> 8 \<and> length (br_pci_extra demo_grant) \<le> 7"
proof -
  have "parse_descriptor (descriptor_text demo_grant) = Inr demo_grant"
    by (rule parse_texts) (simp add: descriptor_ok_def demo_grant_def)
  with parse_descriptor_bounded [OF this] show ?thesis by simp
qed

section \<open>Page rounding\<close>

lemma page_mask: "unat (w AND NOT (PAGE_4K - 1)) = unat w div 4096 * 4096"
  using unat_and_not_mask [of w 12] by (simp add: PAGE_4K_def mask_eq_exp_minus_1)

lemma top_page: "(2 ^ 64 - 1) div 4096 * 4096 = (2 ^ 64 - 4096 :: nat)"
  by simp

text \<open>The window a driver's allowance carries is whole pages: it starts at the page of the base
  and ends at the first page boundary at or after the end of the window. The one exception is a
  window that reaches into the last page of the address space, which is cut at the start of
  that page.\<close>

theorem page_round_exact:
  "case page_round_window base sz of (lo, len) \<Rightarrow>
     unat lo = unat base div 4096 * 4096 \<and>
     unat lo + unat len =
       (if sz = 0 then unat lo
        else if unat base + unat sz \<le> 2 ^ 64 - 4096 then (unat base + unat sz + 4095) div 4096 * 4096
        else 2 ^ 64 - 4096)"
proof -
  define e where "e = sat_add (sat_add base sz) (PAGE_4K - 1)"
  have e: "unat e = min (unat base + unat sz + 4095) (2 ^ 64 - 1)"
    by (simp add: e_def unat_sat_add PAGE_4K_def)
  have "unat base < 2 ^ 64" using unsigned_less [of base, where 'a = nat] by simp
  then have "unat base div 4096 * 4096 \<le> unat e div 4096 * 4096"
    unfolding e by (intro mult_le_mono1 div_le_mono) auto
  moreover have "unat e div 4096 * 4096 =
      (if unat base + unat sz \<le> 2 ^ 64 - 4096 then (unat base + unat sz + 4095) div 4096 * 4096 else 2 ^ 64 - 4096)"
    unfolding e by (auto simp: min_def)
  ultimately show ?thesis
    by (auto simp: page_round_window_def Let_def page_mask unat_sat_sub e_def [symmetric])
qed

end
