(* ===== verification/Driver_Source.thy ===== *)
theory Driver_Source
  imports Driver_Resource
begin

text \<open>
  The discovery sources of \<open>usr/lib/libdriver/src/source.rs\<close>: a device's identities and how a
  manifest binds them, the node record that crosses the pipe from a bus source to the warden,
  the choice of the manifest that binds a node, the reconciliation of what a source reports with
  the warden's own view, and the parser of the kernel's PCI topology lines.
\<close>

definition NODE_RECORD_VERSION :: u32 where "NODE_RECORD_VERSION = 1"
definition MAX_IDS :: nat where "MAX_IDS = 16"

section \<open>Identities\<close>

definition parse_id :: "string \<Rightarrow> device_id" where
  "parse_id s =
     (case Option.bind (strip_prefix ''virtio-pci:'' s) (\<lambda>rest. parse_u16 rest) of
        Some n \<Rightarrow> VirtioPci n
      | None \<Rightarrow>
          (case Option.bind (strip_prefix ''virtio:'' s) (\<lambda>rest. parse_u16 rest) of
             Some n \<Rightarrow> Virtio n
           | None \<Rightarrow> Compatible s))"

fun as_string :: "device_id \<Rightarrow> string" where
  "as_string (Compatible s) = s"
| "as_string (Virtio n) = ''virtio:'' @ show_nat (unat n)"
| "as_string (VirtioPci n) = ''virtio-pci:'' @ show_nat (unat n)"

definition matches_bind :: "device_id \<Rightarrow> string \<Rightarrow> bool" where
  "matches_bind i b \<longleftrightarrow> parse_id b = i"

definition from_compatible :: "string \<Rightarrow> node_resources \<Rightarrow> device_node" where
  "from_compatible lab res = \<lparr>dn_label = lab, dn_ids = map Compatible (nr_compatible res), dn_resources = res\<rparr>"

section \<open>The node record\<close>

definition to_record :: "device_node \<Rightarrow> drv_error + string" where
  "to_record d =
     (if CHR '';'' \<in> set (dn_label d) then Inl BadField
      else if dn_ids d = [] then Inl BadField
      else if nr_pci (dn_resources d) \<noteq> None then Inl BadField
      else if list_ex (\<lambda>i. CHR '';'' \<in> set (as_string i) \<or> CHR '','' \<in> set (as_string i)) (dn_ids d)
      then Inl BadField
      else Inr (''v'' @ show_nat (unat NODE_RECORD_VERSION)
             @ '';label='' @ dn_label d
             @ '';id='' @ join_with '','' (map as_string (dn_ids d))
             @ '';reg='' @ join_with '','' (map show_window (nr_reg (dn_resources d)))
             @ '';intid='' @ join_with '','' (map show_irq (nr_interrupts (dn_resources d)))))"

text \<open>The local variables of \<open>parse_record\<close>.\<close>

record rec_fields =
  rf_label :: "string option"
  rf_ids :: "device_id list option"
  rf_reg :: "window list option"
  rf_intids :: "u32 list option"

definition no_rec_fields :: rec_fields where
  "no_rec_fields = \<lparr>rf_label = None, rf_ids = None, rf_reg = None, rf_intids = None\<rparr>"

definition parse_ids :: "string \<Rightarrow> drv_error + device_id list" where
  "parse_ids val =
     andthen (comma_loop TooManyResources (\<lambda>part. Inr (parse_id part)) MAX_IDS [] (split_on CHR '','' val))
       (\<lambda>v. if v = [] then Inl BadField else Inr v)"

definition rec_field :: "string \<Rightarrow> string \<Rightarrow> rec_fields \<Rightarrow> drv_error + rec_fields" where
  "rec_field key val r =
     (if key = ''label'' then
        if rf_label r \<noteq> None then Inl BadField else Inr (r\<lparr>rf_label := Some val\<rparr>)
      else if key = ''id'' then
        if rf_ids r \<noteq> None then Inl BadField
        else andthen (parse_ids val) (\<lambda>v. Inr (r\<lparr>rf_ids := Some v\<rparr>))
      else if key = ''reg'' then
        if rf_reg r \<noteq> None then Inl BadField
        else andthen (parse_windows val) (\<lambda>v. Inr (r\<lparr>rf_reg := Some v\<rparr>))
      else if key = ''intid'' then
        if rf_intids r \<noteq> None then Inl BadField
        else andthen (parse_irqs val) (\<lambda>v. Inr (r\<lparr>rf_intids := Some v\<rparr>))
      else Inl BadField)"

definition rec_loop :: "string list \<Rightarrow> rec_fields \<Rightarrow> drv_error + rec_fields" where
  "rec_loop = field_loop rec_field"

definition parse_record :: "string \<Rightarrow> drv_error + device_node" where
  "parse_record line =
     (case split_on CHR '';'' line of
        [] \<Rightarrow> Inl BadVersion
      | v # rest \<Rightarrow>
          andthen (ok_or BadVersion (strip_prefix ''v'' v)) (\<lambda>vnum.
          andthen (ok_or BadVersion (parse_u32 vnum)) (\<lambda>vnum.
          if vnum \<noteq> NODE_RECORD_VERSION then Inl BadVersion
          else
            andthen (rec_loop rest no_rec_fields) (\<lambda>r.
            andthen (ok_or BadField (rf_ids r)) (\<lambda>ids.
            Inr \<lparr>dn_label = (case rf_label r of Some l \<Rightarrow> l | None \<Rightarrow> []), dn_ids = ids,
                 dn_resources = \<lparr>nr_compatible = [],
                   nr_reg = (case rf_reg r of Some v \<Rightarrow> v | None \<Rightarrow> []),
                   nr_interrupts = (case rf_intids r of Some v \<Rightarrow> v | None \<Rightarrow> []),
                   nr_pci = None\<rparr>\<rparr>)))))"

section \<open>Matching\<close>

definition binds_id :: "manifest \<Rightarrow> device_id \<Rightarrow> bool" where
  "binds_id m i \<longleftrightarrow> list_ex (matches_bind i) (mf_binds m)"

text \<open>The inner loop of \<open>best_match\<close>, which stops at the first identity the manifest binds, and
  the outer loop over the database with the best match so far.\<close>

fun match_loop :: "manifest \<Rightarrow> nat \<Rightarrow> device_id list \<Rightarrow> nat option" where
  "match_loop m pos [] = None"
| "match_loop m pos (i # ids) = (if binds_id m i then Some pos else match_loop m (Suc pos) ids)"

fun best_loop :: "device_id list \<Rightarrow> nat \<Rightarrow> (nat \<times> nat) option \<Rightarrow> manifest list \<Rightarrow> (nat \<times> nat) option" where
  "best_loop ids i best [] = best"
| "best_loop ids i best (m # ms) =
     best_loop ids (Suc i)
       (case match_loop m 0 ids of
          None \<Rightarrow> best
        | Some pos \<Rightarrow>
            (case best of
               None \<Rightarrow> Some (i, pos)
             | Some (bi, bp) \<Rightarrow> if pos < bp then Some (i, pos) else best))
       ms"

definition best_match :: "manifest list \<Rightarrow> device_node \<Rightarrow> nat option" where
  "best_match db node = map_option fst (best_loop (dn_ids node) 0 None db)"

section \<open>Reconciliation\<close>

definition first_base :: "device_node \<Rightarrow> u64 option" where
  "first_base d = (case nr_reg (dn_resources d) of [] \<Rightarrow> None | (b, _) # _ \<Rightarrow> Some b)"

definition reconcile_reported_node :: "device_node \<Rightarrow> device_node list \<Rightarrow> device_node option" where
  "reconcile_reported_node reported trusted = do {
     base \<leftarrow> first_base reported;
     slot \<leftarrow> find (\<lambda>s. first_base s = Some base) trusted;
     Some \<lparr>dn_label = dn_label reported, dn_ids = dn_ids reported,
           dn_resources = \<lparr>nr_compatible = [], nr_reg = nr_reg (dn_resources slot),
             nr_interrupts = nr_interrupts (dn_resources slot), nr_pci = nr_pci (dn_resources slot)\<rparr>\<rparr>
   }"

section \<open>PCI topology lines\<close>

record pci_fields =
  pf_bus :: "u8 option"
  pf_dev :: "u8 option"
  pf_func :: "u8 option"
  pf_virtio :: "u16 option"
  pf_intid :: "u32 option"

definition pci_field :: "string \<Rightarrow> string \<Rightarrow> pci_fields \<Rightarrow> pci_fields option" where
  "pci_field key val f =
     (if key = ''bus'' then
        map_option (\<lambda>v. f\<lparr>pf_bus := Some (of_nat v)\<rparr>) (from_str_radix 16 (2 ^ 8) val)
      else if key = ''dev'' then
        map_option (\<lambda>v. f\<lparr>pf_dev := Some (of_nat v)\<rparr>) (from_str_radix 16 (2 ^ 8) val)
      else if key = ''fn'' then
        map_option (\<lambda>v. f\<lparr>pf_func := Some (of_nat v)\<rparr>) (from_str_radix 16 (2 ^ 8) val)
      else if key = ''vendor'' \<or> key = ''device'' then
        map_option (\<lambda>_. f) (from_str_radix 16 (2 ^ 16) val)
      else if key = ''virtio'' then
        map_option (\<lambda>v. f\<lparr>pf_virtio := Some v\<rparr>) (parse_u16 val)
      else if key = ''intid'' then
        if val \<noteq> ''none''
        then map_option (\<lambda>v. f\<lparr>pf_intid := Some (of_nat v)\<rparr>) (from_str_radix 16 (2 ^ 32) val)
        else Some f
      else Some f)"

fun pci_loop :: "string list \<Rightarrow> pci_fields \<Rightarrow> pci_fields option" where
  "pci_loop [] f = Some f"
| "pci_loop (field # fs) f = do {
     kv \<leftarrow> split_once CHR ''='' field;
     f \<leftarrow> pci_field (fst kv) (snd kv) f;
     pci_loop fs f
   }"

definition parse_pci_ctl :: "string \<Rightarrow> string \<Rightarrow> device_node option" where
  "parse_pci_ctl lab line =
     (case split_whitespace line of
        [] \<Rightarrow> None
      | v # rest \<Rightarrow>
          if v \<noteq> ''v1'' then None
          else do {
            f \<leftarrow> pci_loop rest \<lparr>pf_bus = None, pf_dev = None, pf_func = None, pf_virtio = None, pf_intid = None\<rparr>;
            bus \<leftarrow> pf_bus f;
            dev \<leftarrow> pf_dev f;
            func \<leftarrow> pf_func f;
            virtio \<leftarrow> pf_virtio f;
            if virtio = 0 then None
            else Some \<lparr>dn_label = lab, dn_ids = [VirtioPci virtio],
              dn_resources = \<lparr>nr_compatible = [], nr_reg = [],
                nr_interrupts = (case pf_intid f of Some i \<Rightarrow> [i] | None \<Rightarrow> []),
                nr_pci = Some (bus, dev, func)\<rparr>\<rparr>
          })"

section \<open>The codec of identities\<close>

text \<open>An identity that survives printing: every typed one, and a compatible string unless it
  spells a typed one.\<close>

definition id_ok :: "device_id \<Rightarrow> bool" where
  "id_ok i \<longleftrightarrow> parse_id (as_string i) = i \<and> as_string i \<noteq> [] \<and>
     CHR '','' \<notin> set (as_string i) \<and> CHR '';'' \<notin> set (as_string i)"

lemma no_common_prefix: "strip_prefix ''virtio-pci:'' (''virtio:'' @ s) = None"
  by simp

lemma typed_id_ok [simp]: "id_ok (Virtio n)" "id_ok (VirtioPci n)"
proof -
  have "from_str_radix 10 (2 ^ 16) (show_nat (unat n)) = Some (unat n)"
    by (rule from_show_nat) (use unsigned_less [of n, where 'a = nat] in simp)
  moreover have "CHR '','' \<notin> set (show_nat (unat n))" by (auto dest: show_nat_chars)
  ultimately show "id_ok (Virtio n)" "id_ok (VirtioPci n)" by (simp_all add: id_ok_def parse_id_def)
qed

interpretation id_item: text_item id_ok as_string "\<lambda>part. Inr (parse_id part) :: drv_error + device_id"
  by unfold_locales (auto simp: id_ok_def)

section \<open>What the record guarantees\<close>

definition record_ok :: "device_node \<Rightarrow> bool" where
  "record_ok d \<longleftrightarrow> CHR '';'' \<notin> set (dn_label d) \<and> dn_ids d \<noteq> [] \<and> list_all id_ok (dn_ids d) \<and>
     length (dn_ids d) \<le> 16 \<and> length (nr_reg (dn_resources d)) \<le> 8 \<and>
     length (nr_interrupts (dn_resources d)) \<le> 8 \<and> nr_compatible (dn_resources d) = [] \<and>
     nr_pci (dn_resources d) = None"

definition record_texts :: "device_node \<Rightarrow> string list" where
  "record_texts d =
     [''label='' @ dn_label d] @ [''id='' @ join_with '','' (map as_string (dn_ids d))]
     @ [''reg='' @ join_with '','' (map show_window (nr_reg (dn_resources d)))]
     @ [''intid='' @ join_with '','' (map show_irq (nr_interrupts (dn_resources d)))]"

lemma parse_ids_print:
  assumes "list_all id_ok ids" and "length ids \<le> 16" and "ids \<noteq> []"
  shows "parse_ids (join_with '','' (map as_string ids)) = Inr ids"
  using id_item.list_round_trip [OF assms(1,2)] assms(3) by (simp add: parse_ids_def MAX_IDS_def)

lemma ids_text_no: "list_all id_ok ids \<Longrightarrow> CHR '';'' \<notin> set (join_with '','' (map as_string ids))"
  by (auto simp: list_all_iff id_ok_def dest!: in_join)

lemma rec_loop_fields:
  "rf_label r = None \<Longrightarrow> field_loop rec_field [''label='' @ s] r = Inr (r\<lparr>rf_label := Some s\<rparr>)"
  "rf_ids r = None \<Longrightarrow> list_all id_ok ids \<Longrightarrow> length ids \<le> 16 \<Longrightarrow> ids \<noteq> [] \<Longrightarrow>
     field_loop rec_field [''id='' @ join_with '','' (map as_string ids)] r = Inr (r\<lparr>rf_ids := Some ids\<rparr>)"
  "rf_reg r = None \<Longrightarrow> length ws \<le> 8 \<Longrightarrow>
     field_loop rec_field [''reg='' @ join_with '','' (map show_window ws)] r = Inr (r\<lparr>rf_reg := Some ws\<rparr>)"
  "rf_intids r = None \<Longrightarrow> length is \<le> 8 \<Longrightarrow>
     field_loop rec_field [''intid='' @ join_with '','' (map show_irq is)] r = Inr (r\<lparr>rf_intids := Some is\<rparr>)"
  using field_loop_single [of "''label''" rec_field s r]
    field_loop_single [of "''id''" rec_field "join_with '','' (map as_string ids)" r]
    field_loop_single [of "''reg''" rec_field "join_with '','' (map show_window ws)" r]
    field_loop_single [of "''intid''" rec_field "join_with '','' (map show_irq is)" r]
  by (simp_all add: rec_field_def list_codecs parse_ids_print)

lemma parse_record_texts:
  assumes "record_ok d"
  shows "parse_record (''v1'' @ concat (map ((#) CHR '';'') (record_texts d))) = Inr d"
proof -
  have "\<forall>f \<in> set (record_texts d). CHR '';'' \<notin> set f"
    using assms by (auto simp: record_texts_def record_ok_def ids_text_no)
  then have "split_on CHR '';'' (''v1'' @ concat (map ((#) CHR '';'') (record_texts d))) = ''v1'' # record_texts d"
    by (intro split_texts) simp_all
  moreover have "rec_loop (record_texts d) no_rec_fields =
      Inr \<lparr>rf_label = Some (dn_label d), rf_ids = Some (dn_ids d), rf_reg = Some (nr_reg (dn_resources d)),
           rf_intids = Some (nr_interrupts (dn_resources d))\<rparr>"
    using assms unfolding record_texts_def rec_loop_def record_ok_def
    by (simp add: field_loop_append rec_loop_fields no_rec_fields_def del: append.simps field_loop.simps(2))
  moreover have "from_str_radix 10 4294967296 ''1'' = Some 1"
    using from_show_nat [of 1 4294967296, unfolded show_one] by simp
  ultimately show ?thesis
    using assms by (simp add: parse_record_def NODE_RECORD_VERSION_def record_ok_def)
qed

text \<open>A node record reads back as the node a source reported. For a node within the caps, with
  identities that survive printing and no field delimiter in its texts, \<open>to_record\<close> succeeds and
  \<open>parse_record\<close> gives back the node.\<close>

theorem record_round_trip:
  assumes "record_ok d"
  shows "\<exists>s. to_record d = Inr s \<and> parse_record s = Inr d"
proof -
  have "\<not> list_ex (\<lambda>i. CHR '';'' \<in> set (as_string i) \<or> CHR '','' \<in> set (as_string i)) (dn_ids d)"
    using assms by (auto simp: record_ok_def list_all_iff list_ex_iff id_ok_def)
  then have "to_record d = Inr (''v1'' @ concat (map ((#) CHR '';'') (record_texts d)))"
    using assms show_one by (simp add: to_record_def record_ok_def record_texts_def NODE_RECORD_VERSION_def)
  with parse_record_texts [OF assms] show ?thesis by blast
qed

definition demo_node :: device_node where
  "demo_node = \<lparr>dn_label = ''virtio-mmio@a003e00'', dn_ids = [Virtio 1],
     dn_resources = \<lparr>nr_compatible = [], nr_reg = [(0xa003e00, 0x200)], nr_interrupts = [79], nr_pci = None\<rparr>\<rparr>"

theorem record_round_trip_witness: "\<exists>s. to_record demo_node = Inr s \<and> parse_record s = Inr demo_node"
  by (rule record_round_trip) (simp add: record_ok_def demo_node_def)

text \<open>Whatever the line, what the parser accepts is bounded.\<close>

definition rec_bounded :: "rec_fields \<Rightarrow> bool" where
  "rec_bounded r \<longleftrightarrow> (\<forall>v. rf_ids r = Some v \<longrightarrow> v \<noteq> [] \<and> length v \<le> 16) \<and>
     (\<forall>v. rf_reg r = Some v \<longrightarrow> length v \<le> 8) \<and> (\<forall>v. rf_intids r = Some v \<longrightarrow> length v \<le> 8)"

lemma rec_field_bounded: "rec_bounded r \<Longrightarrow> rec_field k v r = Inr r' \<Longrightarrow> rec_bounded r'"
  by (auto simp: rec_field_def rec_bounded_def andthen_eq_Inr parse_windows_def parse_irqs_def parse_ids_def
      MAX_MMIO_def MAX_IRQ_def MAX_IDS_def dest!: comma_loop_cap split: if_splits)

lemma parse_record_bounds:
  assumes "parse_record line = Inr d"
  shows "dn_ids d \<noteq> [] \<and> length (dn_ids d) \<le> 16 \<and> length (nr_reg (dn_resources d)) \<le> 8 \<and>
    length (nr_interrupts (dn_resources d)) \<le> 8 \<and> nr_pci (dn_resources d) = None"
proof -
  obtain fs r where run: "field_loop rec_field fs no_rec_fields = Inr r" and "rf_ids r = Some (dn_ids d)"
    and d: "nr_reg (dn_resources d) = (case rf_reg r of Some v \<Rightarrow> v | None \<Rightarrow> [])"
      "nr_interrupts (dn_resources d) = (case rf_intids r of Some v \<Rightarrow> v | None \<Rightarrow> [])"
      "nr_pci (dn_resources d) = None"
    using assms by (auto simp: parse_record_def rec_loop_def andthen_eq_Inr split: list.splits if_splits)
  moreover have "rec_bounded no_rec_fields" by (simp add: rec_bounded_def no_rec_fields_def)
  then have "rec_bounded r"
    by (rule field_loop_keeps [where g = rec_field, OF _ run, rotated]) (rule rec_field_bounded)
  ultimately show ?thesis by (simp add: rec_bounded_def split: option.splits)
qed

section \<open>What matching guarantees\<close>

text \<open>The position of the most specific identity of a node that a manifest binds.\<close>

lemma match_loop_Some:
  "match_loop m p ids = Some q \<longleftrightarrow>
     (\<exists>k < length ids. q = p + k \<and> binds_id m (ids ! k) \<and> (\<forall>j < k. \<not> binds_id m (ids ! j)))"
proof (induction ids arbitrary: p)
  case (Cons i ids)
  show ?case
  proof (cases "binds_id m i")
    case True
    have "k = 0" if "\<forall>j < k. \<not> binds_id m ((i # ids) ! j)" for k
      using that True by (cases k) auto
    with True show ?thesis by (auto intro!: exI [of _ 0])
  next
    case False
    have "(\<exists>k < length (i # ids). q = p + k \<and> binds_id m ((i # ids) ! k) \<and> (\<forall>j < k. \<not> binds_id m ((i # ids) ! j)))
        \<longleftrightarrow> (\<exists>k < length ids. q = Suc p + k \<and> binds_id m (ids ! k) \<and> (\<forall>j < k. \<not> binds_id m (ids ! j)))"
      (is "?l = ?r")
    proof
      assume ?l
      then obtain k where k: "k < length (i # ids)" "q = p + k" "binds_id m ((i # ids) ! k)"
        "\<forall>j < k. \<not> binds_id m ((i # ids) ! j)" by blast
      with False obtain k' where "k = Suc k'" by (cases k) auto
      with k show ?r by (intro exI [of _ k']) auto
    next
      assume ?r
      then obtain k where k: "k < length ids" "q = Suc p + k" "binds_id m (ids ! k)"
        "\<forall>j < k. \<not> binds_id m (ids ! j)" by blast
      with False show ?l by (intro exI [of _ "Suc k"]) (auto simp: less_Suc_eq_0_disj)
    qed
    with False show ?thesis by (simp add: Cons)
  qed
qed simp

lemma match_loop_None: "match_loop m p ids = None \<longleftrightarrow> (\<forall>i \<in> set ids. \<not> binds_id m i)"
  by (induction ids arbitrary: p) auto

text \<open>The outer loop keeps the least position, and the first manifest that has it. A candidate
  is a position with the index of its manifest, the smaller the better in that order.\<close>

definition best_of :: "(nat \<times> nat) option \<Rightarrow> (nat \<times> nat) list \<Rightarrow> (nat \<times> nat) option \<Rightarrow> bool" where
  "best_of start cands res \<longleftrightarrow>
     (case res of
        None \<Rightarrow> start = None \<and> cands = []
      | Some (i, p) \<Rightarrow>
          (start = Some (i, p) \<or> (p, i) \<in> set cands) \<and>
          (\<forall>(q, j) \<in> set cands. p < q \<or> p = q \<and> i \<le> j) \<and>
          (\<forall>j q. start = Some (j, q) \<longrightarrow> p < q \<or> p = q \<and> i \<le> j))"

definition candidates :: "nat \<Rightarrow> device_id list \<Rightarrow> manifest list \<Rightarrow> (nat \<times> nat) list" where
  "candidates i ids db =
     concat (map (\<lambda>k. case match_loop (db ! k) 0 ids of None \<Rightarrow> [] | Some p \<Rightarrow> [(p, i + k)]) [0..<length db])"

lemma candidates_Cons:
  "candidates i ids (m # ms) =
     (case match_loop m 0 ids of None \<Rightarrow> [] | Some p \<Rightarrow> [(p, i)]) @ candidates (Suc i) ids ms"
proof -
  have "[0..<length (m # ms)] = 0 # map Suc [0..<length ms]"
    by (simp add: upt_conv_Cons map_Suc_upt del: upt_Suc)
  then show ?thesis by (simp add: candidates_def o_def add_Suc_right [symmetric] del: upt_Suc add_Suc_right cong: option.case_cong)
qed

lemma best_loop_best:
  assumes "\<forall>j q. start = Some (j, q) \<longrightarrow> j < i"
  shows "best_of start (candidates i ids db) (best_loop ids i start db)"
  using assms
proof (induction db arbitrary: i start)
  case Nil
  then show ?case by (auto simp: best_of_def candidates_def split: option.splits)
next
  case (Cons m ms)
  show ?case
  proof (cases "match_loop m 0 ids")
    case None
    with Cons.IH [of start "Suc i"] Cons.prems show ?thesis
      by (simp add: candidates_Cons less_Suc_eq)
  next
    case (Some p)
    let ?s = "case start of None \<Rightarrow> Some (i, p) | Some (bi, bp) \<Rightarrow> if p < bp then Some (i, p) else start"
    have "best_of ?s (candidates (Suc i) ids ms) (best_loop ids (Suc i) ?s ms)"
      using Cons.prems by (intro Cons.IH) (auto simp: less_Suc_eq split: option.splits if_splits)
    moreover have "best_loop ids i start (m # ms) = best_loop ids (Suc i) ?s ms"
      using Some by (simp split: option.splits)
    ultimately show ?thesis
      using Some Cons.prems
      by (cases start) (fastforce simp: best_of_def candidates_Cons split: option.splits if_splits)+
  qed
qed

lemma in_candidates:
  "(p, k) \<in> set (candidates 0 ids db) \<longleftrightarrow> k < length db \<and> match_loop (db ! k) 0 ids = Some p"
  by (auto simp: candidates_def split: option.splits)

text \<open>C36. The warden binds a device at its most specific identity. \<open>best_match\<close> returns nothing
  exactly when no manifest of the database binds any identity of the node; otherwise it returns the
  manifest that binds the earliest identity any manifest binds, the first such manifest in the
  database.\<close>

theorem best_match_most_specific:
  "case best_match db node of
     None \<Rightarrow> (\<forall>k p. k < length db \<and> p < length (dn_ids node) \<longrightarrow> \<not> binds_id (db ! k) (dn_ids node ! p))
   | Some i \<Rightarrow> i < length db \<and>
       (\<exists>p < length (dn_ids node). binds_id (db ! i) (dn_ids node ! p) \<and>
          (\<forall>k q. k < length db \<and> q < length (dn_ids node) \<and> binds_id (db ! k) (dn_ids node ! q) \<longrightarrow>
             p < q \<or> p = q \<and> i \<le> k))"
proof -
  let ?ids = "dn_ids node"
  have best: "best_of None (candidates 0 ?ids db) (best_loop ?ids 0 None db)"
    by (rule best_loop_best) simp
  have cand: "\<exists>p \<le> q. (p, k) \<in> set (candidates 0 ?ids db)"
    if bound: "k < length db" "q < length ?ids" "binds_id (db ! k) (?ids ! q)" for k q
  proof -
    obtain p where p: "match_loop (db ! k) 0 ?ids = Some p"
      using bound match_loop_None [of "db ! k" 0 ?ids] by (cases "match_loop (db ! k) 0 ?ids") auto
    then have "\<forall>j < p. \<not> binds_id (db ! k) (?ids ! j)" by (auto simp: match_loop_Some)
    with bound have "p \<le> q" by (metis not_less)
    with bound p show ?thesis by (auto simp: in_candidates)
  qed
  show ?thesis
  proof (cases "best_loop ?ids 0 None db")
    case None
    with best have "candidates 0 ?ids db = []" by (simp add: best_of_def)
    with None cand show ?thesis by (fastforce simp: best_match_def)
  next
    case (Some ip)
    obtain i p where ip: "ip = (i, p)" by (cases ip)
    with Some best have mem: "(p, i) \<in> set (candidates 0 ?ids db)"
      and least: "\<forall>(q, j) \<in> set (candidates 0 ?ids db). p < q \<or> p = q \<and> i \<le> j"
      by (simp_all add: best_of_def)
    have "p < q \<or> p = q \<and> i \<le> k"
      if "k < length db" "q < length ?ids" "binds_id (db ! k) (?ids ! q)" for k q
      using cand [OF that] least by fastforce
    moreover have "i < length db" "p < length ?ids" "binds_id (db ! i) (?ids ! p)"
      using mem by (auto simp: in_candidates match_loop_Some)
    ultimately show ?thesis using Some ip by (auto simp: best_match_def)
  qed
qed

lemma demo_binds: "binds_id demo_manifest (Virtio 1)"
proof -
  have "from_str_radix 10 (2 ^ 16) ''1'' = Some 1"
    using from_show_nat [of 1 "2 ^ 16", unfolded show_one] by simp
  then show ?thesis by (simp add: binds_id_def demo_manifest_def matches_bind_def parse_id_def)
qed

theorem best_match_most_specific_witness:
  "best_match [demo_manifest] demo_node = Some 0 \<and>
     (\<exists>p < length (dn_ids demo_node). binds_id ([demo_manifest] ! 0) (dn_ids demo_node ! p))"
proof -
  have "best_match [demo_manifest] demo_node = Some 0"
    by (simp add: best_match_def demo_node_def demo_binds)
  with best_match_most_specific [of "[demo_manifest]" demo_node] show ?thesis by auto
qed

section \<open>What reconciliation guarantees\<close>

text \<open>C5. A source identifies devices and never describes them. A reconciled node carries the
  identities the source reported, and every resource of it, windows, interrupts and PCI function,
  is that of one slot of the warden's own view, the first whose base is the reported one; a report
  whose base is not a slot's is dropped.\<close>

theorem reconcile_contained:
  "case reconcile_reported_node reported trusted of
     None \<Rightarrow> first_base reported \<notin> first_base ` set trusted - {None}
   | Some d \<Rightarrow> dn_ids d = dn_ids reported \<and> first_base d = first_base reported \<and>
       (\<exists>k < length trusted. dn_resources d = (dn_resources (trusted ! k))\<lparr>nr_compatible := []\<rparr> \<and>
          first_base reported \<notin> first_base ` set (take k trusted))"
proof (cases "first_base reported")
  case None
  then show ?thesis by (simp add: reconcile_reported_node_def)
next
  case (Some base)
  show ?thesis
  proof (cases "find (\<lambda>s. first_base s = Some base) trusted")
    case None
    then have "Some base \<notin> first_base ` set trusted" by (auto simp: find_None_all)
    with None Some show ?thesis by (simp add: reconcile_reported_node_def)
  next
    case (Some slot)
    then obtain k where k: "k < length trusted" "slot = trusted ! k" "first_base slot = Some base"
      "\<forall>j < k. first_base (trusted ! j) \<noteq> Some base"
      by (auto simp: find_Some_iff)
    then have "Some base \<notin> first_base ` set (take k trusted)" by (fastforce simp: in_set_conv_nth)
    with k Some \<open>first_base reported = Some base\<close> show ?thesis
      by (auto simp: reconcile_reported_node_def first_base_def intro!: exI [of _ k])
  qed
qed

section \<open>What the PCI parser guarantees\<close>

text \<open>The line the kernel publishes for a virtio function, as the format is documented beside
  the parser.\<close>

definition hex_of :: "nat \<Rightarrow> string" where
  "hex_of n = digits_of 16 n"

definition ctl_fields :: "u8 \<Rightarrow> u8 \<Rightarrow> u8 \<Rightarrow> u16 \<Rightarrow> u16 \<Rightarrow> u16 \<Rightarrow> u32 option \<Rightarrow> string list" where
  "ctl_fields bus dev func vendor device virtio intid =
     [''bus='' @ hex_of (unat bus), ''dev='' @ hex_of (unat dev), ''fn='' @ hex_of (unat func),
      ''vendor='' @ hex_of (unat vendor), ''device='' @ hex_of (unat device),
      ''virtio='' @ show_nat (unat virtio),
      ''intid='' @ (case intid of None \<Rightarrow> ''none'' | Some i \<Rightarrow> hex_of (unat i))]"

definition ctl_line :: "u8 \<Rightarrow> u8 \<Rightarrow> u8 \<Rightarrow> u16 \<Rightarrow> u16 \<Rightarrow> u16 \<Rightarrow> u32 option \<Rightarrow> string" where
  "ctl_line bus dev func vendor device virtio intid =
     join_with '' '' (''v1'' # ctl_fields bus dev func vendor device virtio intid) @ [CHR 10]"

lemma visible_words:
  assumes "list_all is_visible w" and "ws_head rest \<noteq> 0 \<or> rest = []"
  shows "split_ws cur (w @ rest) = (if cur = [] \<and> w = [] then [] else [rev cur @ w]) @
    (if rest = [] then [] else split_ws [] (drop (ws_head rest) rest))"
  using assms(1)
proof (induction w arbitrary: cur)
  case Nil
  show ?case using assms(2) by (cases rest) (auto simp: split_ws.simps [of cur])
next
  case (Cons c w)
  then have "split_ws cur ((c # w) @ rest) = split_ws (c # cur) (w @ rest)"
    by (subst split_ws.simps) (simp add: ws_visible)
  with Cons show ?case by simp
qed

lemma split_ws_space: "split_ws cur (CHR '' '' # s) = (if cur = [] then [] else [rev cur]) @ split_ws [] s"
  by (subst split_ws.simps) (simp add: ws_head_def ws1_def split: list.splits)

lemma split_ws_newline: "split_ws cur [CHR 10] = (if cur = [] then [] else [rev cur])"
  by (subst split_ws.simps) (simp add: ws_head_def ws1_def split_ws.simps)

lemma split_words:
  assumes "\<forall>w \<in> set ws. w \<noteq> [] \<and> list_all is_visible w"
  shows "split_whitespace (join_with '' '' ws @ [CHR 10]) = ws"
  using assms unfolding split_whitespace_def
proof (induction "'' ''" ws rule: join_with.induct)
  case 1
  show ?case by (simp add: split_ws_newline)
next
  case (2 w)
  then show ?case
    using visible_words [of w "[CHR 10]" "[]"] by (simp add: ws_head_def ws1_def split_ws.simps)
next
  case (3 w x xs)
  let ?rest = "CHR '' '' # join_with '' '' (x # xs) @ [CHR 10]"
  have head: "ws_head ?rest = 1" by (simp add: ws_head_def ws1_def split: list.splits)
  then have "split_ws [] (w @ ?rest) = w # split_ws [] (join_with '' '' (x # xs) @ [CHR 10])"
    using 3 visible_words [of w ?rest "[]"] by simp
  with 3 show ?case by simp
qed

lemma digits_visible: "is_digit_char c \<Longrightarrow> is_visible c"
  by (auto simp: is_digit_char_def is_visible_def)

lemma hex_of_facts [simp]:
  "list_all is_visible (hex_of n)" "hex_of n \<noteq> ''none''" "list_all is_visible (show_nat n)"
proof -
  have digit: "is_digit_char c" if "c \<in> set (hex_of n)" for c
    using that digits_of_chars [of 16 c n] by (simp add: hex_of_def)
  then show "list_all is_visible (hex_of n)" by (simp add: list_all_iff digits_visible)
  have "\<not> is_digit_char CHR ''n''" by (simp add: is_digit_char_def)
  with digit show "hex_of n \<noteq> ''none''" by (metis list.set_intros(1))
  show "list_all is_visible (show_nat n)"
    by (auto simp: list_all_iff digits_visible dest!: show_nat_chars)
qed

lemma from_hex_of:
  "from_str_radix 16 (2 ^ LENGTH('a)) (hex_of (unat w)) = Some (unat w)" for w :: "'a::len word"
  unfolding hex_of_def by (rule from_str_radix_digits) simp_all

lemma pci_loop_ctl:
  "pci_loop (ctl_fields bus dev func vendor device virtio intid) f =
     Some (f\<lparr>pf_bus := Some bus, pf_dev := Some dev, pf_func := Some func, pf_virtio := Some virtio,
       pf_intid := (case intid of None \<Rightarrow> pf_intid f | Some i \<Rightarrow> Some i)\<rparr>)"
  using from_hex_of [of bus] from_hex_of [of dev] from_hex_of [of func] from_hex_of [of vendor]
    from_hex_of [of device] from_show_nat [of "unat virtio" "2 ^ 16"] unsigned_less [of virtio, where 'a = nat]
  by (cases intid)
     (simp_all add: ctl_fields_def pci_field_def from_hex_of [where 'a = 32, simplified])

text \<open>The topology line the kernel publishes for a PCI function is read exactly: the node has the
  function's virtio identity, its bus, device and function numbers and its wired interrupt if it
  has one, and no window; a function without a virtio identity gives no node.\<close>

theorem parse_pci_ctl_exact:
  "parse_pci_ctl lab (ctl_line bus dev func vendor device virtio intid) =
     (if virtio = 0 then None
      else Some \<lparr>dn_label = lab, dn_ids = [VirtioPci virtio],
        dn_resources = \<lparr>nr_compatible = [], nr_reg = [], nr_interrupts = (case intid of None \<Rightarrow> [] | Some i \<Rightarrow> [i]),
          nr_pci = Some (bus, dev, func)\<rparr>\<rparr>)"
proof -
  let ?ws = "''v1'' # ctl_fields bus dev func vendor device virtio intid"
  have "\<forall>w \<in> set ?ws. w \<noteq> [] \<and> list_all is_visible w"
    by (cases intid) (simp_all add: ctl_fields_def is_visible_def)
  then have "split_whitespace (ctl_line bus dev func vendor device virtio intid) = ?ws"
    unfolding ctl_line_def by (rule split_words)
  then show ?thesis
    by (simp add: parse_pci_ctl_def pci_loop_ctl split: option.splits)
qed

end
