(* ===== verification/Driver_Grant.thy ===== *)
theory Driver_Grant
  imports Driver_Source
begin

text \<open>
  The grant computation of \<open>usr/lib/libdriver/src/resource.rs\<close>: what a matched manifest and its
  node, or for a gathering manifest all its nodes, confer on a driver. The theorem of this theory
  is exact: the grant is the one the specification \<open>gathered_grant\<close> reads off the nodes, axis by
  axis, and the computation succeeds on precisely the inputs whose axes fit the caps.
\<close>

definition expand_instance :: "string \<Rightarrow> u32 \<Rightarrow> string" where
  "expand_instance template inst = replace_all ''%instance'' (show_nat (unat inst)) template"

definition resolve :: "manifest \<Rightarrow> device_node \<Rightarrow> u32 \<Rightarrow> drv_error + bound_resources" where
  "resolve m node inst =
     andthen (ok_or NoMatch (find (binds_id m) (dn_ids node))) (\<lambda>matched.
     andthen (case nd_mmio (mf_needs m) of
                MmioNone \<Rightarrow> Inr []
              | MmioNode \<Rightarrow>
                  if length (nr_reg (dn_resources node)) > MAX_MMIO then Inl TooManyWindows
                  else Inr (nr_reg (dn_resources node))) (\<lambda>mmio.
     andthen (case nd_irq (mf_needs m) of
                IrqNone \<Rightarrow> Inr []
              | IrqNode \<Rightarrow>
                  if length (nr_interrupts (dn_resources node)) > MAX_IRQ then Inl TooManyIrqs
                  else Inr (nr_interrupts (dn_resources node))
              | IrqMsi _ \<Rightarrow> Inr []) (\<lambda>irq.
     Inr \<lparr>br_instance = inst, br_compatible = as_string matched,
          br_serves = expand_instance (mf_serves m) inst, br_mmio = mmio, br_irq = irq,
          br_dma_max = (case nd_dma (mf_needs m) of DmaNone \<Rightarrow> 0 | DmaPool bytes \<Rightarrow> bytes),
          br_pci = (case nd_pci (mf_needs m) of PciNone \<Rightarrow> None | PciNode \<Rightarrow> nr_pci (dn_resources node)),
          br_pci_extra = []\<rparr>)))"

text \<open>The loops of \<open>resolve_gathered\<close> that push a node's interrupts and windows, each value after a
  check of the cap, and the step for one further node.\<close>

fun push_capped :: "drv_error \<Rightarrow> nat \<Rightarrow> 'a list \<Rightarrow> 'a list \<Rightarrow> drv_error + 'a list" where
  "push_capped err cap out [] = Inr out"
| "push_capped err cap out (x # xs) =
     (if length out \<ge> cap then Inl err else push_capped err cap (out @ [x]) xs)"

definition push_bdf :: "bound_resources \<Rightarrow> bdf \<Rightarrow> drv_error + bound_resources" where
  "push_bdf b f =
     (let held = (if br_pci b \<noteq> None then 1 else 0) + length (br_pci_extra b)
      in if held + 1 > MAX_PCI then Inl TooManyResources
         else if br_pci b = None then Inr (b\<lparr>br_pci := Some f\<rparr>)
         else Inr (b\<lparr>br_pci_extra := br_pci_extra b @ [f]\<rparr>))"

definition gather_irqs :: "manifest \<Rightarrow> device_node \<Rightarrow> u32 list \<Rightarrow> drv_error + u32 list" where
  "gather_irqs m node irq =
     (if nd_irq (mf_needs m) = IrqNode
      then push_capped TooManyIrqs MAX_IRQ irq (nr_interrupts (dn_resources node)) else Inr irq)"

definition gather_windows :: "manifest \<Rightarrow> device_node \<Rightarrow> window list \<Rightarrow> drv_error + window list" where
  "gather_windows m node mmio =
     (if nd_mmio (mf_needs m) = MmioNode
      then push_capped TooManyWindows MAX_MMIO mmio (nr_reg (dn_resources node)) else Inr mmio)"

definition gather_bdf :: "manifest \<Rightarrow> device_node \<Rightarrow> bound_resources \<Rightarrow> drv_error + bound_resources" where
  "gather_bdf m node b =
     (if nd_pci (mf_needs m) = PciNode
      then (case nr_pci (dn_resources node) of None \<Rightarrow> Inr b | Some f \<Rightarrow> push_bdf b f)
      else Inr b)"

definition gather_node :: "manifest \<Rightarrow> bound_resources \<Rightarrow> device_node \<Rightarrow> drv_error + bound_resources" where
  "gather_node m b node =
     (if \<not> list_ex (binds_id m) (dn_ids node) then Inl NoMatch
      else
        andthen (gather_irqs m node (br_irq b)) (\<lambda>irq.
        andthen (gather_windows m node (br_mmio b)) (\<lambda>mmio.
        gather_bdf m node (b\<lparr>br_irq := irq, br_mmio := mmio\<rparr>))))"

fun gather_loop :: "manifest \<Rightarrow> bound_resources \<Rightarrow> device_node list \<Rightarrow> drv_error + bound_resources" where
  "gather_loop m b [] = Inr b"
| "gather_loop m b (node # nodes) = andthen (gather_node m b node) (\<lambda>b. gather_loop m b nodes)"

definition resolve_gathered :: "manifest \<Rightarrow> device_node list \<Rightarrow> u32 \<Rightarrow> drv_error + bound_resources" where
  "resolve_gathered m nodes inst =
     (case nodes of
        [] \<Rightarrow> Inl NoMatch
      | primary # extra \<Rightarrow> andthen (resolve m primary inst) (\<lambda>b. gather_loop m b extra))"

section \<open>What a grant is\<close>

text \<open>The specification, axis by axis: the values the nodes expose where the manifest asks for
  the axis, nothing where it declines it.\<close>

definition grant_mmio :: "manifest \<Rightarrow> device_node list \<Rightarrow> window list" where
  "grant_mmio m nodes =
     (if nd_mmio (mf_needs m) = MmioNode then concat (map (\<lambda>n. nr_reg (dn_resources n)) nodes) else [])"

definition grant_irq :: "manifest \<Rightarrow> device_node list \<Rightarrow> u32 list" where
  "grant_irq m nodes =
     (if nd_irq (mf_needs m) = IrqNode then concat (map (\<lambda>n. nr_interrupts (dn_resources n)) nodes) else [])"

definition grant_pci :: "manifest \<Rightarrow> device_node list \<Rightarrow> bdf list" where
  "grant_pci m nodes =
     (if nd_pci (mf_needs m) = PciNode then List.map_filter (\<lambda>n. nr_pci (dn_resources n)) nodes else [])"

definition grant_dma :: "manifest \<Rightarrow> u64" where
  "grant_dma m = (case nd_dma (mf_needs m) of DmaNone \<Rightarrow> 0 | DmaPool bytes \<Rightarrow> bytes)"

definition bound_id :: "manifest \<Rightarrow> device_node \<Rightarrow> device_id option" where
  "bound_id m node = find (binds_id m) (dn_ids node)"

definition gathered_grant :: "manifest \<Rightarrow> device_node list \<Rightarrow> u32 \<Rightarrow> bound_resources" where
  "gathered_grant m nodes inst =
     \<lparr>br_instance = inst, br_compatible = as_string (the (bound_id m (hd nodes))),
      br_serves = expand_instance (mf_serves m) inst,
      br_mmio = grant_mmio m nodes, br_irq = grant_irq m nodes, br_dma_max = grant_dma m,
      br_pci = (case grant_pci m nodes of [] \<Rightarrow> None | f # _ \<Rightarrow> Some f),
      br_pci_extra = tl (grant_pci m nodes)\<rparr>"

definition grant_fits :: "manifest \<Rightarrow> device_node list \<Rightarrow> bool" where
  "grant_fits m nodes \<longleftrightarrow> nodes \<noteq> [] \<and> list_all (\<lambda>n. bound_id m n \<noteq> None) nodes \<and>
     length (grant_mmio m nodes) \<le> 8 \<and> length (grant_irq m nodes) \<le> 8 \<and> length (grant_pci m nodes) \<le> 8"

lemma push_capped_Inr:
  "push_capped e cap out xs = Inr ys \<longleftrightarrow> ys = out @ xs \<and> (xs = [] \<or> length (out @ xs) \<le> cap)"
proof (induction xs arbitrary: out)
  case (Cons x xs)
  show ?case
    using Cons [of "out @ [x]"] by (cases xs) (auto simp: not_le)
qed auto

lemma axis_append:
  "grant_mmio m (xs @ ys) = grant_mmio m xs @ grant_mmio m ys"
  "grant_irq m (xs @ ys) = grant_irq m xs @ grant_irq m ys"
  "grant_pci m (xs @ ys) = grant_pci m xs @ grant_pci m ys"
  by (simp_all add: grant_mmio_def grant_irq_def grant_pci_def map_filter_def)

lemma axis_single:
  "grant_mmio m [n] = (if nd_mmio (mf_needs m) = MmioNode then nr_reg (dn_resources n) else [])"
  "grant_irq m [n] = (if nd_irq (mf_needs m) = IrqNode then nr_interrupts (dn_resources n) else [])"
  "grant_pci m [n] =
     (if nd_pci (mf_needs m) = PciNode then case nr_pci (dn_resources n) of None \<Rightarrow> [] | Some f \<Rightarrow> [f] else [])"
  by (simp_all add: grant_mmio_def grant_irq_def grant_pci_def map_filter_def split: option.splits)

lemma bound_id_None: "bound_id m n \<noteq> None \<longleftrightarrow> list_ex (binds_id m) (dn_ids n)"
  by (auto simp: bound_id_def find_None_all list_ex_iff)

lemma resolve_exact:
  "resolve m node inst = Inr b \<longleftrightarrow> grant_fits m [node] \<and> b = gathered_grant m [node] inst"
proof (cases "bound_id m node")
  case None
  then show ?thesis by (auto simp: resolve_def grant_fits_def bound_id_def andthen_eq_Inr)
next
  case (Some i)
  then show ?thesis
    by (cases "nd_mmio (mf_needs m)"; cases "nd_irq (mf_needs m)"; cases "nd_pci (mf_needs m)")
       (auto simp: resolve_def grant_fits_def gathered_grant_def bound_id_def axis_single grant_dma_def
         MAX_MMIO_def MAX_IRQ_def split: option.splits)
qed

text \<open>One further node, axis by axis.\<close>

lemma gather_irqs_exact:
  "length (grant_irq m nodes) \<le> 8 \<Longrightarrow> gather_irqs m node (grant_irq m nodes) = Inr irq \<longleftrightarrow>
     length (grant_irq m (nodes @ [node])) \<le> 8 \<and> irq = grant_irq m (nodes @ [node])"
  by (auto simp: gather_irqs_def push_capped_Inr axis_append axis_single MAX_IRQ_def)

lemma gather_windows_exact:
  "length (grant_mmio m nodes) \<le> 8 \<Longrightarrow> gather_windows m node (grant_mmio m nodes) = Inr mmio \<longleftrightarrow>
     length (grant_mmio m (nodes @ [node])) \<le> 8 \<and> mmio = grant_mmio m (nodes @ [node])"
  by (auto simp: gather_windows_def push_capped_Inr axis_append axis_single MAX_MMIO_def)

text \<open>The functions of a grant: the primary and the further ones.\<close>

definition with_pci :: "bdf list \<Rightarrow> bound_resources \<Rightarrow> bound_resources" where
  "with_pci ps b = b\<lparr>br_pci := (case ps of [] \<Rightarrow> None | f # _ \<Rightarrow> Some f), br_pci_extra := tl ps\<rparr>"

lemma push_bdf_exact:
  assumes "length ps \<le> 8"
  shows "push_bdf (with_pci ps b0) f = Inr b \<longleftrightarrow> length (ps @ [f]) \<le> 8 \<and> b = with_pci (ps @ [f]) b0"
  using assms by (cases ps) (auto simp: push_bdf_def with_pci_def MAX_PCI_def Let_def)

lemma gather_bdf_exact:
  assumes "length (grant_pci m nodes) \<le> 8"
  shows "gather_bdf m node (with_pci (grant_pci m nodes) b0) = Inr b \<longleftrightarrow>
    length (grant_pci m (nodes @ [node])) \<le> 8 \<and> b = with_pci (grant_pci m (nodes @ [node])) b0"
  using assms
  by (cases "nr_pci (dn_resources node)") (auto simp: gather_bdf_def axis_append axis_single push_bdf_exact)

lemma gathered_grant_parts:
  "gathered_grant m nodes inst = with_pci (grant_pci m nodes)
     \<lparr>br_instance = inst, br_compatible = as_string (the (bound_id m (hd nodes))),
      br_serves = expand_instance (mf_serves m) inst, br_mmio = grant_mmio m nodes,
      br_irq = grant_irq m nodes, br_dma_max = grant_dma m, br_pci = None, br_pci_extra = []\<rparr>"
  by (simp add: gathered_grant_def with_pci_def)

lemma with_pci_update: "(with_pci ps b)\<lparr>br_irq := i, br_mmio := w\<rparr> = with_pci ps (b\<lparr>br_irq := i, br_mmio := w\<rparr>)"
  by (simp add: with_pci_def)

lemma with_pci_sel [simp]: "br_irq (with_pci ps b) = br_irq b" "br_mmio (with_pci ps b) = br_mmio b"
  by (simp_all add: with_pci_def)

lemma gather_node_exact:
  assumes "grant_fits m nodes"
  shows "gather_node m (gathered_grant m nodes inst) node = Inr b \<longleftrightarrow>
    grant_fits m (nodes @ [node]) \<and> b = gathered_grant m (nodes @ [node]) inst"
proof (cases "bound_id m node = None")
  case True
  then show ?thesis
    using bound_id_None [of m node] by (simp add: gather_node_def grant_fits_def)
next
  case False
  have small: "length (grant_mmio m nodes) \<le> 8" "length (grant_irq m nodes) \<le> 8" "length (grant_pci m nodes) \<le> 8"
    and ne: "nodes \<noteq> []" and all: "list_all (\<lambda>n. bound_id m n \<noteq> None) nodes"
    using assms by (simp_all add: grant_fits_def)
  show ?thesis
    using False ne all bound_id_None [of m node]
    by (auto simp: gather_node_def andthen_eq_Inr gathered_grant_parts with_pci_update grant_fits_def
        gather_irqs_exact [OF small(2)] gather_windows_exact [OF small(1)] gather_bdf_exact [OF small(3)])
qed

lemma gather_loop_exact:
  "grant_fits m nodes \<Longrightarrow> gather_loop m (gathered_grant m nodes inst) others = Inr b \<longleftrightarrow>
     grant_fits m (nodes @ others) \<and> b = gathered_grant m (nodes @ others) inst"
proof (induction others arbitrary: nodes)
  case (Cons n others)
  have shorter: "grant_fits m (nodes @ [n])" if "grant_fits m (nodes @ n # others)"
    using that axis_append [of m "nodes @ [n]" others] by (auto simp: grant_fits_def)
  show ?case
    using Cons.IH [of "nodes @ [n]"] Cons.prems shorter
    by (auto simp: andthen_eq_Inr gather_node_exact)
qed auto

lemma grant_exact:
  "resolve_gathered m nodes inst = Inr b \<longleftrightarrow> grant_fits m nodes \<and> b = gathered_grant m nodes inst"
proof (cases nodes)
  case Nil
  then show ?thesis by (simp add: resolve_gathered_def grant_fits_def)
next
  case (Cons n others)
  have first: "grant_fits m [n]" if "grant_fits m (n # others)"
    using that axis_append [of m "[n]" others] by (auto simp: grant_fits_def)
  show ?thesis
    using gather_loop_exact [of m "[n]" inst others b] first Cons
    by (auto simp: resolve_gathered_def andthen_eq_Inr resolve_exact)
qed

text \<open>C2. A grant is exactly what the devices expose and the manifest asks for. \<open>resolve_gathered\<close>
  succeeds if and only if there is a node, the manifest binds every one of them and each axis fits
  its cap of eight; the grant is then, per axis, the values of the nodes in order where the manifest
  asks for the axis and nothing where it declines it, the declared DMA budget, the most specific
  identity of the first node and the served path of the instance. No value is made up.\<close>

theorem resolve_gathered_exact:
  "resolve_gathered m nodes inst = Inr b \<longleftrightarrow> grant_fits m nodes \<and> b = gathered_grant m nodes inst"
  by (rule grant_exact)

section \<open>The served path\<close>

text \<open>Replacing a pattern is joining the pieces between its occurrences.\<close>

function pieces :: "string \<Rightarrow> string \<Rightarrow> string list" where
  "pieces pat s =
     (case s of
        [] \<Rightarrow> [[]]
      | x # xs \<Rightarrow>
          (case strip_prefix pat s of
             Some rest \<Rightarrow> if pat = [] then [s] else [] # pieces pat rest
           | None \<Rightarrow> (case pieces pat xs of [] \<Rightarrow> [] | h # t \<Rightarrow> (x # h) # t)))"
  by auto
termination
  by (relation "measure (\<lambda>(_, s). length s)") (auto simp: strip_prefix_Some)

declare pieces.simps [simp del]

lemma pieces_ne [simp]: "pieces pat s \<noteq> []"
  by (induction pat s rule: pieces.induct) (subst pieces.simps, auto split: list.splits option.splits)

lemma join_Cons: "ps \<noteq> [] \<Longrightarrow> join_with new (p # ps) = p @ new @ join_with new ps"
  by (cases ps) auto

lemma replace_all_pieces:
  assumes "pat \<noteq> []"
  shows "replace_all pat new s = join_with new (pieces pat s)"
  using assms
proof (induction pat new s rule: replace_all.induct)
  case (1 pat new s)
  show ?case
  proof (cases s)
    case Nil
    then show ?thesis by (simp add: replace_all.simps pieces.simps)
  next
    case (Cons x xs)
    show ?thesis
    proof (cases "strip_prefix pat s")
      case None
      obtain h t where p: "pieces pat xs = h # t" by (cases "pieces pat xs") auto
      have "replace_all pat new s = x # join_with new (h # t)"
        using 1(1) [OF Cons None 1(3)] Cons None p by (subst replace_all.simps) simp
      moreover have "pieces pat s = (x # h) # t"
        using Cons None p by (subst pieces.simps) simp
      moreover have "x # join_with new (h # t) = join_with new ((x # h) # t)" by (cases t) auto
      ultimately show ?thesis by simp
    next
      case (Some rest)
      have "replace_all pat new s = new @ join_with new (pieces pat rest)"
        using 1(2) [OF Cons Some 1(3) 1(3)] Cons Some 1(3) by (subst replace_all.simps) simp
      moreover have "pieces pat s = [] # pieces pat rest"
        using Cons Some 1(3) by (subst pieces.simps) simp
      ultimately show ?thesis by (simp add: join_Cons)
    qed
  qed
qed

lemma pieces_occurs:
  assumes "pat \<noteq> []" and "s = a @ pat @ b"
  shows "2 \<le> length (pieces pat s)"
  using assms
proof (induction pat s arbitrary: a rule: pieces.induct)
  case (1 pat s)
  then have "s \<noteq> []" by simp
  then obtain x xs where s: "s = x # xs" by (cases s) blast+
  show ?case
  proof (cases "strip_prefix pat s")
    case None
    then have "a \<noteq> []" using 1(4) by auto
    then obtain a' where "xs = a' @ pat @ b" using 1(4) s by (cases a) auto
    with 1(1) [OF s None 1(3)] have "2 \<le> length (pieces pat xs)" by blast
    moreover obtain h t where p: "pieces pat xs = h # t" by (cases "pieces pat xs") auto
    moreover have "pieces pat s = (x # h) # t" using s None p by (subst pieces.simps) simp
    ultimately show ?thesis by simp
  next
    case (Some rest)
    have "length (pieces pat rest) \<noteq> 0" by simp
    moreover have "pieces pat s = [] # pieces pat rest" using s Some 1(3) by (subst pieces.simps) simp
    ultimately show ?thesis by (cases "pieces pat rest") auto
  qed
qed

lemma length_join:
  "ps \<noteq> [] \<Longrightarrow> length (join_with new ps) = sum_list (map length ps) + (length ps - 1) * length new"
proof (induction ps)
  case (Cons p ps)
  then show ?case by (cases ps) auto
qed simp

lemma join_inj:
  assumes "2 \<le> length ps" and "join_with u ps = join_with v ps"
  shows "u = v"
proof -
  obtain p q qs where ps: "ps = p # q # qs"
    using assms(1) by (metis One_nat_def Suc_1 Suc_le_length_iff)
  have "length (join_with u ps) = length (join_with v ps)" using assms(2) by simp
  then have "Suc (length qs) * length u = Suc (length qs) * length v"
    using ps by (simp add: length_join del: join_with.simps)
  then have "length u = length v" by (simp only: mult_cancel1) simp
  with assms(2) ps show ?thesis by simp
qed

lemma show_nat_inj: "show_nat i = show_nat j \<Longrightarrow> i = j"
  using from_show_nat [of i "Suc (i + j)"] from_show_nat [of j "Suc (i + j)"]
  by (metis le_add1 le_add2 le_imp_less_Suc option.inject)

text \<open>Two instances of a driver never serve the same path: if the manifest's path holds
  \<open>%instance\<close> anywhere, its expansions for two different instance numbers differ.\<close>

theorem instance_paths_distinct:
  assumes "mf_serves m = a @ ''%instance'' @ b" and "i \<noteq> j"
  shows "expand_instance (mf_serves m) i \<noteq> expand_instance (mf_serves m) j"
proof
  let ?ps = "pieces ''%instance'' (mf_serves m)"
  assume "expand_instance (mf_serves m) i = expand_instance (mf_serves m) j"
  then have "join_with (show_nat (unat i)) ?ps = join_with (show_nat (unat j)) ?ps"
    by (simp add: expand_instance_def replace_all_pieces)
  moreover have "2 \<le> length ?ps" using assms(1) by (intro pieces_occurs) simp_all
  ultimately have "unat i = unat j" by (metis join_inj show_nat_inj)
  with assms(2) show False by (simp add: word_unat_eq_iff)
qed

theorem instance_paths_distinct_witness:
  "expand_instance (mf_serves demo_manifest) 0 \<noteq> expand_instance (mf_serves demo_manifest) 1"
  by (rule instance_paths_distinct [of _ "''/dev/net/''" "[]"]) (simp_all add: demo_manifest_def)

section \<open>From the grant to the driver\<close>

lemma set_replace: "set (replace_all pat new s) \<subseteq> set new \<union> set s"
proof (induction pat new s rule: replace_all.induct)
  case (1 pat new s)
  show ?case
  proof (cases s)
    case Nil
    then show ?thesis by (simp add: replace_all.simps)
  next
    case (Cons x xs)
    show ?thesis
    proof (cases "strip_prefix pat s")
      case None
      with Cons 1(1) [OF Cons None] show ?thesis by (subst replace_all.simps) auto
    next
      case (Some rest)
      then have "set rest \<subseteq> set s" by (auto simp: strip_prefix_Some)
      with Cons Some 1(2) [OF Cons Some] show ?thesis by (subst replace_all.simps) auto
    qed
  qed
qed

text \<open>C26. The driver reads exactly the grant the warden computed. A grant that was computed always fits
  the descriptor: unless the bound identity or the manifest's path holds the field delimiter,
  encoding it succeeds and decoding the text gives back the same grant.\<close>

theorem grant_reaches_driver:
  assumes "resolve_gathered m nodes inst = Inr b"
    and "CHR '';'' \<notin> set (br_compatible b)" and "CHR '';'' \<notin> set (mf_serves m)"
  shows "\<exists>s. to_descriptor b = Inr s \<and> parse_descriptor s = Inr b"
proof -
  have fits: "grant_fits m nodes" and b: "b = gathered_grant m nodes inst"
    using assms(1) by (simp_all add: grant_exact)
  have "CHR '';'' \<notin> set (expand_instance (mf_serves m) inst)"
    using set_replace [of "''%instance''" "show_nat (unat inst)" "mf_serves m"] assms(3)
      show_nat_no(1) [of "unat inst"]
    by (auto simp: expand_instance_def)
  then have "descriptor_ok b"
    using fits assms(2) by (auto simp: descriptor_ok_def b gathered_grant_def grant_fits_def)
  then show ?thesis using parse_texts [of b] by (simp add: to_descriptor_texts descriptor_text_def)
qed

definition demo_bound :: bound_resources where
  "demo_bound = gathered_grant demo_manifest [demo_node] 0"

lemma demo_fits: "grant_fits demo_manifest [demo_node]"
  using demo_binds
  by (simp add: grant_fits_def bound_id_def axis_single)
     (simp add: demo_node_def demo_manifest_def)

theorem grant_reaches_driver_witness:
  "resolve_gathered demo_manifest [demo_node] 0 = Inr demo_bound \<and>
     (\<exists>s. to_descriptor demo_bound = Inr s \<and> parse_descriptor s = Inr demo_bound)"
proof -
  have "resolve_gathered demo_manifest [demo_node] 0 = Inr demo_bound"
    using demo_fits by (simp add: grant_exact demo_bound_def)
  moreover have "CHR '';'' \<notin> set (br_compatible demo_bound)"
    using demo_binds show_nat_no(1) [of "unat (1 :: u16)"]
    by (simp add: demo_bound_def gathered_grant_def bound_id_def demo_node_def)
  moreover have "CHR '';'' \<notin> set (mf_serves demo_manifest)" by (simp add: demo_manifest_def)
  ultimately show ?thesis using grant_reaches_driver by blast
qed

end
