(* ===== verification/Driver_Runtime.thy ===== *)
theory Driver_Runtime
  imports Driver_Grant
begin

text \<open>
  The kernel allowance the warden builds from a grant (\<open>to_allowance\<close> of
  \<open>usr/lib/libdriver/src/driver.rs\<close> over \<open>TAllowanceDesc\<close> of \<open>usr/lib/libthyla-rs/src/lib.rs\<close>)
  and the address bump allocator a driver maps its windows with (\<open>DriverVa\<close>). The arrays of the
  descriptor are lists of their fixed length.
\<close>

section \<open>The allowance descriptor\<close>

definition T_ALLOWANCE_MMIO_MAX :: nat where "T_ALLOWANCE_MMIO_MAX = 8"
definition T_ALLOWANCE_IRQ_MAX :: nat where "T_ALLOWANCE_IRQ_MAX = 8"
definition T_ALLOWANCE_PCI_MAX :: nat where "T_ALLOWANCE_PCI_MAX = 8"

definition t_pci_bdf_pack :: "u8 \<Rightarrow> u8 \<Rightarrow> u8 \<Rightarrow> u32" where
  "t_pci_bdf_pack bus dev fname = push_bit 16 (ucast bus) OR push_bit 8 (ucast dev) OR ucast fname"

record allowance =
  al_mmio :: "window list"
  al_mmio_count :: u32
  al_irq_count :: u32
  al_irq :: "u32 list"
  al_dma_max :: u64
  al_pci_count :: u32
  al_pci :: "u32 list"

definition allowance_empty :: allowance where
  "allowance_empty = \<lparr>al_mmio = replicate T_ALLOWANCE_MMIO_MAX (0, 0), al_mmio_count = 0, al_irq_count = 0,
     al_irq = replicate T_ALLOWANCE_IRQ_MAX 0, al_dma_max = 0, al_pci_count = 0,
     al_pci = replicate T_ALLOWANCE_PCI_MAX 0\<rparr>"

definition push_mmio :: "u64 \<Rightarrow> u64 \<Rightarrow> allowance \<Rightarrow> bool \<times> allowance" where
  "push_mmio base sz d =
     (let i = unat (al_mmio_count d)
      in if i \<ge> T_ALLOWANCE_MMIO_MAX then (False, d)
         else (True, d\<lparr>al_mmio := (al_mmio d)[i := (base, sz)], al_mmio_count := al_mmio_count d + 1\<rparr>))"

definition push_irq :: "u32 \<Rightarrow> allowance \<Rightarrow> bool \<times> allowance" where
  "push_irq intid d =
     (let i = unat (al_irq_count d)
      in if i \<ge> T_ALLOWANCE_IRQ_MAX then (False, d)
         else (True, d\<lparr>al_irq := (al_irq d)[i := intid], al_irq_count := al_irq_count d + 1\<rparr>))"

definition set_dma_max :: "u64 \<Rightarrow> allowance \<Rightarrow> allowance" where
  "set_dma_max v d = d\<lparr>al_dma_max := v\<rparr>"

definition push_pci :: "bdf \<Rightarrow> allowance \<Rightarrow> bool \<times> allowance" where
  "push_pci f d =
     (case f of (bus, dev, fname) \<Rightarrow>
        let i = unat (al_pci_count d)
        in if i \<ge> T_ALLOWANCE_PCI_MAX then (False, d)
           else (True, d\<lparr>al_pci := (al_pci d)[i := t_pci_bdf_pack bus dev fname], al_pci_count := al_pci_count d + 1\<rparr>))"

text \<open>\<open>to_allowance\<close> drops the result of every push.\<close>

definition to_allowance :: "bound_resources \<Rightarrow> allowance" where
  "to_allowance res =
     (let d = allowance_empty;
          d = fold (\<lambda>(base, sz) d. case page_round_window base sz of (lo, len) \<Rightarrow> snd (push_mmio lo len d)) (br_mmio res) d;
          d = fold (\<lambda>intid d. snd (push_irq intid d)) (br_irq res) d;
          d = set_dma_max (br_dma_max res) d;
          d = (case br_pci res of Some f \<Rightarrow> snd (push_pci f d) | None \<Rightarrow> d)
      in fold (\<lambda>f d. snd (push_pci f d)) (br_pci_extra res) d)"

section \<open>What the allowance holds\<close>

text \<open>The entries of an allowance: the used part of each array.\<close>

definition allowed_mmio :: "allowance \<Rightarrow> window list" where
  "allowed_mmio d = take (unat (al_mmio_count d)) (al_mmio d)"

definition allowed_irq :: "allowance \<Rightarrow> u32 list" where
  "allowed_irq d = take (unat (al_irq_count d)) (al_irq d)"

definition allowed_pci :: "allowance \<Rightarrow> u32 list" where
  "allowed_pci d = take (unat (al_pci_count d)) (al_pci d)"

definition allowance_wf :: "allowance \<Rightarrow> bool" where
  "allowance_wf d \<longleftrightarrow> length (al_mmio d) = 8 \<and> length (al_irq d) = 8 \<and> length (al_pci d) = 8 \<and>
     unat (al_mmio_count d) \<le> 8 \<and> unat (al_irq_count d) \<le> 8 \<and> unat (al_pci_count d) \<le> 8"

text \<open>A push appends to its own axis while there is room and touches no other. The three arrays
  share one argument, on a list, a counter and a value.\<close>

lemma take_push:
  fixes n :: u32
  assumes "length xs = 8" and "unat n < 8"
  shows "take (unat (n + 1)) (xs[unat n := x]) = take (unat n) xs @ [x]" and "unat (n + 1) = unat n + 1"
proof -
  show n: "unat (n + 1) = unat n + 1" using assms(2) by (simp add: unat_word_ariths)
  have "take (Suc (unat n)) (xs[unat n := x]) = take (unat n) (xs[unat n := x]) @ [x]"
    using assms by (subst take_Suc_conv_app_nth) simp_all
  then show "take (unat (n + 1)) (xs[unat n := x]) = take (unat n) xs @ [x]" by (simp add: n)
qed

lemma length_allowed:
  "allowance_wf d \<Longrightarrow> length (allowed_mmio d) = unat (al_mmio_count d)"
  "allowance_wf d \<Longrightarrow> length (allowed_irq d) = unat (al_irq_count d)"
  "allowance_wf d \<Longrightarrow> length (allowed_pci d) = unat (al_pci_count d)"
  by (simp_all add: allowance_wf_def allowed_mmio_def allowed_irq_def allowed_pci_def)

lemma push_mmio_ok:
  assumes "allowance_wf d" and "length (allowed_mmio d) < 8"
  shows "\<exists>d'. push_mmio lo len d = (True, d') \<and> allowance_wf d' \<and> allowed_mmio d' = allowed_mmio d @ [(lo, len)] \<and>
    allowed_irq d' = allowed_irq d \<and> allowed_pci d' = allowed_pci d \<and> al_dma_max d' = al_dma_max d"
proof -
  have n: "unat (al_mmio_count d) < 8" and l: "length (al_mmio d) = 8"
    using assms length_allowed(1) [OF assms(1)] by (simp_all add: allowance_wf_def)
  from take_push(1) [OF l n, of "(lo, len)"] take_push(2) [OF l n] show ?thesis
    using assms(1) n
    by (simp add: push_mmio_def Let_def T_ALLOWANCE_MMIO_MAX_def allowance_wf_def allowed_mmio_def allowed_irq_def allowed_pci_def)
qed

lemma push_irq_ok:
  assumes "allowance_wf d" and "length (allowed_irq d) < 8"
  shows "\<exists>d'. push_irq i d = (True, d') \<and> allowance_wf d' \<and> allowed_irq d' = allowed_irq d @ [i] \<and>
    allowed_mmio d' = allowed_mmio d \<and> allowed_pci d' = allowed_pci d \<and> al_dma_max d' = al_dma_max d"
proof -
  have n: "unat (al_irq_count d) < 8" and l: "length (al_irq d) = 8"
    using assms length_allowed(2) [OF assms(1)] by (simp_all add: allowance_wf_def)
  from take_push(1) [OF l n, of i] take_push(2) [OF l n] show ?thesis
    using assms(1) n
    by (simp add: push_irq_def Let_def T_ALLOWANCE_IRQ_MAX_def allowance_wf_def allowed_mmio_def allowed_irq_def allowed_pci_def)
qed

definition pack :: "bdf \<Rightarrow> u32" where
  "pack f = (case f of (bus, dev, fname) \<Rightarrow> t_pci_bdf_pack bus dev fname)"

lemma push_pci_ok:
  assumes "allowance_wf d" and "length (allowed_pci d) < 8"
  shows "\<exists>d'. push_pci f d = (True, d') \<and> allowance_wf d' \<and> allowed_pci d' = allowed_pci d @ [pack f] \<and>
    allowed_mmio d' = allowed_mmio d \<and> allowed_irq d' = allowed_irq d \<and> al_dma_max d' = al_dma_max d"
proof -
  obtain bus dev fname where f: "f = (bus, dev, fname)" by (cases f)
  have n: "unat (al_pci_count d) < 8" and l: "length (al_pci d) = 8"
    using assms length_allowed(3) [OF assms(1)] by (simp_all add: allowance_wf_def)
  from take_push(1) [OF l n, of "pack f"] take_push(2) [OF l n] show ?thesis
    using assms(1) n
    by (simp add: push_pci_def f pack_def Let_def T_ALLOWANCE_PCI_MAX_def allowance_wf_def allowed_mmio_def allowed_irq_def allowed_pci_def)
qed

lemma fold_mmio:
  assumes "allowance_wf d" and "length (allowed_mmio d @ ws) \<le> 8"
  shows "\<exists>d'. fold (\<lambda>(base, sz) d. case page_round_window base sz of (lo, len) \<Rightarrow> snd (push_mmio lo len d)) ws d = d' \<and>
    allowance_wf d' \<and> allowed_mmio d' = allowed_mmio d @ map (\<lambda>(b, s). page_round_window b s) ws \<and>
    allowed_irq d' = allowed_irq d \<and> allowed_pci d' = allowed_pci d \<and> al_dma_max d' = al_dma_max d"
  using assms
proof (induction ws arbitrary: d)
  case (Cons w ws)
  obtain b s lo len where w: "w = (b, s)" and p: "page_round_window b s = (lo, len)"
    by (cases w; cases "page_round_window (fst w) (snd w)") auto
  obtain d' where d': "push_mmio lo len d = (True, d')" "allowance_wf d'" "allowed_mmio d' = allowed_mmio d @ [(lo, len)]"
    "allowed_irq d' = allowed_irq d" "allowed_pci d' = allowed_pci d" "al_dma_max d' = al_dma_max d"
    using push_mmio_ok [OF Cons.prems(1), of lo len] Cons.prems(2) by auto
  with Cons.IH [of d'] Cons.prems(2) show ?case by (simp add: w p)
qed simp

lemma fold_irq:
  assumes "allowance_wf d" and "length (allowed_irq d @ is) \<le> 8"
  shows "\<exists>d'. fold (\<lambda>i d. snd (push_irq i d)) is d = d' \<and> allowance_wf d' \<and> allowed_irq d' = allowed_irq d @ is \<and>
    allowed_mmio d' = allowed_mmio d \<and> allowed_pci d' = allowed_pci d \<and> al_dma_max d' = al_dma_max d"
  using assms
proof (induction "is" arbitrary: d)
  case (Cons i rest)
  obtain d' where d': "push_irq i d = (True, d')" "allowance_wf d'" "allowed_irq d' = allowed_irq d @ [i]"
    "allowed_mmio d' = allowed_mmio d" "allowed_pci d' = allowed_pci d" "al_dma_max d' = al_dma_max d"
    using push_irq_ok [OF Cons.prems(1), of i] Cons.prems(2) by auto
  with Cons.IH [of d'] Cons.prems(2) show ?case by simp
qed simp

lemma fold_pci:
  assumes "allowance_wf d" and "length (allowed_pci d @ map pack fs) \<le> 8"
  shows "\<exists>d'. fold (\<lambda>f d. snd (push_pci f d)) fs d = d' \<and> allowance_wf d' \<and> allowed_pci d' = allowed_pci d @ map pack fs \<and>
    allowed_mmio d' = allowed_mmio d \<and> allowed_irq d' = allowed_irq d \<and> al_dma_max d' = al_dma_max d"
  using assms
proof (induction fs arbitrary: d)
  case (Cons f fs)
  obtain d' where d': "push_pci f d = (True, d')" "allowance_wf d'" "allowed_pci d' = allowed_pci d @ [pack f]"
    "allowed_mmio d' = allowed_mmio d" "allowed_irq d' = allowed_irq d" "al_dma_max d' = al_dma_max d"
    using push_pci_ok [OF Cons.prems(1), of f] Cons.prems(2) by auto
  with Cons.IH [of d'] Cons.prems(2) show ?case by simp
qed simp

lemma empty_wf: "allowance_wf allowance_empty" "allowed_mmio allowance_empty = []" "allowed_irq allowance_empty = []"
  "allowed_pci allowance_empty = []" "al_dma_max allowance_empty = 0"
  by (simp_all add: allowance_empty_def allowance_wf_def allowed_mmio_def allowed_irq_def allowed_pci_def
      T_ALLOWANCE_MMIO_MAX_def T_ALLOWANCE_IRQ_MAX_def T_ALLOWANCE_PCI_MAX_def)

definition granted_pci :: "bound_resources \<Rightarrow> bdf list" where
  "granted_pci res = (case br_pci res of None \<Rightarrow> [] | Some f \<Rightarrow> [f]) @ br_pci_extra res"

lemma to_allowance_fold:
  "to_allowance res =
     fold (\<lambda>f d. snd (push_pci f d)) (granted_pci res)
       (set_dma_max (br_dma_max res)
         (fold (\<lambda>i d. snd (push_irq i d)) (br_irq res)
           (fold (\<lambda>(base, sz) d. case page_round_window base sz of (lo, len) \<Rightarrow> snd (push_mmio lo len d)) (br_mmio res) allowance_empty)))"
  by (simp add: to_allowance_def Let_def granted_pci_def split: option.split)

lemma set_dma_max_ok: "allowance_wf (set_dma_max v d) = allowance_wf d" "allowed_mmio (set_dma_max v d) = allowed_mmio d"
  "allowed_irq (set_dma_max v d) = allowed_irq d" "allowed_pci (set_dma_max v d) = allowed_pci d"
  "al_dma_max (set_dma_max v d) = v"
  by (simp_all add: set_dma_max_def allowance_wf_def allowed_mmio_def allowed_irq_def allowed_pci_def)

lemma to_allowance_exact:
  assumes "length (br_mmio res) \<le> 8" and "length (br_irq res) \<le> 8" and "length (granted_pci res) \<le> 8"
  shows "allowed_mmio (to_allowance res) = map (\<lambda>(b, s). page_round_window b s) (br_mmio res)"
    and "allowed_irq (to_allowance res) = br_irq res"
    and "allowed_pci (to_allowance res) = map pack (granted_pci res)"
    and "al_dma_max (to_allowance res) = br_dma_max res"
proof -
  obtain d1 where d1: "fold (\<lambda>(base, sz) d. case page_round_window base sz of (lo, len) \<Rightarrow> snd (push_mmio lo len d)) (br_mmio res) allowance_empty = d1"
    "allowance_wf d1" "allowed_mmio d1 = map (\<lambda>(b, s). page_round_window b s) (br_mmio res)" "allowed_irq d1 = []" "allowed_pci d1 = []"
    using fold_mmio [OF empty_wf(1), of "br_mmio res"] assms(1) by (auto simp: empty_wf)
  obtain d2 where d2: "fold (\<lambda>i d. snd (push_irq i d)) (br_irq res) d1 = d2"
    "allowance_wf d2" "allowed_mmio d2 = allowed_mmio d1" "allowed_irq d2 = br_irq res" "allowed_pci d2 = []"
    using fold_irq [OF d1(2), of "br_irq res"] assms(2) d1 by auto
  obtain d3 where d3: "fold (\<lambda>f d. snd (push_pci f d)) (granted_pci res) (set_dma_max (br_dma_max res) d2) = d3"
    "allowed_mmio d3 = allowed_mmio d1" "allowed_irq d3 = br_irq res" "allowed_pci d3 = map pack (granted_pci res)"
    "al_dma_max d3 = br_dma_max res"
    using fold_pci [of "set_dma_max (br_dma_max res) d2" "granted_pci res"] assms(3) d2 by (auto simp: set_dma_max_ok)
  have "to_allowance res = d3" using d1(1) d2(1) d3(1) by (simp add: to_allowance_fold)
  with d1 d3 show "allowed_mmio (to_allowance res) = map (\<lambda>(b, s). page_round_window b s) (br_mmio res)"
    and "allowed_irq (to_allowance res) = br_irq res"
    and "allowed_pci (to_allowance res) = map pack (granted_pci res)"
    and "al_dma_max (to_allowance res) = br_dma_max res" by simp_all
qed

lemma t_pci_bdf_pack_fields:
  "(ucast (drop_bit 16 (t_pci_bdf_pack bus dev fname)) :: u8) = bus"
  "(ucast (drop_bit 8 (t_pci_bdf_pack bus dev fname)) :: u8) = dev"
  "(ucast (t_pci_bdf_pack bus dev fname) :: u8) = fname"
  by (rule bit_word_eqI; auto simp: t_pci_bdf_pack_def bit_simps dest: bit_imp_le_length)+

lemma pack_inj: "pack f = pack g \<longleftrightarrow> f = g"
  using t_pci_bdf_pack_fields by (cases f; cases g) (metis pack_def case_prod_conv)

lemma granted_pci_gathered: "granted_pci (gathered_grant m nodes inst) = grant_pci m nodes"
  by (simp add: granted_pci_def gathered_grant_def split: list.split)

text \<open>C3. The authority the kernel is told to enforce is exactly the grant: for every grant the warden
  resolves, no entry is dropped by a full table, the windows are the matched nodes' windows
  rounded to pages, the interrupts and the per-buffer DMA ceiling are the resolved ones, and a PCI
  function is allowed exactly when one of the matched nodes is that function.\<close>

theorem allowance_is_grant:
  assumes "resolve_gathered m nodes inst = Inr b"
  shows "allowed_mmio (to_allowance b) = map (\<lambda>(base, sz). page_round_window base sz) (grant_mmio m nodes) \<and>
    allowed_irq (to_allowance b) = grant_irq m nodes \<and> al_dma_max (to_allowance b) = grant_dma m \<and>
    (t_pci_bdf_pack bus dev fname \<in> set (allowed_pci (to_allowance b)) \<longleftrightarrow> (bus, dev, fname) \<in> set (grant_pci m nodes))"
proof -
  have b: "b = gathered_grant m nodes inst" and fits: "grant_fits m nodes" using assms by (simp_all add: grant_exact)
  have parts: "br_mmio b = grant_mmio m nodes" "br_irq b = grant_irq m nodes" "br_dma_max b = grant_dma m"
    "granted_pci b = grant_pci m nodes"
    by (simp_all add: b granted_pci_gathered) (simp_all add: gathered_grant_def)
  have "length (br_mmio b) \<le> 8" "length (br_irq b) \<le> 8" "length (granted_pci b) \<le> 8"
    using fits by (simp_all add: parts grant_fits_def)
  note exact = to_allowance_exact [OF this]
  have "t_pci_bdf_pack bus dev fname = pack (bus, dev, fname)" by (simp add: pack_def)
  then have "t_pci_bdf_pack bus dev fname \<in> set (allowed_pci (to_allowance b)) \<longleftrightarrow> (bus, dev, fname) \<in> set (grant_pci m nodes)"
    using exact(3) by (auto simp: parts pack_inj)
  then show ?thesis using exact(1,2,4) by (simp add: parts)
qed

theorem allowance_is_grant_witness:
  "resolve_gathered demo_manifest [demo_node] 0 = Inr demo_bound \<and>
     allowed_mmio (to_allowance demo_bound) = map (\<lambda>(base, sz). page_round_window base sz) (grant_mmio demo_manifest [demo_node])"
proof -
  have "resolve_gathered demo_manifest [demo_node] 0 = Inr demo_bound"
    using demo_fits by (simp add: grant_exact demo_bound_def)
  then show ?thesis using allowance_is_grant by blast
qed

section \<open>The driver side\<close>

definition EXIT_OK :: int where "EXIT_OK = 0"
definition EXIT_BIND :: int where "EXIT_BIND = 71"
definition EXIT_PROBE :: int where "EXIT_PROBE = 72"
definition EXIT_SERVE :: int where "EXIT_SERVE = 73"

definition DRIVER_VA_BASE :: u64 where "DRIVER_VA_BASE = 0x01000000"
definition DRIVER_PAGE :: u64 where "DRIVER_PAGE = 0x1000"

text \<open>\<open>DriverVa\<close> is its bump pointer. \<open>u64::div_ceil\<close> adds one to the quotient when there is a
  remainder.\<close>

type_synonym driver_va = u64

definition div_ceil :: "u64 \<Rightarrow> u64 \<Rightarrow> u64" where
  "div_ceil a b = a div b + (if a mod b \<noteq> 0 then 1 else 0)"

definition driver_va_new :: driver_va where
  "driver_va_new = DRIVER_VA_BASE"

definition driver_va_take :: "u64 \<Rightarrow> driver_va \<Rightarrow> u64 \<times> driver_va" where
  "driver_va_take len va =
     (let pages = max (div_ceil len DRIVER_PAGE) 1
      in (va, sat_add va (sat_mul pages DRIVER_PAGE)))"

text \<open>\<open>env::args().get_str(1)\<close> is the argument; the handles are what the kernel answers to
  \<open>Mmio::new\<close>, \<open>Irq::new\<close> and \<open>Dma::new\<close> (\<open>None\<close> a refusal), parameters of the operations.\<close>

definition driver_bind :: "string option \<Rightarrow> drv_error + bound_resources" where
  "driver_bind arg = andthen (ok_or NoDescriptor arg) parse_descriptor"

definition driver_run ::
  "(bound_resources \<Rightarrow> drv_error + 'd) \<Rightarrow> ('d \<Rightarrow> bound_resources \<Rightarrow> drv_error + unit) \<Rightarrow> string option \<Rightarrow> int" where
  "driver_run probe serve arg =
     (case driver_bind arg of
        Inl _ \<Rightarrow> EXIT_BIND
      | Inr res \<Rightarrow>
          (case probe res of
             Inl _ \<Rightarrow> EXIT_PROBE
           | Inr dev \<Rightarrow> (case serve dev res of Inr _ \<Rightarrow> EXIT_OK | Inl _ \<Rightarrow> EXIT_SERVE)))"

definition map_mmio ::
  "(u64 \<Rightarrow> u64 \<Rightarrow> u64 \<Rightarrow> 'h option) \<Rightarrow> bound_resources \<Rightarrow> nat \<Rightarrow> driver_va \<Rightarrow> (drv_error + 'h) \<times> driver_va" where
  "map_mmio mmio_new res idx va =
     (if idx < length (br_mmio res)
      then case br_mmio res ! idx of (pa, sz) \<Rightarrow>
             (case driver_va_take sz va of (vaddr, va') \<Rightarrow> (ok_or Hardware (mmio_new pa sz vaddr), va'))
      else (Inl NoSuchResource, va))"

definition claim_irq :: "(u32 \<Rightarrow> 'h option) \<Rightarrow> bound_resources \<Rightarrow> nat \<Rightarrow> drv_error + 'h" where
  "claim_irq irq_new res idx =
     (if idx < length (br_irq res) then ok_or Hardware (irq_new (br_irq res ! idx)) else Inl NoSuchResource)"

definition alloc_dma ::
  "(u64 \<Rightarrow> u64 \<Rightarrow> 'h option) \<Rightarrow> bound_resources \<Rightarrow> u64 \<Rightarrow> driver_va \<Rightarrow> (drv_error + 'h) \<times> driver_va" where
  "alloc_dma dma_new res sz va =
     (if br_dma_max res = 0 \<or> sz > br_dma_max res then (Inl NoSuchResource, va)
      else case driver_va_take sz va of (vaddr, va') \<Rightarrow> (ok_or Hardware (dma_new sz vaddr), va'))"

text \<open>The pages a reservation takes, and a driver that maps one region after another.\<close>

definition pages_of :: "u64 \<Rightarrow> nat" where
  "pages_of len = max ((unat len + 4095) div 4096) 1"

fun take_all :: "u64 list \<Rightarrow> driver_va \<Rightarrow> u64 list" where
  "take_all [] va = []"
| "take_all (len # lens) va = (case driver_va_take len va of (start, va') \<Rightarrow> start # take_all lens va')"

lemma page_ceil: "(n + 4095) div 4096 = n div 4096 + (if n mod 4096 = 0 then 0 else 1)" for n :: nat
proof -
  have n: "n = 4096 * (n div 4096) + n mod 4096" by simp
  have "n mod 4096 < 4096" by simp
  then show ?thesis using n by (cases "n mod 4096 = 0"; simp; linarith)
qed

lemma div_ceil_page: "unat (div_ceil len DRIVER_PAGE) = (unat len + 4095) div 4096"
proof -
  have lt: "unat len < 2 ^ 64" using unsigned_less [of len, where 'a = nat] by simp
  have zero: "len mod 4096 = 0 \<longleftrightarrow> unat len mod 4096 = 0"
    by (simp add: word_eq_iff_unsigned [where 'a = nat] unat_mod_distrib flip: unat_eq_0)
  have "unat (len div 4096) = unat len div 4096" by (simp add: unat_div_distrib)
  moreover have "unat (len div 4096 + 1) = unat len div 4096 + 1"
    using lt by (simp add: unat_word_ariths unat_div_distrib)
  ultimately show ?thesis by (simp add: div_ceil_def DRIVER_PAGE_def zero page_ceil)
qed

lemma unat_max: "unat (max a b) = max (unat a) (unat (b :: 'a::len word))"
  by (simp add: max_def word_le_nat_alt)

lemma driver_va_take_exact:
  "driver_va_take len va = (start, va') \<longleftrightarrow>
     start = va \<and> unat va' = min (unat va + pages_of len * 4096) (2 ^ 64 - 1)"
proof -
  have va: "unat va < 2 ^ 64" using unsigned_less [of va, where 'a = nat] by simp
  have "unat (sat_add va (sat_mul (max (div_ceil len DRIVER_PAGE) 1) DRIVER_PAGE)) = min (unat va + pages_of len * 4096) (2 ^ 64 - 1)"
    by (simp add: unat_sat_add unat_sat_mul unat_max div_ceil_page pages_of_def) (simp add: DRIVER_PAGE_def min_def)
  then show ?thesis by (auto simp: driver_va_take_def Let_def word_unat_eq_iff)
qed

lemma take_all_disjoint:
  assumes "unat va + sum_list (map (\<lambda>l. pages_of l * 4096) lens) < 2 ^ 64"
  shows "length (take_all lens va) = length lens \<and> list_all (\<lambda>s. unat va \<le> unat s) (take_all lens va) \<and>
    list_all (\<lambda>s. unat s mod 4096 = unat va mod 4096) (take_all lens va) \<and>
    sorted_wrt (\<lambda>(s, l) (t, _). unat s + unat l \<le> unat t) (zip (take_all lens va) lens)"
  using assms
proof (induction lens arbitrary: va)
  case (Cons l lens)
  obtain va' where t: "driver_va_take l va = (va, va')" using driver_va_take_exact [of l va] by (cases "driver_va_take l va") auto
  have va': "unat va' = unat va + pages_of l * 4096" using t Cons.prems by (simp add: driver_va_take_exact)
  have "unat l \<le> pages_of l * 4096" unfolding pages_of_def by linarith
  then have l: "unat va + unat l \<le> unat va'" by (simp add: va')
  have IH: "length (take_all lens va') = length lens" "list_all (\<lambda>s. unat va' \<le> unat s) (take_all lens va')"
    "list_all (\<lambda>s. unat s mod 4096 = unat va mod 4096) (take_all lens va')"
    "sorted_wrt (\<lambda>(s, l) (t, _). unat s + unat l \<le> unat t) (zip (take_all lens va') lens)"
    using Cons.IH [of va'] Cons.prems by (simp_all add: va')
  have "list_all (\<lambda>s. unat va + unat l \<le> unat s \<and> unat va \<le> unat s) (take_all lens va')"
    using IH(2) by (rule list.pred_mono_strong) (use l in auto)
  then show ?case using IH by (auto simp: t list_all_iff dest: set_zip_leftD)
qed simp

text \<open>C38. The addresses a driver maps its windows and buffers at never overlap: regions taken one after
  another from a fresh allocator start on page boundaries at or above the base of the region, in
  ascending order, each beyond the end of the one before, as long as they fit in the address space
  together.\<close>

theorem driver_regions_disjoint:
  assumes "unat DRIVER_VA_BASE + sum_list (map (\<lambda>l. pages_of l * 4096) lens) < 2 ^ 64"
  shows "length (take_all lens driver_va_new) = length lens \<and>
    list_all (\<lambda>s. unat DRIVER_VA_BASE \<le> unat s \<and> unat s mod 4096 = 0) (take_all lens driver_va_new) \<and>
    sorted_wrt (\<lambda>(s, l) (t, _). unat s + unat l \<le> unat t) (zip (take_all lens driver_va_new) lens)"
proof -
  have "unat driver_va_new mod 4096 = 0" by (simp add: driver_va_new_def DRIVER_VA_BASE_def)
  then show ?thesis using take_all_disjoint [of driver_va_new lens] assms
    by (simp add: driver_va_new_def list_all_iff)
qed

theorem driver_regions_disjoint_witness:
  "length (take_all [0x200, 0, 0x1001] driver_va_new) = 3 \<and>
     sorted_wrt (\<lambda>(s, l) (t, _). unat s + unat l \<le> unat t) (zip (take_all [0x200, 0, 0x1001] driver_va_new) [0x200, 0, 0x1001 :: u64])"
proof -
  have "unat DRIVER_VA_BASE + sum_list (map (\<lambda>l. pages_of l * 4096) [0x200, 0, 0x1001]) < 2 ^ 64"
    by (simp add: pages_of_def DRIVER_VA_BASE_def)
  from driver_regions_disjoint [OF this] show ?thesis by (simp del: take_all.simps)
qed

end
