(* ===== verification/Driver_Dtb.thy ===== *)
theory Driver_Dtb
  imports Driver_Types
begin

text \<open>
  The decoders of device-tree properties (\<open>usr/lib/libdriver/src/dtb.rs\<close>) and the assembly of a
  driver's readiness line (\<open>readyline.rs\<close>). Reading past the end of a buffer panics in the
  source and is \<^const>\<open>None\<close> here; the theorems show that no buffer makes the decoders do so.
\<close>

definition ARM64_ADDR_CELLS :: u32 where "ARM64_ADDR_CELLS = 2"
definition ARM64_SIZE_CELLS :: u32 where "ARM64_SIZE_CELLS = 2"
definition GIC_INTERRUPT_CELLS :: u32 where "GIC_INTERRUPT_CELLS = 3"
definition GIC_TYPE_SPI :: u32 where "GIC_TYPE_SPI = 0"
definition GIC_TYPE_PPI :: u32 where "GIC_TYPE_PPI = 1"
definition GIC_SPI_BASE :: u32 where "GIC_SPI_BASE = 32"
definition GIC_PPI_BASE :: u32 where "GIC_PPI_BASE = 16"

definition be_u32 :: "bytes \<Rightarrow> u32 option" where
  "be_u32 bs =
     (case bs of
        a # b # c # d # _ \<Rightarrow>
          Some (push_bit 24 (ucast a) OR push_bit 16 (ucast b) OR push_bit 8 (ucast c) OR ucast d)
      | _ \<Rightarrow> None)"

section \<open>compatible\<close>

text \<open>A byte string as the text it encodes, and \<open>split\<close> at the NUL bytes.\<close>

definition str_of :: "bytes \<Rightarrow> string" where
  "str_of = map (\<lambda>b. char_of (unat b))"

fun split_nul :: "bytes \<Rightarrow> bytes list" where
  "split_nul [] = [[]]"
| "split_nul (b # bs) =
     (if b = 0 then [] # split_nul bs
      else case split_nul bs of [] \<Rightarrow> [[b]] | h # t \<Rightarrow> (b # h) # t)"

definition parse_compatible :: "bytes \<Rightarrow> string list" where
  "parse_compatible bs = map str_of (filter (\<lambda>seg. seg \<noteq> [] \<and> utf8_ok (str_of seg)) (split_nul bs))"

section \<open>reg\<close>

text \<open>The two inner loops of \<open>parse_reg\<close> are the same fold of cells into 64 bits.\<close>

fun fold_cells :: "bytes \<Rightarrow> nat \<Rightarrow> nat \<Rightarrow> u64 \<Rightarrow> u64 option" where
  "fold_cells bs off 0 acc = Some acc"
| "fold_cells bs off (Suc n) acc = do {
     c \<leftarrow> be_u32 (drop off bs);
     fold_cells bs (off + 4) n (push_bit 32 acc OR ucast c)
   }"

text \<open>The loop; that the stride is not 0 is what \<open>parse_reg\<close> tests before it.\<close>

function reg_loop :: "bytes \<Rightarrow> nat \<Rightarrow> nat \<Rightarrow> nat \<Rightarrow> window list \<Rightarrow> window list option" where
  "reg_loop bs ac sc off out =
     (if ac + sc \<noteq> 0 \<and> off + (ac + sc) * 4 \<le> length bs
      then do {
        base \<leftarrow> fold_cells bs off ac 0;
        sz \<leftarrow> fold_cells bs (off + ac * 4) sc 0;
        reg_loop bs ac sc (off + (ac + sc) * 4) (out @ [(base, sz)])
      }
      else Some out)"
  by auto
termination by (relation "measure (\<lambda>(bs, ac, sc, off, _). length bs - off)") auto

declare reg_loop.simps [simp del]

definition parse_reg :: "bytes \<Rightarrow> u32 \<Rightarrow> u32 \<Rightarrow> window list option" where
  "parse_reg bs addr_cells size_cells =
     (if unat addr_cells + unat size_cells = 0 then Some []
      else reg_loop bs (unat addr_cells) (unat size_cells) 0 [])"

section \<open>interrupts\<close>

definition push_intid :: "u32 \<Rightarrow> u32 \<Rightarrow> u32 list \<Rightarrow> u32 list" where
  "push_intid itype number out =
     (if itype = GIC_TYPE_SPI then out @ [sat_add number GIC_SPI_BASE]
      else if itype = GIC_TYPE_PPI then out @ [sat_add number GIC_PPI_BASE]
      else out)"

function irq_loop :: "bytes \<Rightarrow> nat \<Rightarrow> nat \<Rightarrow> u32 list \<Rightarrow> u32 list option" where
  "irq_loop bs ic off out =
     (if ic \<noteq> 0 \<and> off + ic * 4 \<le> length bs
      then do {
        itype \<leftarrow> be_u32 (drop off bs);
        number \<leftarrow> be_u32 (drop (off + 4) bs);
        irq_loop bs ic (off + ic * 4) (push_intid itype number out)
      }
      else Some out)"
  by auto
termination by (relation "measure (\<lambda>(bs, ic, off, _). length bs - off)") auto

declare irq_loop.simps [simp del]

definition parse_interrupts :: "bytes \<Rightarrow> u32 \<Rightarrow> u32 list option" where
  "parse_interrupts bs interrupt_cells =
     (if unat interrupt_cells < 2 then Some [] else irq_loop bs (unat interrupt_cells) 0 [])"

definition from_dtb :: "bytes \<Rightarrow> bytes \<Rightarrow> bytes \<Rightarrow> u32 \<Rightarrow> u32 \<Rightarrow> u32 \<Rightarrow> node_resources option" where
  "from_dtb compatible reg ints addr_cells size_cells interrupt_cells = do {
     r \<leftarrow> parse_reg reg addr_cells size_cells;
     i \<leftarrow> parse_interrupts ints interrupt_cells;
     Some \<lparr>nr_compatible = parse_compatible compatible, nr_reg = r, nr_interrupts = i, nr_pci = None\<rparr>
   }"

section \<open>The readiness line\<close>

definition READY_LINE_MAX :: nat where "READY_LINE_MAX = 64"

datatype ready_line = Line string | NeedMore | Garbled

fun feed_ready_line :: "bytes \<Rightarrow> bytes \<Rightarrow> ready_line \<times> bytes" where
  "feed_ready_line acc [] = (NeedMore, acc)"
| "feed_ready_line acc (b # chunk) =
     (if b = 10 then (if utf8_ok (str_of acc) then Line (str_of acc) else Garbled, acc)
      else if length acc \<ge> READY_LINE_MAX then (Garbled, acc)
      else feed_ready_line (acc @ [b]) chunk)"

section \<open>What the decoders guarantee\<close>

lemma be_u32_total: "4 \<le> length bs \<Longrightarrow> \<exists>v. be_u32 bs = Some v"
  by (cases bs rule: remdups_adj.cases)
     (auto simp: be_u32_def Suc_le_length_iff numeral_eq_Suc split: list.splits)

lemma be_u32_at: "off + 4 \<le> length bs \<Longrightarrow> \<exists>v. be_u32 (drop off bs) = Some v"
  by (rule be_u32_total) simp

lemma fold_cells_total: "off + n * 4 \<le> length bs \<Longrightarrow> \<exists>v. fold_cells bs off n acc = Some v"
proof (induction n arbitrary: off acc)
  case (Suc n)
  then obtain c where "be_u32 (drop off bs) = Some c" using be_u32_at [of off bs] by auto
  with Suc show ?case by simp
qed simp

lemma div_step:
  assumes "0 < s" and "off + s \<le> n"
  shows "Suc ((n - (off + s)) div s) = (n - off) div (s :: nat)"
proof -
  have "n - off = s + (n - (off + s))" using assms(2) by simp
  then have "(n - off) div s = (s + (n - (off + s))) div s" by (rule arg_cong)
  also have "\<dots> = Suc ((n - (off + s)) div s)" by (rule div_add_self1 [THEN trans]) (use assms(1) in simp_all)
  finally show ?thesis by (rule sym)
qed

lemma reg_loop_total:
  assumes "ac + sc \<noteq> 0" and "off \<le> length bs"
  shows "\<exists>ws. reg_loop bs ac sc off out = Some (out @ ws) \<and> length ws = (length bs - off) div ((ac + sc) * 4)"
  using assms
proof (induction bs ac sc off out rule: reg_loop.induct)
  case (1 bs ac sc off out)
  show ?case
  proof (cases "off + (ac + sc) * 4 \<le> length bs")
    case True
    obtain b where b: "fold_cells bs off ac 0 = Some b" using fold_cells_total [of off ac bs 0] True by auto
    obtain s where s: "fold_cells bs (off + ac * 4) sc 0 = Some s"
      using fold_cells_total [of "off + ac * 4" sc bs 0] True by auto
    obtain ws where "reg_loop bs ac sc (off + (ac + sc) * 4) (out @ [(b, s)]) = Some ((out @ [(b, s)]) @ ws)"
      "length ws = (length bs - (off + (ac + sc) * 4)) div ((ac + sc) * 4)"
      using 1(1) [OF _ b s] 1(2) True by auto
    with True 1(2) b s div_step [of "(ac + sc) * 4" off "length bs"] show ?thesis
      by (intro exI [of _ "(b, s) # ws"]) (subst reg_loop.simps, simp)
  next
    case False
    then have "length bs - off < (ac + sc) * 4" using 1(3) by (simp add: not_le less_diff_conv2 add.commute)
    then have "(length bs - off) div ((ac + sc) * 4) = 0" by (rule div_less)
    with False show ?thesis by (intro exI [of _ "[]"]) (subst reg_loop.simps, simp)
  qed
qed

definition intids :: "u32 \<Rightarrow> u32 \<Rightarrow> u32 list" where
  "intids itype number =
     (if itype = 0 then [sat_add number 32] else if itype = 1 then [sat_add number 16] else [])"

lemma push_intids: "push_intid t n out = out @ intids t n" "length (intids t n) \<le> 1"
  by (simp_all add: push_intid_def intids_def GIC_TYPE_SPI_def GIC_TYPE_PPI_def GIC_SPI_BASE_def GIC_PPI_BASE_def)

lemma irq_loop_total:
  assumes "2 \<le> ic"
  shows "\<exists>is. irq_loop bs ic off out = Some (out @ is) \<and> length is \<le> (length bs - off) div (ic * 4)"
  using assms
proof (induction bs ic off out rule: irq_loop.induct)
  case (1 bs ic off out)
  show ?case
  proof (cases "off + ic * 4 \<le> length bs")
    case True
    have "off + 4 \<le> length bs" "off + 4 + 4 \<le> length bs" using True 1(2) by linarith+
    then obtain t n where t: "be_u32 (drop off bs) = Some t" and n: "be_u32 (drop (off + 4) bs) = Some n"
      using be_u32_at [of off bs] be_u32_at [of "off + 4" bs] by blast
    let ?p = "intids t n"
    obtain is' where "irq_loop bs ic (off + ic * 4) (out @ ?p) = Some ((out @ ?p) @ is')"
      "length is' \<le> (length bs - (off + ic * 4)) div (ic * 4)"
      using 1(1) [OF _ t n] 1(2) True by (auto simp: push_intids)
    with True 1(2) t n push_intids [of t n] div_step [of "ic * 4" off "length bs"] show ?thesis
      by (intro exI [of _ "?p @ is'"]) (subst irq_loop.simps, simp)
  next
    case False
    then show ?thesis by (intro exI [of _ "[]"]) (subst irq_loop.simps, simp)
  qed
qed


text \<open>The device-tree decoders never read past a property. For every content of the three
  properties and all cell counts the decoding ends in a node, with exactly one window for each
  whole entry of \<open>reg\<close>, at most one interrupt for each whole entry of \<open>interrupts\<close>, and no PCI
  function.\<close>

theorem from_dtb_total:
  "\<exists>r. from_dtb compatible reg ints ac sc ic = Some r \<and> nr_pci r = None \<and>
     length (nr_reg r) = length reg div ((unat ac + unat sc) * 4) \<and>
     length (nr_interrupts r) \<le> length ints div (unat ic * 4)"
proof -
  obtain ws where "parse_reg reg ac sc = Some ws" "length ws = length reg div ((unat ac + unat sc) * 4)"
    using reg_loop_total [of "unat ac" "unat sc" 0 reg "[]"]
    by (cases "unat ac + unat sc = 0") (auto simp: parse_reg_def)
  moreover obtain ns where "parse_interrupts ints ic = Some ns" "length ns \<le> length ints div (unat ic * 4)"
    using irq_loop_total [of "unat ic" ints 0 "[]"] by (cases "unat ic < 2") (auto simp: parse_interrupts_def)
  ultimately show ?thesis by (simp add: from_dtb_def)
qed

section \<open>What the decoders read\<close>

text \<open>The big-endian cells the device tree stores.\<close>

definition be32 :: "u32 \<Rightarrow> bytes" where
  "be32 v = [ucast (drop_bit 24 v), ucast (drop_bit 16 v), ucast (drop_bit 8 v), ucast v]"

definition be64 :: "u64 \<Rightarrow> bytes" where
  "be64 v = be32 (ucast (drop_bit 32 v)) @ be32 (ucast v)"

lemma length_be [simp]: "length (be32 v) = 4" "length (be64 w) = 8"
  by (simp_all add: be32_def be64_def)

lemma be_u32_be32 [simp]: "be_u32 (be32 v @ r) = Some v"
proof -
  have "push_bit 24 (ucast (ucast (drop_bit 24 v) :: u8)) OR push_bit 16 (ucast (ucast (drop_bit 16 v) :: u8)) OR
      push_bit 8 (ucast (ucast (drop_bit 8 v) :: u8)) OR ucast (ucast v :: u8) = v" (is "?w = v")
  proof (rule bit_word_eqI)
    fix n :: nat
    assume "n < LENGTH(32)"
    then consider "24 \<le> n" | "16 \<le> n" "n < 24" | "8 \<le> n" "n < 16" | "n < 8" by linarith
    then show "bit ?w n \<longleftrightarrow> bit v n" using \<open>n < LENGTH(32)\<close> by cases (auto simp: bit_simps)
  qed
  then show ?thesis by (simp add: be_u32_def be32_def)
qed

lemma fold_two_cells:
  assumes "drop off bs = be64 w @ r"
  shows "fold_cells bs off 2 0 = Some w"
proof -
  have "push_bit 32 (ucast (ucast (drop_bit 32 w) :: u32)) OR ucast (ucast w :: u32) = w" (is "?w = w")
  proof (rule bit_word_eqI)
    fix n :: nat
    assume "n < LENGTH(64)"
    then consider "32 \<le> n" | "n < 32" by linarith
    then show "bit ?w n \<longleftrightarrow> bit w n" using \<open>n < LENGTH(64)\<close> by cases (auto simp: bit_simps)
  qed
  moreover have "drop (off + 4) bs = be32 (ucast w) @ r"
    using assms drop_drop [of 4 off bs] by (simp add: be64_def add.commute be32_def)
  ultimately show ?thesis
    using assms by (simp add: numeral_2_eq_2 be64_def)
qed

definition reg_bytes :: "window list \<Rightarrow> bytes" where
  "reg_bytes ws = concat (map (\<lambda>(b, s). be64 b @ be64 s) ws)"

lemma reg_loop_bytes:
  assumes "drop off bs = reg_bytes ws @ tail" and "length tail < 16" and "off \<le> length bs"
  shows "reg_loop bs 2 2 off out = Some (out @ ws)"
  using assms
proof (induction ws arbitrary: off out)
  case Nil
  then have "length (drop off bs) < 16" by (simp add: reg_bytes_def del: length_drop)
  then have "\<not> off + 16 \<le> length bs" by (simp only: length_drop)
  then show ?case by (subst reg_loop.simps) simp
next
  case (Cons w ws)
  obtain b s where w: "w = (b, s)" by (cases w)
  let ?rest = "reg_bytes ws @ tail"
  have d: "drop off bs = be64 b @ be64 s @ ?rest" using Cons.prems(1) by (simp add: reg_bytes_def w)
  then have "length (drop off bs) = 16 + length ?rest" by (simp only: length_append length_be)
  then have len: "length bs - off = 16 + length ?rest" by simp
  have d8: "drop (off + 8) bs = be64 s @ ?rest"
    using d drop_drop [of 8 off bs] by (simp add: add.commute)
  have d16: "drop (off + 16) bs = ?rest"
    using d drop_drop [of 16 off bs] by (simp add: add.commute)
  have "reg_loop bs 2 2 (off + 16) (out @ [(b, s)]) = Some ((out @ [(b, s)]) @ ws)"
    using Cons.prems(2,3) len by (intro Cons.IH [OF d16]) simp_all
  moreover have "off + 16 \<le> length bs" using len Cons.prems(3) by linarith
  ultimately show ?case
    using fold_two_cells [OF d] fold_two_cells [OF d8] by (subst reg_loop.simps) (simp add: w)
qed

text \<open>The windows of a node are the ones the device tree gives it. With two address and two size
  cells, decoding the big-endian encoding of any list of windows, with or without a partial entry
  after it, returns exactly that list.\<close>

theorem parse_reg_exact:
  assumes "length tail < 16"
  shows "parse_reg (reg_bytes ws @ tail) ARM64_ADDR_CELLS ARM64_SIZE_CELLS = Some ws"
  using reg_loop_bytes [of 0 "reg_bytes ws @ tail" ws tail "[]"] assms
  by (simp add: parse_reg_def ARM64_ADDR_CELLS_def ARM64_SIZE_CELLS_def)

theorem parse_reg_exact_witness:
  "parse_reg (reg_bytes [(0x9030000, 0x1000)] @ [0, 0]) ARM64_ADDR_CELLS ARM64_SIZE_CELLS = Some [(0x9030000, 0x1000)]"
  by (rule parse_reg_exact) simp

definition irq_bytes :: "(u32 \<times> u32 \<times> u32) list \<Rightarrow> bytes" where
  "irq_bytes is = concat (map (\<lambda>(t, n, f). be32 t @ be32 n @ be32 f) is)"

lemma irq_loop_bytes:
  assumes "drop off bs = irq_bytes is @ tail" and "length tail < 12" and "off \<le> length bs"
  shows "irq_loop bs 3 off out = Some (out @ concat (map (\<lambda>(t, n, f). intids t n) is))"
  using assms
proof (induction "is" arbitrary: off out)
  case Nil
  then have "length (drop off bs) < 12" by (simp add: irq_bytes_def del: length_drop)
  then have "\<not> off + 12 \<le> length bs" by (simp only: length_drop)
  then show ?case by (subst irq_loop.simps) simp
next
  case (Cons i rest)
  obtain t n f where i: "i = (t, n, f)" by (cases i)
  let ?rest = "irq_bytes rest @ tail"
  have d: "drop off bs = be32 t @ be32 n @ be32 f @ ?rest" using Cons.prems(1) by (simp add: irq_bytes_def i)
  then have "length (drop off bs) = 12 + length ?rest" by (simp only: length_append length_be)
  then have len: "length bs - off = 12 + length ?rest" by simp
  have d4: "drop (off + 4) bs = be32 n @ be32 f @ ?rest"
    using d drop_drop [of 4 off bs] by (simp add: add.commute)
  have d12: "drop (off + 12) bs = ?rest"
    using d drop_drop [of 12 off bs] by (simp add: add.commute)
  have "irq_loop bs 3 (off + 12) (out @ intids t n) =
      Some ((out @ intids t n) @ concat (map (\<lambda>(t, n, f). intids t n) rest))"
    using Cons.prems(2,3) len by (intro Cons.IH [OF d12]) simp_all
  moreover have "off + 12 \<le> length bs" using len Cons.prems(3) by linarith
  ultimately show ?case by (subst irq_loop.simps) (simp add: i d d4 push_intids)
qed

text \<open>The interrupts of a node are mapped to the numbers the interrupt controller uses: a shared
  interrupt is its number plus 32, a private one its number plus 16, saturating, and a row of any
  other type adds nothing, in the order of the property.\<close>

theorem parse_interrupts_exact:
  assumes "length tail < 12"
  shows "parse_interrupts (irq_bytes is @ tail) GIC_INTERRUPT_CELLS =
    Some (concat (map (\<lambda>(t, n, f). if t = 0 then [sat_add n 32] else if t = 1 then [sat_add n 16] else []) is))"
  using irq_loop_bytes [of 0 "irq_bytes is @ tail" "is" tail "[]"] assms
  by (simp add: parse_interrupts_def GIC_INTERRUPT_CELLS_def intids_def)

theorem parse_interrupts_exact_witness:
  "parse_interrupts (irq_bytes [(0, 7, 4), (1, 14, 4)]) GIC_INTERRUPT_CELLS = Some [39, 30]"
  using parse_interrupts_exact [of "[]" "[(0, 7, 4), (1, 14, 4)]"] by (simp add: sat_add_def)

section \<open>What the readiness line is\<close>

text \<open>The warden feeds each chunk it reads into the same accumulator until the line is decided.\<close>

fun feed_all :: "bytes \<Rightarrow> bytes list \<Rightarrow> ready_line \<times> bytes" where
  "feed_all acc [] = (NeedMore, acc)"
| "feed_all acc (c # cs) =
     (case feed_ready_line acc c of (NeedMore, acc') \<Rightarrow> feed_all acc' cs | r \<Rightarrow> r)"

lemma feed_append:
  "feed_ready_line acc (xs @ ys) =
     (case feed_ready_line acc xs of (NeedMore, acc') \<Rightarrow> feed_ready_line acc' ys | r \<Rightarrow> r)"
  by (induction acc xs rule: feed_ready_line.induct) auto

lemma feed_all_concat: "feed_all acc cs = feed_ready_line acc (concat cs)"
  by (induction cs arbitrary: acc) (auto simp: feed_append split: prod.splits ready_line.splits)

definition line_spec :: "bytes \<Rightarrow> ready_line" where
  "line_spec bs =
     (let body = takeWhile (\<lambda>b. b \<noteq> 10) bs
      in if length body > 64 then Garbled
         else if body = bs then NeedMore
         else if utf8_ok (str_of body) then Line (str_of body) else Garbled)"

lemma feed_spec:
  assumes "10 \<notin> set acc" and "length acc \<le> 64"
  shows "fst (feed_ready_line acc bs) = line_spec (acc @ bs) \<and> length (snd (feed_ready_line acc bs)) \<le> 64"
  using assms
proof (induction acc bs rule: feed_ready_line.induct)
  case (1 acc)
  then show ?case by (auto simp: line_spec_def Let_def takeWhile_eq_all_conv [THEN iffD2])
next
  case (2 acc b chunk)
  have tw: "takeWhile (\<lambda>b. b \<noteq> 10) (acc @ xs) = acc @ takeWhile (\<lambda>b. b \<noteq> 10) xs" for xs
    using 2 by (intro takeWhile_append2) auto
  show ?case
  proof (cases "b = 10")
    case True
    with 2 tw [of "b # chunk"] show ?thesis by (simp add: line_spec_def Let_def)
  next
    case False
    show ?thesis
    proof (cases "64 \<le> length acc")
      case True
      with False 2 tw [of "b # chunk"] show ?thesis by (simp add: line_spec_def Let_def READY_LINE_MAX_def)
    next
      case small: False
      have "10 \<notin> set (acc @ [b])" "length (acc @ [b]) \<le> 64" using 2 False small by auto
      with 2(1) False small show ?thesis by (simp add: READY_LINE_MAX_def)
    qed
  qed
qed

text \<open>The readiness line does not depend on how the pipe cuts it. Whatever chunks a driver's
  output arrives in, the outcome is that of the whole output: the text before the first newline if
  it is at most 64 bytes of UTF-8, garbled if no newline comes within 64 bytes or the text is not
  UTF-8, more wanted otherwise; and the accumulator never holds more than 64 bytes.\<close>

theorem ready_line_chunks:
  "fst (feed_all [] chunks) = line_spec (concat chunks) \<and> length (snd (feed_all [] chunks)) \<le> 64"
  using feed_spec [of "[]" "concat chunks"] by (simp add: feed_all_concat)

end
