(* ===== verification/Driver_Discovery.thy ===== *)
theory Driver_Discovery
  imports Driver_Source Driver_Dtb
begin

text \<open>
  The in-process discovery sources of \<open>usr/lib/libdriver/src/source.rs\<close> (\<open>DtbSource\<close>,
  \<open>PciSource\<close>) and the bounded read of \<open>usr/lib/libthyla-rs/src/io.rs\<close>. The file tree is a parameter: the
  listing of the root directory, \<^const>\<open>None\<close> when it cannot be read and with \<^const>\<open>None\<close> for an entry that fails,
  and the bytes of a file, \<^const>\<open>None\<close> when opening or reading it fails.
\<close>

type_synonym listing = "(string \<times> bool) option list option"
type_synonym file_reader = "string \<Rightarrow> bytes option"

section \<open>The device tree\<close>

definition dtb_root :: string where "dtb_root = ''/hw''"

definition read_prop :: "file_reader \<Rightarrow> string \<Rightarrow> string \<Rightarrow> string \<Rightarrow> bytes" where
  "read_prop rd root node prp =
     (case rd (root @ ''/'' @ node @ ''/'' @ prp) of None \<Rightarrow> [] | Some buf \<Rightarrow> buf)"

definition read_node :: "file_reader \<Rightarrow> string \<Rightarrow> string \<Rightarrow> node_resources option" where
  "read_node rd root name =
     from_dtb (read_prop rd root name ''compatible'') (read_prop rd root name ''reg'')
       (read_prop rd root name ''interrupts'') ARM64_ADDR_CELLS ARM64_SIZE_CELLS GIC_INTERRUPT_CELLS"

fun dtb_loop :: "file_reader \<Rightarrow> string \<Rightarrow> (string \<times> bool) option list \<Rightarrow> device_node list \<Rightarrow> device_node list option" where
  "dtb_loop rd root [] out = Some out"
| "dtb_loop rd root (None # ents) out = dtb_loop rd root ents out"
| "dtb_loop rd root (Some (name, is_dir) # ents) out =
     (if \<not> is_dir then dtb_loop rd root ents out
      else do {
        res \<leftarrow> read_node rd root name;
        if nr_compatible res = [] then dtb_loop rd root ents out
        else dtb_loop rd root ents (out @ [from_compatible name res])
      })"

definition dtb_enumerate :: "file_reader \<Rightarrow> listing \<Rightarrow> string \<Rightarrow> device_node list option" where
  "dtb_enumerate rd rdir root =
     (case rdir of None \<Rightarrow> Some [] | Some ents \<Rightarrow> dtb_loop rd root ents [])"

section \<open>The PCI fabric\<close>

definition pci_root :: string where "pci_root = ''/hw/pci''"

definition read_function :: "file_reader \<Rightarrow> string \<Rightarrow> string \<Rightarrow> device_node option" where
  "read_function rd root bdf = do {
     buf \<leftarrow> rd (root @ ''/'' @ bdf @ ''/ctl'');
     if utf8_ok (str_of buf) then parse_pci_ctl bdf (str_of buf) else None
   }"

fun pci_enum_loop :: "file_reader \<Rightarrow> string \<Rightarrow> (string \<times> bool) option list \<Rightarrow> device_node list \<Rightarrow> device_node list" where
  "pci_enum_loop rd root [] out = out"
| "pci_enum_loop rd root (None # ents) out = pci_enum_loop rd root ents out"
| "pci_enum_loop rd root (Some (bdf, is_dir) # ents) out =
     (if \<not> is_dir then pci_enum_loop rd root ents out
      else case read_function rd root bdf of
             Some node \<Rightarrow> pci_enum_loop rd root ents (out @ [node])
           | None \<Rightarrow> pci_enum_loop rd root ents out)"

definition pci_enumerate :: "file_reader \<Rightarrow> listing \<Rightarrow> string \<Rightarrow> device_node list" where
  "pci_enumerate rd rdir root =
     (case rdir of None \<Rightarrow> [] | Some ents \<Rightarrow> pci_enum_loop rd root ents [])"

section \<open>The bounded read\<close>

text \<open>A reader is what its successive reads return, \<^const>\<open>None\<close> an error; past the list, and at an
  empty read, the stream ends. \<open>room n\<close> says whether the heap grants a growth to \<open>n\<close> bytes.\<close>

fun slurp_loop :: "(nat \<Rightarrow> bool) \<Rightarrow> nat \<Rightarrow> bytes option list \<Rightarrow> bytes \<Rightarrow> bytes option" where
  "slurp_loop room limit [] v = Some v"
| "slurp_loop room limit (None # reads) v = None"
| "slurp_loop room limit (Some chunk # reads) v =
     (if chunk = [] then Some v
      else if length chunk > limit - length v then None
      else if \<not> room (length v + length chunk) then None
      else slurp_loop room limit reads (v @ chunk))"

definition slurp_capped :: "(nat \<Rightarrow> bool) \<Rightarrow> bytes option list \<Rightarrow> nat \<Rightarrow> bytes option" where
  "slurp_capped room reads limit = slurp_loop room limit reads []"

section \<open>What discovery guarantees\<close>

lemma dtb_node_no_pci: "from_dtb a b c i j k = Some res \<Longrightarrow> nr_pci res = None"
  by (auto simp: from_dtb_def split: Option.bind_splits)

lemma dtb_loop_no_pci:
  "dtb_loop rd root ents out = Some ns \<Longrightarrow> list_all (\<lambda>n. nr_pci (dn_resources n) = None) out \<Longrightarrow>
     list_all (\<lambda>n. nr_pci (dn_resources n) = None) ns"
proof (induction rd root ents out rule: dtb_loop.induct)
  case (3 rd root name is_dir ents out)
  then show ?case
    by (auto simp: read_node_def from_compatible_def dest: dtb_node_no_pci split: if_splits Option.bind_splits)
qed simp_all

lemma dtb_enumerate_no_pci:
  "dtb_enumerate rd rdir root = Some ns \<Longrightarrow> list_all (\<lambda>n. nr_pci (dn_resources n) = None) ns"
  by (auto simp: dtb_enumerate_def dest: dtb_loop_no_pci split: option.splits)

lemma slurp_loop_bound:
  "slurp_loop room limit reads v = Some bs \<Longrightarrow> length v \<le> limit \<Longrightarrow> length bs \<le> limit"
  by (induction room limit reads v rule: slurp_loop.induct) (auto split: if_splits)

lemma from_dtb_ends: "\<exists>r. from_dtb compatible reg ints ac sc ic = Some r"
proof -
  obtain ws where "parse_reg reg ac sc = Some ws"
    using reg_loop_total [of "unat ac" "unat sc" 0 reg "[]"]
    by (cases "unat ac + unat sc = 0") (auto simp: parse_reg_def)
  moreover obtain ns where "parse_interrupts ints ic = Some ns"
    using irq_loop_total [of "unat ic" ints 0 "[]"] by (cases "unat ic < 2") (auto simp: parse_interrupts_def)
  ultimately show ?thesis by (simp add: from_dtb_def)
qed

lemma dtb_loop_ends: "\<exists>ns. dtb_loop rd root ents out = Some ns"
proof (induction rd root ents out rule: dtb_loop.induct)
  case (3 rd root name is_dir ents out)
  obtain res where "read_node rd root name = Some res" unfolding read_node_def using from_dtb_ends by blast
  with 3 show ?case by auto
qed simp_all

lemma dtb_enumerate_ends: "\<exists>ns. dtb_enumerate rd rdir root = Some ns"
  using dtb_loop_ends by (simp add: dtb_enumerate_def split: option.split)

end
