(* ===== verification/Driver_Manifest.thy ===== *)
theory Driver_Manifest
  imports Driver_Types
begin

text \<open>
  The driver manifests of \<open>usr/lib/libdriver/src/manifest.rs\<close>: the tokenizer, the
  recursive-descent parser, the parsers of the need strings and the canonical printer. The parser's
  position in the token slice is the list of the tokens that are left. Every error is \<open>Parse\<close>, as in
  the source.
\<close>

definition MANIFEST_ABI :: u32 where "MANIFEST_ABI = 1"

section \<open>Printing\<close>

definition cap_parse :: "string \<Rightarrow> cap option" where
  "cap_parse name = (if name = ''csprng'' then Some Csprng else None)"

fun cap_name :: "cap \<Rightarrow> string" where
  "cap_name Csprng = ''csprng''"

definition push_kv_u32 :: "string \<Rightarrow> u32 \<Rightarrow> string" where
  "push_kv_u32 key v = ''    '' @ key @ '' = '' @ show_nat (unat v) @ [CHR 10]"

fun mmio_need_str :: "mmio_need \<Rightarrow> string" where
  "mmio_need_str MmioNone = ''none''"
| "mmio_need_str MmioNode = ''node:reg''"

fun irq_need_str :: "irq_need \<Rightarrow> string" where
  "irq_need_str IrqNone = ''none''"
| "irq_need_str IrqNode = ''node:interrupts''"
| "irq_need_str (IrqMsi n) = ''msi:'' @ show_nat (unat n)"

fun dma_need_str :: "dma_need \<Rightarrow> string" where
  "dma_need_str DmaNone = ''none''"
| "dma_need_str (DmaPool n) = ''pool:'' @ show_nat (unat n)"

fun pci_need_str :: "pci_need \<Rightarrow> string" where
  "pci_need_str PciNone = ''none''"
| "pci_need_str PciNode = ''node''"

fun restart_str :: "restart \<Rightarrow> string" where
  "restart_str Never = ''never''"
| "restart_str OnCrash = ''on-crash''"
| "restart_str Always = ''always''"

fun lifecycle_str :: "lifecycle \<Rightarrow> string" where
  "lifecycle_str Transient = ''transient''"
| "lifecycle_str Persistent = ''persistent''"

text \<open>A text between quotes, and the lists of \<open>to_text\<close>.\<close>

definition quoted :: "string \<Rightarrow> string" where
  "quoted s = [CHR 34] @ s @ [CHR 34]"

definition quoted_list :: "string list \<Rightarrow> string" where
  "quoted_list ss = ''['' @ join_with '', '' (map quoted ss) @ '']''"

definition to_text :: "manifest \<Rightarrow> string" where
  "to_text m =
     ''driver '' @ quoted (mf_name m) @ '' {'' @ [CHR 10] @
     push_kv_u32 ''abi'' (mf_abi m) @
     ''    binds = '' @ quoted_list (mf_binds m) @ [CHR 10] @
     ''    needs {'' @ [CHR 10] @
     ''        mmio = '' @ quoted (mmio_need_str (nd_mmio (mf_needs m))) @ [CHR 10] @
     ''        irq = '' @ quoted (irq_need_str (nd_irq (mf_needs m))) @ [CHR 10] @
     ''        dma = '' @ quoted (dma_need_str (nd_dma (mf_needs m))) @ [CHR 10] @
     ''        pci = '' @ quoted (pci_need_str (nd_pci (mf_needs m))) @ [CHR 10] @
     ''    }'' @ [CHR 10] @
     ''    serves = '' @ quoted (mf_serves m) @ [CHR 10] @
     ''    restart = '' @ restart_str (mf_restart m) @ [CHR 10] @
     ''    lifecycle = '' @ lifecycle_str (mf_lifecycle m) @ [CHR 10] @
     (if mf_gather m then ''    gather = all'' @ [CHR 10] else []) @
     (if mf_caps m \<noteq> [] then ''    caps = '' @ quoted_list (map cap_name (mf_caps m)) @ [CHR 10] else []) @
     (case mf_sig m of Some s \<Rightarrow> ''    sig = '' @ quoted s @ [CHR 10] | None \<Rightarrow> []) @
     ''}'' @ [CHR 10]"

section \<open>The tokenizer\<close>

datatype tok = Ident string | Str string | IntLit u64 | LBrace | RBrace | LBrack | RBrack | Eq | Comma

definition is_ident_byte :: "char \<Rightarrow> bool" where
  "is_ident_byte c \<longleftrightarrow> is_ascii_digit c \<or> 65 \<le> ord c \<and> ord c \<le> 90 \<or> 97 \<le> ord c \<and> ord c \<le> 122 \<or>
     c = CHR ''_'' \<or> c = CHR ''-''"

definition is_blank :: "char \<Rightarrow> bool" where
  "is_blank c \<longleftrightarrow> c = CHR '' '' \<or> c = CHR 9 \<or> c = CHR 13 \<or> c = CHR 10"

definition punct :: "char \<Rightarrow> tok option" where
  "punct c =
     (if c = CHR ''{'' then Some LBrace
      else if c = CHR ''}'' then Some RBrace
      else if c = CHR ''['' then Some LBrack
      else if c = CHR '']'' then Some RBrack
      else if c = CHR ''='' then Some Eq
      else if c = CHR '','' then Some Comma
      else None)"

text \<open>The body of a string stops at the closing quote or at the end of the line.\<close>

definition in_str :: "char \<Rightarrow> bool" where
  "in_str c \<longleftrightarrow> c \<noteq> CHR 34 \<and> c \<noteq> CHR 10"

definition push_tok :: "tok \<Rightarrow> drv_error + tok list \<Rightarrow> drv_error + tok list" where
  "push_tok t r = andthen r (\<lambda>ts. Inr (t # ts))"

lemma push_tok_cong [fundef_cong]: "t = t' \<Longrightarrow> r = r' \<Longrightarrow> push_tok t r = push_tok t' r'"
  by simp

lemma length_dropWhile_less: "P c \<Longrightarrow> length (dropWhile P (c # cs)) < length (c # cs)"
  by (simp add: length_dropWhile_le less_Suc_eq_le)

lemma dropWhile_Cons_less: "dropWhile P xs = y # ys \<Longrightarrow> length ys < Suc (length xs)"
  using length_dropWhile_le [of P xs] by simp

function tokenize :: "string \<Rightarrow> drv_error + tok list" where
  "tokenize s =
     (case s of
        [] \<Rightarrow> Inr []
      | c # cs \<Rightarrow>
          if is_blank c then tokenize cs
          else if c = CHR ''#'' then tokenize (dropWhile (\<lambda>x. x \<noteq> CHR 10) cs)
          else case punct c of
            Some t \<Rightarrow> push_tok t (tokenize cs)
          | None \<Rightarrow>
              if c = CHR 34 then
                (case dropWhile in_str cs of
                   [] \<Rightarrow> Inl Parse
                 | q # rest \<Rightarrow>
                     if q = CHR 10 then Inl Parse
                     else if utf8_ok (takeWhile in_str cs)
                     then push_tok (Str (takeWhile in_str cs)) (tokenize rest)
                     else Inl Parse)
              else if is_ascii_digit c then
                (case parse_u64 (takeWhile is_ascii_digit s) of
                   None \<Rightarrow> Inl Parse
                 | Some v \<Rightarrow> push_tok (IntLit v) (tokenize (dropWhile is_ascii_digit cs)))
              else if is_ident_byte c then
                push_tok (Ident (takeWhile is_ident_byte s)) (tokenize (dropWhile is_ident_byte cs))
              else Inl Parse)"
  by auto
termination
  by (relation "measure length")
     (auto simp: length_dropWhile_le le_imp_less_Suc dest: dropWhile_Cons_less)

declare tokenize.simps [simp del]

section \<open>The parser\<close>

definition next_tok :: "tok list \<Rightarrow> drv_error + tok \<times> tok list" where
  "next_tok ts = (case ts of [] \<Rightarrow> Inl Parse | t # ts \<Rightarrow> Inr (t, ts))"

definition expect :: "tok \<Rightarrow> tok list \<Rightarrow> drv_error + tok list" where
  "expect want ts = andthen (next_tok ts) (\<lambda>(t, ts). if t = want then Inr ts else Inl Parse)"

definition expect_ident :: "tok list \<Rightarrow> drv_error + string \<times> tok list" where
  "expect_ident ts = andthen (next_tok ts) (\<lambda>(t, ts). case t of Ident s \<Rightarrow> Inr (s, ts) | _ \<Rightarrow> Inl Parse)"

definition expect_str :: "tok list \<Rightarrow> drv_error + string \<times> tok list" where
  "expect_str ts = andthen (next_tok ts) (\<lambda>(t, ts). case t of Str s \<Rightarrow> Inr (s, ts) | _ \<Rightarrow> Inl Parse)"

definition parse_u32_tok :: "tok list \<Rightarrow> drv_error + u32 \<times> tok list" where
  "parse_u32_tok ts = andthen (next_tok ts) (\<lambda>(t, ts).
     case t of IntLit v \<Rightarrow> if unat v < 2 ^ 32 then Inr (ucast v, ts) else Inl Parse | _ \<Rightarrow> Inl Parse)"

text \<open>The loop of \<open>parse_str_list\<close>, which allows one trailing comma.\<close>

fun str_loop :: "string list \<Rightarrow> tok list \<Rightarrow> drv_error + string list \<times> tok list" where
  "str_loop out (Str s # Comma # ts) =
     (case ts of RBrack # ts' \<Rightarrow> Inr (out @ [s], ts') | _ \<Rightarrow> str_loop (out @ [s]) ts)"
| "str_loop out (Str s # RBrack # ts) = Inr (out @ [s], ts)"
| "str_loop out _ = Inl Parse"

definition parse_str_list :: "tok list \<Rightarrow> drv_error + string list \<times> tok list" where
  "parse_str_list ts = andthen (expect LBrack ts) (\<lambda>ts.
     case ts of RBrack # ts' \<Rightarrow> Inr ([], ts') | _ \<Rightarrow> str_loop [] ts)"

definition parse_restart :: "tok list \<Rightarrow> drv_error + restart \<times> tok list" where
  "parse_restart ts = andthen (expect_ident ts) (\<lambda>(s, ts).
     if s = ''never'' then Inr (Never, ts)
     else if s = ''on-crash'' then Inr (OnCrash, ts)
     else if s = ''always'' then Inr (Always, ts) else Inl Parse)"

definition parse_lifecycle :: "tok list \<Rightarrow> drv_error + lifecycle \<times> tok list" where
  "parse_lifecycle ts = andthen (expect_ident ts) (\<lambda>(s, ts).
     if s = ''transient'' then Inr (Transient, ts)
     else if s = ''persistent'' then Inr (Persistent, ts) else Inl Parse)"

definition parse_gather :: "tok list \<Rightarrow> drv_error + bool \<times> tok list" where
  "parse_gather ts = andthen (expect_ident ts) (\<lambda>(s, ts).
     if s = ''per-node'' then Inr (False, ts)
     else if s = ''all'' then Inr (True, ts) else Inl Parse)"

fun caps_loop :: "cap list \<Rightarrow> string list \<Rightarrow> drv_error + cap list" where
  "caps_loop out [] = Inr out"
| "caps_loop out (name # names) =
     andthen (ok_or Parse (cap_parse name)) (\<lambda>c.
       if c \<in> set out then Inl Parse else caps_loop (out @ [c]) names)"

definition parse_caps :: "tok list \<Rightarrow> drv_error + cap list \<times> tok list" where
  "parse_caps ts = andthen (parse_str_list ts) (\<lambda>(names, ts).
     andthen (caps_loop [] names) (\<lambda>cs. Inr (cs, ts)))"

subsection \<open>Need strings\<close>

definition parse_mmio_need :: "string \<Rightarrow> drv_error + mmio_need" where
  "parse_mmio_need s =
     (if trim s = ''none'' then Inr MmioNone
      else if trim s = ''node:reg'' then Inr MmioNode else Inl Parse)"

definition parse_irq_need :: "string \<Rightarrow> drv_error + irq_need" where
  "parse_irq_need s =
     (let s = trim s
      in if s = ''none'' then Inr IrqNone
         else if s = ''node:interrupts'' then Inr IrqNode
         else case strip_prefix ''msi:'' s of
                Some rest \<Rightarrow> andthen (ok_or Parse (parse_u32 (trim rest))) (\<lambda>n. Inr (IrqMsi n))
              | None \<Rightarrow> Inl Parse)"

definition lower :: "char \<Rightarrow> char" where
  "lower c = (if 65 \<le> ord c \<and> ord c \<le> 90 then char_of (ord c + 32) else c)"

definition unit_mult :: "string \<Rightarrow> nat option" where
  "unit_mult u =
     (if u = [] \<or> u = ''b'' then Some 1
      else if u = ''k'' \<or> u = ''kb'' \<or> u = ''kib'' then Some 1024
      else if u = ''m'' \<or> u = ''mb'' \<or> u = ''mib'' then Some (1024 * 1024)
      else if u = ''g'' \<or> u = ''gb'' \<or> u = ''gib'' then Some (1024 * 1024 * 1024)
      else None)"

definition parse_size :: "string \<Rightarrow> drv_error + u64" where
  "parse_size s =
     (let s = trim s; digits = takeWhile is_ascii_digit s
      in if digits = [] then Inl Parse
         else andthen (ok_or Parse (from_str_radix 10 (2 ^ 64) digits)) (\<lambda>num.
              andthen (ok_or Parse (unit_mult (map lower (trim (dropWhile is_ascii_digit s))))) (\<lambda>mult.
              ok_or Parse (if num * mult < 2 ^ 64 then Some (of_nat (num * mult)) else None))))"

definition parse_dma_need :: "string \<Rightarrow> drv_error + dma_need" where
  "parse_dma_need s =
     (let s = trim s
      in if s = ''none'' then Inr DmaNone
         else case strip_prefix ''pool:'' s of
                Some rest \<Rightarrow> andthen (parse_size (trim rest)) (\<lambda>bytes.
                  if bytes = 0 then Inr DmaNone else Inr (DmaPool bytes))
              | None \<Rightarrow> Inl Parse)"

definition parse_pci_need :: "string \<Rightarrow> drv_error + pci_need" where
  "parse_pci_need s =
     (if trim s = ''none'' then Inr PciNone
      else if trim s = ''node'' then Inr PciNode else Inl Parse)"

subsection \<open>The needs block\<close>

record need_fields =
  nf_mmio :: "mmio_need option"
  nf_irq :: "irq_need option"
  nf_dma :: "dma_need option"
  nf_pci :: "pci_need option"

definition set_need :: "string \<Rightarrow> string \<Rightarrow> need_fields \<Rightarrow> drv_error + need_fields" where
  "set_need key val f =
     (if key = ''mmio'' then
        if nf_mmio f \<noteq> None then Inl Parse
        else andthen (parse_mmio_need val) (\<lambda>v. Inr (f\<lparr>nf_mmio := Some v\<rparr>))
      else if key = ''irq'' then
        if nf_irq f \<noteq> None then Inl Parse
        else andthen (parse_irq_need val) (\<lambda>v. Inr (f\<lparr>nf_irq := Some v\<rparr>))
      else if key = ''dma'' then
        if nf_dma f \<noteq> None then Inl Parse
        else andthen (parse_dma_need val) (\<lambda>v. Inr (f\<lparr>nf_dma := Some v\<rparr>))
      else if key = ''pci'' then
        if nf_pci f \<noteq> None then Inl Parse
        else andthen (parse_pci_need val) (\<lambda>v. Inr (f\<lparr>nf_pci := Some v\<rparr>))
      else Inl Parse)"

fun needs_loop :: "need_fields \<Rightarrow> tok list \<Rightarrow> drv_error + need_fields \<times> tok list" where
  "needs_loop f (RBrace # ts) = Inr (f, ts)"
| "needs_loop f (Ident key # Eq # Str val # ts) = andthen (set_need key val f) (\<lambda>f. needs_loop f ts)"
| "needs_loop f _ = Inl Parse"

definition unwrap_or :: "'a \<Rightarrow> 'a option \<Rightarrow> 'a" where
  "unwrap_or d x = (case x of None \<Rightarrow> d | Some v \<Rightarrow> v)"

definition parse_needs :: "tok list \<Rightarrow> drv_error + needs \<times> tok list" where
  "parse_needs ts = andthen (expect LBrace ts) (\<lambda>ts.
     andthen (needs_loop \<lparr>nf_mmio = None, nf_irq = None, nf_dma = None, nf_pci = None\<rparr> ts) (\<lambda>(f, ts).
     Inr (\<lparr>nd_mmio = unwrap_or MmioNone (nf_mmio f), nd_irq = unwrap_or IrqNone (nf_irq f),
           nd_dma = unwrap_or DmaNone (nf_dma f), nd_pci = unwrap_or PciNone (nf_pci f)\<rparr>, ts)))"

subsection \<open>The manifest\<close>

record mf_fields =
  mv_abi :: "u32 option"
  mv_binds :: "string list option"
  mv_needs :: "needs option"
  mv_serves :: "string option"
  mv_restart :: "restart option"
  mv_lifecycle :: "lifecycle option"
  mv_gather :: "bool option"
  mv_sig :: "string option"
  mv_caps :: "cap list option"

definition no_mf_fields :: mf_fields where
  "no_mf_fields = \<lparr>mv_abi = None, mv_binds = None, mv_needs = None, mv_serves = None, mv_restart = None,
     mv_lifecycle = None, mv_gather = None, mv_sig = None, mv_caps = None\<rparr>"

text \<open>One key of the block; every key but \<open>needs\<close> is followed by an equals sign. A key seen twice
  is rejected before its value is parsed.\<close>

definition set_key :: "string \<Rightarrow> mf_fields \<Rightarrow> tok list \<Rightarrow> drv_error + mf_fields \<times> tok list" where
  "set_key key f ts =
     (if key = ''needs'' then
        if mv_needs f \<noteq> None then Inl Parse
        else andthen (parse_needs ts) (\<lambda>(v, ts). Inr (f\<lparr>mv_needs := Some v\<rparr>, ts))
      else if key = ''abi'' then
        if mv_abi f \<noteq> None then Inl Parse
        else andthen (expect Eq ts) (\<lambda>ts. andthen (parse_u32_tok ts) (\<lambda>(v, ts). Inr (f\<lparr>mv_abi := Some v\<rparr>, ts)))
      else if key = ''binds'' then
        if mv_binds f \<noteq> None then Inl Parse
        else andthen (expect Eq ts) (\<lambda>ts. andthen (parse_str_list ts) (\<lambda>(v, ts). Inr (f\<lparr>mv_binds := Some v\<rparr>, ts)))
      else if key = ''serves'' then
        if mv_serves f \<noteq> None then Inl Parse
        else andthen (expect Eq ts) (\<lambda>ts. andthen (expect_str ts) (\<lambda>(v, ts). Inr (f\<lparr>mv_serves := Some v\<rparr>, ts)))
      else if key = ''restart'' then
        if mv_restart f \<noteq> None then Inl Parse
        else andthen (expect Eq ts) (\<lambda>ts. andthen (parse_restart ts) (\<lambda>(v, ts). Inr (f\<lparr>mv_restart := Some v\<rparr>, ts)))
      else if key = ''lifecycle'' then
        if mv_lifecycle f \<noteq> None then Inl Parse
        else andthen (expect Eq ts) (\<lambda>ts.
          andthen (parse_lifecycle ts) (\<lambda>(v, ts). Inr (f\<lparr>mv_lifecycle := Some v\<rparr>, ts)))
      else if key = ''gather'' then
        if mv_gather f \<noteq> None then Inl Parse
        else andthen (expect Eq ts) (\<lambda>ts. andthen (parse_gather ts) (\<lambda>(v, ts). Inr (f\<lparr>mv_gather := Some v\<rparr>, ts)))
      else if key = ''sig'' then
        if mv_sig f \<noteq> None then Inl Parse
        else andthen (expect Eq ts) (\<lambda>ts. andthen (expect_str ts) (\<lambda>(v, ts). Inr (f\<lparr>mv_sig := Some v\<rparr>, ts)))
      else if key = ''caps'' then
        if mv_caps f \<noteq> None then Inl Parse
        else andthen (expect Eq ts) (\<lambda>ts. andthen (parse_caps ts) (\<lambda>(v, ts). Inr (f\<lparr>mv_caps := Some v\<rparr>, ts)))
      else Inl Parse)"

lemma next_tok_shorter: "next_tok ts = Inr (t, ts') \<longleftrightarrow> ts = t # ts'"
  by (auto simp: next_tok_def split: list.splits)

lemma expect_shorter: "expect t ts = Inr ts' \<longleftrightarrow> ts = t # ts'"
  by (auto simp: expect_def andthen_eq_Inr next_tok_shorter split: if_splits)

lemma expect_ident_shorter: "expect_ident ts = Inr (s, ts') \<longleftrightarrow> ts = Ident s # ts'"
  by (cases ts; cases "hd ts") (auto simp: expect_ident_def next_tok_def)

lemma expect_str_shorter: "expect_str ts = Inr (s, ts') \<longleftrightarrow> ts = Str s # ts'"
  by (cases ts; cases "hd ts") (auto simp: expect_str_def next_tok_def)

lemma parse_u32_tok_shorter:
  "parse_u32_tok ts = Inr (v, ts') \<longleftrightarrow> (\<exists>w. ts = IntLit w # ts' \<and> unat w < 2 ^ 32 \<and> v = ucast w)"
  by (cases ts; cases "hd ts") (auto simp: parse_u32_tok_def next_tok_def)

lemma str_loop_shorter: "str_loop out ts = Inr (v, ts') \<Longrightarrow> length ts' < length ts"
  by (induction out ts rule: str_loop.induct) (auto split: list.splits tok.splits)

lemma needs_loop_shorter: "needs_loop f ts = Inr (v, ts') \<Longrightarrow> length ts' < length ts"
  by (induction f ts rule: needs_loop.induct) (fastforce simp: andthen_eq_Inr)+

lemma parse_str_list_shorter: "parse_str_list ts = Inr (v, ts') \<Longrightarrow> length ts' < length ts"
proof -
  assume "parse_str_list ts = Inr (v, ts')"
  then obtain us where "ts = LBrack # us" and run: "(case us of RBrack # us' \<Rightarrow> Inr ([], us') | _ \<Rightarrow> str_loop [] us) = Inr (v, ts')"
    by (auto simp: parse_str_list_def andthen_eq_Inr expect_shorter)
  moreover have "length ts' < length us"
    using run str_loop_shorter [of "[]" us v ts'] by (auto split: list.splits tok.splits)
  ultimately show ?thesis by simp
qed

lemma set_key_shorter: "set_key key f ts = Inr (f', ts') \<Longrightarrow> length ts' < length ts"
  by (auto simp: set_key_def andthen_eq_Inr expect_shorter expect_str_shorter expect_ident_shorter
      parse_u32_tok_shorter parse_restart_def parse_lifecycle_def parse_gather_def
      parse_needs_def parse_caps_def
      split: if_splits dest!: parse_str_list_shorter needs_loop_shorter)

function body_loop :: "mf_fields \<Rightarrow> tok list \<Rightarrow> drv_error + mf_fields \<times> tok list" where
  "body_loop f ts =
     (case ts of
        RBrace # ts \<Rightarrow> Inr (f, ts)
      | Ident key # ts \<Rightarrow> andthen (set_key key f ts) (\<lambda>(f, ts). body_loop f ts)
      | _ \<Rightarrow> Inl Parse)"
  by auto
termination
  by (relation "measure (\<lambda>(_, ts). length ts)") (auto dest!: set_key_shorter)

declare body_loop.simps [simp del]

definition parse_manifest :: "tok list \<Rightarrow> drv_error + manifest \<times> tok list" where
  "parse_manifest ts =
     andthen (expect_ident ts) (\<lambda>(key, ts).
     if key \<noteq> ''driver'' then Inl Parse
     else
       andthen (expect_str ts) (\<lambda>(name, ts).
       andthen (expect LBrace ts) (\<lambda>ts.
       andthen (body_loop no_mf_fields ts) (\<lambda>(f, ts).
       andthen (ok_or Parse (mv_binds f)) (\<lambda>binds.
       if binds = [] then Inl Parse
       else
         andthen (ok_or Parse (mv_abi f)) (\<lambda>abi.
         andthen (ok_or Parse (mv_serves f)) (\<lambda>serves.
         Inr (\<lparr>mf_name = name, mf_abi = abi, mf_binds = binds, mf_needs = unwrap_or needs_NONE (mv_needs f),
               mf_serves = serves, mf_restart = unwrap_or OnCrash (mv_restart f),
               mf_lifecycle = unwrap_or Transient (mv_lifecycle f),
               mf_gather = unwrap_or False (mv_gather f), mf_caps = unwrap_or [] (mv_caps f),
               mf_sig = mv_sig f\<rparr>, ts))))))))"

definition manifest_parse :: "string \<Rightarrow> drv_error + manifest" where
  "manifest_parse text =
     andthen (tokenize text) (\<lambda>toks.
     andthen (parse_manifest toks) (\<lambda>(m, rest).
     if rest \<noteq> [] then Inl Parse else Inr m))"

section \<open>Tokens of the canonical text\<close>

definition push_toks :: "tok list \<Rightarrow> drv_error + tok list \<Rightarrow> drv_error + tok list" where
  "push_toks ts r = andthen r (\<lambda>us. Inr (ts @ us))"

lemma push_toks_simps [simp]:
  "push_tok t r = push_toks [t] r" "push_toks [] r = r"
  "push_toks ts (push_toks us r) = push_toks (ts @ us) r" "push_toks ts (Inr us) = Inr (ts @ us)"
  by (cases r; simp add: push_tok_def push_toks_def)+

fun list_toks :: "string list \<Rightarrow> tok list" where
  "list_toks [] = []"
| "list_toks [s] = [Str s]"
| "list_toks (s # s' # ss) = Str s # Comma # list_toks (s' # ss)"

text \<open>A text that can stand between quotes.\<close>

definition text_ok :: "string \<Rightarrow> bool" where
  "text_ok s \<longleftrightarrow> list_all in_str s \<and> utf8_ok s"

lemma str_body:
  "list_all in_str b \<Longrightarrow> takeWhile in_str (b @ CHR 34 # r) = b"
  "list_all in_str b \<Longrightarrow> dropWhile in_str (b @ CHR 34 # r) = CHR 34 # r"
  by (induction b) (auto simp: in_str_def)

lemma tok_str: "text_ok s \<Longrightarrow> tokenize (CHR 34 # s @ CHR 34 # rest) = push_toks [Str s] (tokenize rest)"
  by (subst tokenize.simps) (simp add: is_blank_def punct_def str_body text_ok_def)

lemma tok_int:
  assumes "\<not> is_ascii_digit c"
  shows "tokenize (show_nat (unat (v :: u64)) @ c # rest) = push_toks [IntLit v] (tokenize (c # rest))"
proof -
  obtain d ds where s: "show_nat (unat v) = d # ds" by (cases "show_nat (unat v)") auto
  have all: "list_all is_ascii_digit (d # ds)" using show_nat_decimal [of "unat v"] by (simp add: s)
  then have d: "is_ascii_digit d" by simp
  then have "\<not> is_blank d" "d \<noteq> CHR ''#''" "punct d = None" "d \<noteq> CHR 34"
    by (auto simp: is_ascii_digit_def is_blank_def punct_def)
  moreover have "takeWhile is_ascii_digit (show_nat (unat v) @ c # rest) = show_nat (unat v)"
    "dropWhile is_ascii_digit (ds @ c # rest) = c # rest"
    using take_drop_all [of is_ascii_digit "d # ds" "c # rest"] take_drop_all(2) [of is_ascii_digit ds "c # rest"]
      all assms by (simp_all add: s)
  moreover have "from_str_radix 10 18446744073709551616 (d # ds) = Some (unat v)"
    using from_show_nat [of "unat v" 18446744073709551616, unfolded s] unsigned_less [of v, where 'a = nat] by simp
  ultimately show ?thesis
    using d by (subst tokenize.simps) (simp add: s)
qed

lemma tok_u32:
  "\<not> is_ascii_digit c \<Longrightarrow>
     tokenize (show_nat (unat (v :: u32)) @ c # rest) = push_toks [IntLit (ucast v)] (tokenize (c # rest))"
  using tok_int [of c "ucast v :: u64" rest] by (simp add: unat_ucast_up)

lemma tok_step:
  "c \<noteq> CHR 34 \<Longrightarrow> tokenize (c # cs) =
     (if is_blank c then tokenize cs
      else if c = CHR ''#'' then tokenize (dropWhile (\<lambda>x. x \<noteq> CHR 10) cs)
      else case punct c of
        Some t \<Rightarrow> push_toks [t] (tokenize cs)
      | None \<Rightarrow>
          if is_ascii_digit c then
            (case parse_u64 (takeWhile is_ascii_digit (c # cs)) of
               None \<Rightarrow> Inl Parse
             | Some v \<Rightarrow> push_toks [IntLit v] (tokenize (dropWhile is_ascii_digit cs)))
          else if is_ident_byte c then
            push_toks [Ident (takeWhile is_ident_byte (c # cs))] (tokenize (dropWhile is_ident_byte cs))
          else Inl Parse)"
  by (subst tokenize.simps) (simp split: option.split)

lemmas tok_line = tok_str tok_step tok_u32 quoted_def is_blank_def punct_def is_ascii_digit_def is_ident_byte_def

text \<open>One line of the canonical text at a time.\<close>

lemma tok_header:
  "text_ok s \<Longrightarrow> tokenize (''driver '' @ quoted s @ '' {'' @ [CHR 10] @ rest) =
     push_toks [Ident ''driver'', Str s, LBrace] (tokenize rest)"
  by (simp add: tok_line)

lemma tok_abi:
  "tokenize (push_kv_u32 ''abi'' v @ rest) = push_toks [Ident ''abi'', Eq, IntLit (ucast v)] (tokenize rest)"
  by (simp add: push_kv_u32_def tok_line)

lemma tok_list:
  "list_all text_ok ss \<Longrightarrow> tokenize (quoted_list ss @ CHR 10 # rest) =
     push_toks ([LBrack] @ list_toks ss @ [RBrack]) (tokenize rest)"
proof -
  assume ok: "list_all text_ok ss"
  have "tokenize (join_with '', '' (map quoted ss) @ '']'' @ CHR 10 # rest) =
      push_toks (list_toks ss @ [RBrack]) (tokenize rest)"
    using ok
  proof (induction ss rule: list_toks.induct)
    case 1
    show ?case by (simp add: tok_line)
  next
    case (2 s)
    then show ?case by (simp add: tok_line)
  next
    case (3 s s' ss)
    then show ?case by (simp add: tok_line)
  qed
  then show ?thesis by (simp add: quoted_list_def tok_step is_blank_def punct_def)
qed

lemma tok_binds:
  "list_all text_ok ss \<Longrightarrow> tokenize (''    binds = '' @ quoted_list ss @ [CHR 10] @ rest) =
     push_toks ([Ident ''binds'', Eq, LBrack] @ list_toks ss @ [RBrack]) (tokenize rest)"
  using tok_list [of ss rest] by (simp add: tok_line)

lemma tok_caps:
  "list_all text_ok ss \<Longrightarrow> tokenize (''    caps = '' @ quoted_list ss @ [CHR 10] @ rest) =
     push_toks ([Ident ''caps'', Eq, LBrack] @ list_toks ss @ [RBrack]) (tokenize rest)"
  using tok_list [of ss rest] by (simp add: tok_line)

lemma tok_open: "tokenize (''    needs {'' @ [CHR 10] @ rest) = push_toks [Ident ''needs'', LBrace] (tokenize rest)"
  by (simp add: tok_line)

lemma tok_needs:
  "text_ok s \<Longrightarrow> tokenize (''        mmio = '' @ quoted s @ [CHR 10] @ rest) = push_toks [Ident ''mmio'', Eq, Str s] (tokenize rest)"
  "text_ok s \<Longrightarrow> tokenize (''        irq = '' @ quoted s @ [CHR 10] @ rest) = push_toks [Ident ''irq'', Eq, Str s] (tokenize rest)"
  "text_ok s \<Longrightarrow> tokenize (''        dma = '' @ quoted s @ [CHR 10] @ rest) = push_toks [Ident ''dma'', Eq, Str s] (tokenize rest)"
  "text_ok s \<Longrightarrow> tokenize (''        pci = '' @ quoted s @ [CHR 10] @ rest) = push_toks [Ident ''pci'', Eq, Str s] (tokenize rest)"
  "tokenize (''    }'' @ [CHR 10] @ rest) = push_toks [RBrace] (tokenize rest)"
  by (simp_all add: tok_line)

lemma tok_texts:
  "text_ok s \<Longrightarrow> tokenize (''    serves = '' @ quoted s @ [CHR 10] @ rest) = push_toks [Ident ''serves'', Eq, Str s] (tokenize rest)"
  "text_ok s \<Longrightarrow> tokenize (''    sig = '' @ quoted s @ [CHR 10] @ rest) = push_toks [Ident ''sig'', Eq, Str s] (tokenize rest)"
  by (simp_all add: tok_line)

lemma tok_idents:
  "tokenize (''    restart = '' @ restart_str r @ [CHR 10] @ rest) = push_toks [Ident ''restart'', Eq, Ident (restart_str r)] (tokenize rest)"
  "tokenize (''    lifecycle = '' @ lifecycle_str l @ [CHR 10] @ rest) = push_toks [Ident ''lifecycle'', Eq, Ident (lifecycle_str l)] (tokenize rest)"
  "tokenize (''    gather = all'' @ [CHR 10] @ rest) = push_toks [Ident ''gather'', Eq, Ident ''all''] (tokenize rest)"
  "tokenize (''}'' @ [CHR 10]) = Inr [RBrace]"
  by (cases r; cases l; simp add: tok_line tokenize.simps [of "[]"])+

section \<open>The canonical text parses\<close>

definition manifest_ok :: "manifest \<Rightarrow> bool" where
  "manifest_ok m \<longleftrightarrow> text_ok (mf_name m) \<and> text_ok (mf_serves m) \<and> mf_binds m \<noteq> [] \<and>
     list_all text_ok (mf_binds m) \<and> (case mf_sig m of None \<Rightarrow> True | Some s \<Rightarrow> text_ok s) \<and>
     nd_dma (mf_needs m) \<noteq> DmaPool 0 \<and> distinct (mf_caps m)"

definition manifest_toks :: "manifest \<Rightarrow> tok list" where
  "manifest_toks m =
     [Ident ''driver'', Str (mf_name m), LBrace] @
     [Ident ''abi'', Eq, IntLit (ucast (mf_abi m))] @
     ([Ident ''binds'', Eq, LBrack] @ list_toks (mf_binds m) @ [RBrack]) @
     [Ident ''needs'', LBrace] @
     [Ident ''mmio'', Eq, Str (mmio_need_str (nd_mmio (mf_needs m)))] @
     [Ident ''irq'', Eq, Str (irq_need_str (nd_irq (mf_needs m)))] @
     [Ident ''dma'', Eq, Str (dma_need_str (nd_dma (mf_needs m)))] @
     [Ident ''pci'', Eq, Str (pci_need_str (nd_pci (mf_needs m)))] @
     [RBrace] @
     [Ident ''serves'', Eq, Str (mf_serves m)] @
     [Ident ''restart'', Eq, Ident (restart_str (mf_restart m))] @
     [Ident ''lifecycle'', Eq, Ident (lifecycle_str (mf_lifecycle m))] @
     (if mf_gather m then [Ident ''gather'', Eq, Ident ''all''] else []) @
     (if mf_caps m \<noteq> [] then [Ident ''caps'', Eq, LBrack] @ list_toks (map cap_name (mf_caps m)) @ [RBrack] else []) @
     (case mf_sig m of Some s \<Rightarrow> [Ident ''sig'', Eq, Str s] | None \<Rightarrow> []) @
     [RBrace]"

lemma visible_text_ok:
  assumes "list_all is_visible s" and "CHR 34 \<notin> set s"
  shows "text_ok s"
proof -
  have "utf8_ok s" using assms(1) by (intro utf8_ascii) (auto simp: list_all_iff is_visible_def)
  moreover have "\<not> is_visible CHR 10" by (simp add: is_visible_def)
  ultimately show ?thesis using assms by (auto simp: text_ok_def list_all_iff in_str_def)
qed

lemma decimal_visible: "list_all is_visible (show_nat n)" "CHR 34 \<notin> set (show_nat n)"
  using show_nat_decimal [of n] by (auto simp: list_all_iff is_ascii_digit_def is_visible_def)

lemma need_strs_ok [simp]:
  "text_ok (mmio_need_str a)" "text_ok (irq_need_str b)" "text_ok (dma_need_str c)" "text_ok (pci_need_str d)"
  "text_ok (cap_name e)"
  by (intro visible_text_ok; cases a; cases b; cases c; cases d; cases e;
      simp add: decimal_visible; simp add: is_visible_def)+

lemma tokenize_to_text:
  assumes "manifest_ok m"
  shows "tokenize (to_text m) = Inr (manifest_toks m)"
proof -
  have caps: "list_all text_ok (map cap_name (mf_caps m))" by (simp add: list_all_iff)
  have opt: "tokenize ((if b then t else []) @ rest) = push_toks (if b then ts else []) (tokenize rest)"
    if "tokenize (t @ rest) = push_toks ts (tokenize rest)" for b t ts rest
    using that by simp
  have sig: "tokenize ((case mf_sig m of Some s \<Rightarrow> ''    sig = '' @ quoted s @ [CHR 10] | None \<Rightarrow> []) @ rest) =
      push_toks (case mf_sig m of Some s \<Rightarrow> [Ident ''sig'', Eq, Str s] | None \<Rightarrow> []) (tokenize rest)" for rest
    using assms tok_texts(2) [of _ rest] by (cases "mf_sig m") (simp_all add: manifest_ok_def)
  have gather: "tokenize ((if mf_gather m then ''    gather = all'' @ [CHR 10] else []) @ rest) =
      push_toks (if mf_gather m then [Ident ''gather'', Eq, Ident ''all''] else []) (tokenize rest)" for rest
    by (rule opt) (use tok_idents(3) in simp)
  have capl: "tokenize ((if mf_caps m \<noteq> [] then ''    caps = '' @ quoted_list (map cap_name (mf_caps m)) @ [CHR 10] else []) @ rest) =
      push_toks (if mf_caps m \<noteq> [] then [Ident ''caps'', Eq, LBrack] @ list_toks (map cap_name (mf_caps m)) @ [RBrack] else [])
        (tokenize rest)" for rest
    by (rule opt) (use tok_caps [OF caps] in simp)
  show ?thesis
    using assms unfolding to_text_def manifest_toks_def manifest_ok_def
    by (simp only: tok_header tok_abi tok_binds tok_open tok_needs tok_texts tok_idents gather capl sig
        need_strs_ok push_toks_simps append_assoc)
qed

subsection \<open>Need strings\<close>

lemma visible_trim: "list_all is_visible s \<Longrightarrow> s \<noteq> [] \<Longrightarrow> trim s = s"
  by (intro trim_visible) (simp_all add: list_all_iff)

lemma trim_Nil [simp]: "trim [] = []"
  by (simp add: trim_def trim_start.simps trim_rev.simps ws_head_def ws_last_def)

lemma trim_lits:
  "trim ''none'' = ''none''" "trim ''node:reg'' = ''node:reg''" "trim ''node:interrupts'' = ''node:interrupts''"
  "trim ''node'' = ''node''"
  by (simp_all add: visible_trim is_visible_def)

lemma trim_decimal: "trim (show_nat n) = show_nat n"
  by (simp add: visible_trim decimal_visible)

lemma trim_prefixed:
  "trim (''msi:'' @ show_nat n) = ''msi:'' @ show_nat n" "trim (''pool:'' @ show_nat n) = ''pool:'' @ show_nat n"
  by (rule visible_trim; simp add: decimal_visible; simp add: is_visible_def)+

lemma parse_size_unfold:
  assumes "trim (show_nat n @ rest) = show_nat n @ rest" and "rest = [] \<or> \<not> is_ascii_digit (hd rest)" and "n < 2 ^ 64"
  shows "parse_size (show_nat n @ rest) =
    andthen (ok_or Parse (unit_mult (map lower (trim rest)))) (\<lambda>mult.
    ok_or Parse (if n * mult < 2 ^ 64 then Some (of_nat (n * mult)) else None))"
proof -
  have "takeWhile is_ascii_digit (show_nat n @ rest) = show_nat n"
    and "dropWhile is_ascii_digit (show_nat n @ rest) = rest"
    using take_drop_all [OF show_nat_decimal assms(2)] by simp_all
  moreover have "from_str_radix 10 (2 ^ 64) (show_nat n) = Some n" using assms(3) by simp
  ultimately show ?thesis
    unfolding parse_size_def Let_def assms(1) by (simp only: show_nat_ne if_False ok_or_simps andthen_simps)
qed

lemma parse_size_decimal: "parse_size (show_nat (unat v)) = Inr v"
  using parse_size_unfold [of "unat v" "[]"] unsigned_less [of v, where 'a = nat]
  by (simp add: trim_decimal unit_mult_def)

lemma needs_parse:
  "parse_mmio_need (mmio_need_str a) = Inr a" "parse_irq_need (irq_need_str b) = Inr b"
  "c \<noteq> DmaPool 0 \<Longrightarrow> parse_dma_need (dma_need_str c) = Inr c" "parse_pci_need (pci_need_str d) = Inr d"
proof -
  show "parse_mmio_need (mmio_need_str a) = Inr a" by (cases a) (simp_all add: parse_mmio_need_def trim_lits)
  show "parse_pci_need (pci_need_str d) = Inr d" by (cases d) (simp_all add: parse_pci_need_def trim_lits)
  show "parse_irq_need (irq_need_str b) = Inr b"
  proof (cases b)
    case (IrqMsi n)
    have "from_str_radix 10 (2 ^ 32) (show_nat (unat n)) = Some (unat n)"
      using unsigned_less [of n, where 'a = nat] by simp
    with IrqMsi trim_prefixed(1) [of "unat n"] show ?thesis
      by (simp add: parse_irq_need_def Let_def trim_decimal)
  qed (simp_all add: parse_irq_need_def trim_lits)
  show "parse_dma_need (dma_need_str c) = Inr c" if "c \<noteq> DmaPool 0"
  proof (cases c)
    case (DmaPool n)
    with that trim_prefixed(2) [of "unat n"] show ?thesis
      by (simp add: parse_dma_need_def Let_def trim_decimal parse_size_decimal)
  qed (simp add: parse_dma_need_def trim_lits)
qed

subsection \<open>The parser on the canonical tokens\<close>

lemma list_toks_ne: "ss \<noteq> [] \<Longrightarrow> \<exists>s us. list_toks ss = Str s # us"
  by (cases ss rule: list_toks.cases) auto

lemma str_loop_toks: "ss \<noteq> [] \<Longrightarrow> str_loop out (list_toks ss @ RBrack # ts) = Inr (out @ ss, ts)"
proof (induction ss arbitrary: out rule: list_toks.induct)
  case (3 s s' ss)
  obtain q us where "list_toks (s' # ss) = Str q # us" using list_toks_ne [of "s' # ss"] by auto
  with "3.IH" [of "out @ [s]"] show ?case by simp
qed simp_all

lemma parse_list_toks: "parse_str_list (LBrack # list_toks ss @ RBrack # ts) = Inr (ss, ts)"
proof (cases "ss = []")
  case False
  then obtain s us where "list_toks ss = Str s # us" using list_toks_ne by blast
  with str_loop_toks [OF False, of "[]" ts] show ?thesis by (simp add: parse_str_list_def expect_def next_tok_def)
qed (simp add: parse_str_list_def expect_def next_tok_def)

lemma caps_loop_names: "distinct (out @ cs) \<Longrightarrow> caps_loop out (map cap_name cs) = Inr (out @ cs)"
proof (induction cs arbitrary: out)
  case (Cons c cs)
  have "cap_parse (cap_name c) = Some c" by (cases c) (simp add: cap_parse_def)
  with Cons.IH [of "out @ [c]"] Cons.prems show ?case by auto
qed simp

lemma body_simps:
  "body_loop f (RBrace # ts) = Inr (f, ts)"
  "body_loop f (Ident k # ts) = andthen (set_key k f ts) (\<lambda>(f, ts). body_loop f ts)"
  by (subst body_loop.simps, simp)+

text \<open>The effect of each line of the canonical text on the parser's variables.\<close>

lemma key_lines:
  "mv_abi f = None \<Longrightarrow> set_key ''abi'' f (Eq # IntLit (ucast v) # ts) = Inr (f\<lparr>mv_abi := Some v\<rparr>, ts)"
  "mv_binds f = None \<Longrightarrow>
     set_key ''binds'' f (Eq # LBrack # list_toks ss @ RBrack # ts) = Inr (f\<lparr>mv_binds := Some ss\<rparr>, ts)"
  "mv_serves f = None \<Longrightarrow> set_key ''serves'' f (Eq # Str s # ts) = Inr (f\<lparr>mv_serves := Some s\<rparr>, ts)"
  "mv_sig f = None \<Longrightarrow> set_key ''sig'' f (Eq # Str s # ts) = Inr (f\<lparr>mv_sig := Some s\<rparr>, ts)"
  "mv_restart f = None \<Longrightarrow>
     set_key ''restart'' f (Eq # Ident (restart_str r) # ts) = Inr (f\<lparr>mv_restart := Some r\<rparr>, ts)"
  "mv_lifecycle f = None \<Longrightarrow>
     set_key ''lifecycle'' f (Eq # Ident (lifecycle_str l) # ts) = Inr (f\<lparr>mv_lifecycle := Some l\<rparr>, ts)"
  "mv_gather f = None \<Longrightarrow> set_key ''gather'' f (Eq # Ident ''all'' # ts) = Inr (f\<lparr>mv_gather := Some True\<rparr>, ts)"
  "mv_caps f = None \<Longrightarrow> distinct cs \<Longrightarrow>
     set_key ''caps'' f (Eq # LBrack # list_toks (map cap_name cs) @ RBrack # ts) = Inr (f\<lparr>mv_caps := Some cs\<rparr>, ts)"
proof -
  have "unat (ucast v :: u64) = unat v" by (simp add: unat_ucast_up)
  then show "mv_abi f = None \<Longrightarrow> set_key ''abi'' f (Eq # IntLit (ucast v) # ts) = Inr (f\<lparr>mv_abi := Some v\<rparr>, ts)"
    using unsigned_less [of v, where 'a = nat]
    by (simp add: set_key_def expect_def next_tok_def parse_u32_tok_def ucast_up_down)
  show "mv_binds f = None \<Longrightarrow>
      set_key ''binds'' f (Eq # LBrack # list_toks ss @ RBrack # ts) = Inr (f\<lparr>mv_binds := Some ss\<rparr>, ts)"
    by (simp add: set_key_def expect_def next_tok_def parse_list_toks)
  show "mv_serves f = None \<Longrightarrow> set_key ''serves'' f (Eq # Str s # ts) = Inr (f\<lparr>mv_serves := Some s\<rparr>, ts)"
    "mv_sig f = None \<Longrightarrow> set_key ''sig'' f (Eq # Str s # ts) = Inr (f\<lparr>mv_sig := Some s\<rparr>, ts)"
    by (simp_all add: set_key_def expect_def next_tok_def expect_str_def)
  show "mv_restart f = None \<Longrightarrow>
      set_key ''restart'' f (Eq # Ident (restart_str r) # ts) = Inr (f\<lparr>mv_restart := Some r\<rparr>, ts)"
    by (cases r) (simp_all add: set_key_def expect_def next_tok_def expect_ident_def parse_restart_def)
  show "mv_lifecycle f = None \<Longrightarrow>
      set_key ''lifecycle'' f (Eq # Ident (lifecycle_str l) # ts) = Inr (f\<lparr>mv_lifecycle := Some l\<rparr>, ts)"
    by (cases l) (simp_all add: set_key_def expect_def next_tok_def expect_ident_def parse_lifecycle_def)
  show "mv_gather f = None \<Longrightarrow> set_key ''gather'' f (Eq # Ident ''all'' # ts) = Inr (f\<lparr>mv_gather := Some True\<rparr>, ts)"
    by (simp add: set_key_def expect_def next_tok_def expect_ident_def parse_gather_def)
  show "mv_caps f = None \<Longrightarrow> distinct cs \<Longrightarrow>
      set_key ''caps'' f (Eq # LBrack # list_toks (map cap_name cs) @ RBrack # ts) = Inr (f\<lparr>mv_caps := Some cs\<rparr>, ts)"
    using caps_loop_names [of "[]" cs]
    by (simp add: set_key_def expect_def next_tok_def parse_list_toks parse_caps_def)
qed

lemma key_needs:
  assumes "mv_needs f = None" and "nd_dma n \<noteq> DmaPool 0"
  shows "set_key ''needs'' f (LBrace # Ident ''mmio'' # Eq # Str (mmio_need_str (nd_mmio n)) #
      Ident ''irq'' # Eq # Str (irq_need_str (nd_irq n)) # Ident ''dma'' # Eq # Str (dma_need_str (nd_dma n)) #
      Ident ''pci'' # Eq # Str (pci_need_str (nd_pci n)) # RBrace # ts) = Inr (f\<lparr>mv_needs := Some n\<rparr>, ts)"
  using assms by (simp add: set_key_def parse_needs_def expect_def next_tok_def set_need_def needs_parse unwrap_or_def)

lemma parse_manifest_toks:
  assumes "manifest_ok m"
  shows "parse_manifest (manifest_toks m) = Inr (m, [])"
  using assms
  by (cases "mf_sig m"; cases "mf_gather m"; cases "mf_caps m")
     (auto simp: parse_manifest_def manifest_toks_def manifest_ok_def expect_ident_def expect_str_def expect_def
       next_tok_def body_simps key_lines key_needs no_mf_fields_def unwrap_or_def
       simp del: list_toks.simps list.map)

lemma parse_printed: "manifest_ok m \<Longrightarrow> manifest_parse (to_text m) = Inr m"
  by (simp add: manifest_parse_def tokenize_to_text parse_manifest_toks)

lemma demo_manifest_ok: "manifest_ok demo_manifest"
proof -
  have "text_ok ''netdev-driver''" "text_ok ''virtio:1''" "text_ok ''/dev/net/%instance''"
    by (rule visible_text_ok; simp add: is_visible_def)+
  then show ?thesis by (simp add: manifest_ok_def demo_manifest_def)
qed

text \<open>C24. The canonical text of a manifest parses back to it: for a manifest that binds something, whose
  texts can stand between quotes, whose DMA pool is not empty and whose capabilities are distinct,
  \<open>parse\<close> of \<open>to_text\<close> gives back every field.\<close>

theorem manifest_round_trip:
  assumes "manifest_ok m"
  shows "manifest_parse (to_text m) = Inr m"
  using assms by (rule parse_printed)

theorem manifest_round_trip_witness: "manifest_parse (to_text demo_manifest) = Inr demo_manifest"
  by (rule manifest_round_trip) (rule demo_manifest_ok)

section \<open>What the parser accepts\<close>

definition toks_ok :: "tok list \<Rightarrow> bool" where
  "toks_ok ts \<longleftrightarrow> (\<forall>s. Str s \<in> set ts \<longrightarrow> text_ok s)"

lemma toks_ok_simps [simp]:
  "toks_ok []" "toks_ok (Str s # ts) \<longleftrightarrow> text_ok s \<and> toks_ok ts" "toks_ok (Ident s # ts) \<longleftrightarrow> toks_ok ts"
  "toks_ok (IntLit v # ts) \<longleftrightarrow> toks_ok ts" "toks_ok (LBrace # ts) \<longleftrightarrow> toks_ok ts" "toks_ok (RBrace # ts) \<longleftrightarrow> toks_ok ts"
  "toks_ok (LBrack # ts) \<longleftrightarrow> toks_ok ts" "toks_ok (RBrack # ts) \<longleftrightarrow> toks_ok ts" "toks_ok (Eq # ts) \<longleftrightarrow> toks_ok ts"
  "toks_ok (Comma # ts) \<longleftrightarrow> toks_ok ts"
  by (auto simp: toks_ok_def)

lemma push_tok_Inr: "push_toks [t] r = Inr ts \<longleftrightarrow> (\<exists>us. r = Inr us \<and> ts = t # us)"
  by (cases r) (auto simp: push_toks_def)

lemma tokenize_toks_ok: "tokenize s = Inr ts \<Longrightarrow> toks_ok ts"
proof (induction s arbitrary: ts rule: tokenize.induct)
  case (1 s)
  show ?case
  proof (cases s)
    case Nil
    with 1 show ?thesis by (simp add: tokenize.simps)
  next
    case (Cons c cs)
    show ?thesis
    proof (cases "c = CHR 34")
      case True
      have body: "list_all in_str (takeWhile in_str cs)" by (auto simp: list_all_iff dest: set_takeWhileD)
      obtain q rest where q: "dropWhile in_str cs = q # rest" "q \<noteq> CHR 10" "utf8_ok (takeWhile in_str cs)"
        and "\<exists>us. tokenize rest = Inr us \<and> ts = Str (takeWhile in_str cs) # us"
        using \<open>tokenize s = Inr ts\<close> Cons True
        by (subst (asm) tokenize.simps) (auto simp: is_blank_def punct_def push_tok_Inr split: list.splits if_splits)
      then obtain us where us: "tokenize rest = Inr us" "ts = Str (takeWhile in_str cs) # us" by blast
      have c: "\<not> is_blank c" "c \<noteq> CHR ''#''" "punct c = None" using True by (simp_all add: is_blank_def punct_def)
      have "toks_ok us" by (rule 1(3) [OF Cons c True q us(1)])
      with us(2) q(3) body show ?thesis by (simp add: text_ok_def)
    next
      case False
      then show ?thesis
        using 1 Cons
        by (auto simp: tok_step push_tok_Inr punct_def split: if_splits option.splits)
    qed
  qed
qed

text \<open>The variables of the parser, as far as the tokens they come from matter.\<close>

definition fields_ok :: "mf_fields \<Rightarrow> bool" where
  "fields_ok f \<longleftrightarrow> list_all text_ok (unwrap_or [] (mv_binds f)) \<and> text_ok (unwrap_or [] (mv_serves f)) \<and>
     text_ok (unwrap_or [] (mv_sig f)) \<and> nd_dma (unwrap_or needs_NONE (mv_needs f)) \<noteq> DmaPool 0 \<and>
     distinct (unwrap_or [] (mv_caps f))"

lemma text_ok_Nil [simp]: "text_ok []"
  by (simp add: text_ok_def utf8_ok_def)

lemma str_loop_ok:
  "str_loop out ts = Inr (v, ts') \<Longrightarrow> toks_ok ts \<Longrightarrow> list_all text_ok out \<Longrightarrow> list_all text_ok v \<and> toks_ok ts'"
  by (induction out ts rule: str_loop.induct) (auto split: list.splits tok.splits)

lemma parse_str_list_ok:
  assumes "parse_str_list ts = Inr (v, ts')" and "toks_ok ts"
  shows "list_all text_ok v \<and> toks_ok ts'"
proof -
  obtain us where "ts = LBrack # us"
    and "(case us of RBrack # us' \<Rightarrow> Inr ([], us') | _ \<Rightarrow> str_loop [] us) = Inr (v, ts')"
    using assms(1) by (auto simp: parse_str_list_def andthen_eq_Inr expect_shorter)
  with assms(2) str_loop_ok [of "[]" us v ts'] show ?thesis by (auto split: list.splits tok.splits)
qed

lemma caps_loop_distinct: "caps_loop out ns = Inr cs \<Longrightarrow> distinct out \<Longrightarrow> distinct cs"
  by (induction ns arbitrary: out) (auto simp: andthen_eq_Inr split: if_splits)

lemma parse_dma_ok: "parse_dma_need s = Inr d \<Longrightarrow> d \<noteq> DmaPool 0"
  by (auto simp: parse_dma_need_def Let_def andthen_eq_Inr split: if_splits option.splits)

lemma needs_loop_ok:
  "needs_loop f ts = Inr (f', ts') \<Longrightarrow> toks_ok ts \<Longrightarrow> nf_dma f \<noteq> Some (DmaPool 0) \<Longrightarrow>
     toks_ok ts' \<and> nf_dma f' \<noteq> Some (DmaPool 0)"
proof (induction f ts rule: needs_loop.induct)
  case (2 f key val ts)
  then obtain g where g: "set_need key val f = Inr g" "needs_loop g ts = Inr (f', ts')"
    by (auto simp: andthen_eq_Inr)
  moreover have "nf_dma g \<noteq> Some (DmaPool 0)"
    using g(1) 2(4) by (auto simp: set_need_def andthen_eq_Inr split: if_splits dest: parse_dma_ok)
  ultimately show ?case using 2(1) [OF g] 2(3) by simp
qed auto

lemma parse_needs_ok:
  assumes "parse_needs ts = Inr (n, ts')" and "toks_ok ts"
  shows "toks_ok ts' \<and> nd_dma n \<noteq> DmaPool 0"
proof -
  obtain us f where "ts = LBrace # us" "nd_dma n = unwrap_or DmaNone (nf_dma f)"
    "needs_loop \<lparr>nf_mmio = None, nf_irq = None, nf_dma = None, nf_pci = None\<rparr> us = Inr (f, ts')"
    using assms(1) by (auto simp: parse_needs_def andthen_eq_Inr expect_shorter)
  with needs_loop_ok [OF this(3)] assms(2) show ?thesis by (auto simp: unwrap_or_def split: option.splits)
qed

lemma set_key_ok:
  assumes "set_key key f ts = Inr (f', ts')" and "toks_ok ts" and "fields_ok f"
  shows "toks_ok ts' \<and> fields_ok f'"
  using assms
  by (auto simp: set_key_def andthen_eq_Inr expect_shorter expect_str_shorter expect_ident_shorter
      parse_u32_tok_shorter parse_restart_def parse_lifecycle_def parse_gather_def parse_caps_def
      fields_ok_def unwrap_or_def
      split: if_splits dest: parse_str_list_ok parse_needs_ok caps_loop_distinct)

lemma body_errors:
  "body_loop f (Str s # ts) = Inl Parse" "body_loop f (IntLit v # ts) = Inl Parse"
  "body_loop f (LBrace # ts) = Inl Parse" "body_loop f (LBrack # ts) = Inl Parse"
  "body_loop f (RBrack # ts) = Inl Parse" "body_loop f (Eq # ts) = Inl Parse"
  "body_loop f (Comma # ts) = Inl Parse"
  by (subst body_loop.simps, simp)+

lemma body_loop_cases:
  assumes "body_loop f ts = Inr (f', ts')"
  obtains "ts = RBrace # ts'" "f' = f"
  | key us g vs where "ts = Ident key # us" "set_key key f us = Inr (g, vs)" "body_loop g vs = Inr (f', ts')"
proof (cases ts)
  case Nil
  with assms show ?thesis by (simp add: body_loop.simps)
next
  case (Cons t us)
  with assms that show ?thesis
    by (cases t) (auto simp: body_simps body_errors andthen_eq_Inr)
qed

lemma body_loop_ok: "body_loop f ts = Inr (f', ts') \<Longrightarrow> toks_ok ts \<Longrightarrow> fields_ok f \<Longrightarrow> fields_ok f'"
proof (induction "length ts" arbitrary: f ts rule: less_induct)
  case less
  from less.prems(1) show ?case
  proof (cases rule: body_loop_cases)
    case 1
    with less.prems show ?thesis by simp
  next
    case (2 key us g vs)
    have "toks_ok vs \<and> fields_ok g" using set_key_ok [OF 2(2)] 2(1) less.prems by simp
    moreover have "length vs < length ts" using set_key_shorter [OF 2(2)] 2(1) by simp
    ultimately show ?thesis using less.hyps 2(3) by blast
  qed
qed

text \<open>C37. Whatever text the parser accepts, the manifest it returns is sound and has a canonical form:
  it binds something, every text of it can stand between quotes, no DMA pool is empty and no
  capability is listed twice; so printing it and parsing again gives the same manifest.\<close>

theorem parsed_manifest_sound:
  assumes "manifest_parse text = Inr m"
  shows "manifest_ok m \<and> manifest_parse (to_text m) = Inr m"
proof -
  obtain toks where toks: "tokenize text = Inr toks" and m: "parse_manifest toks = Inr (m, [])"
    using assms by (auto simp: manifest_parse_def andthen_eq_Inr split: if_splits)
  obtain ts f rest where ts: "toks = Ident ''driver'' # Str (mf_name m) # LBrace # ts"
    and body: "body_loop no_mf_fields ts = Inr (f, rest)" and binds: "mv_binds f = Some (mf_binds m)" "mf_binds m \<noteq> []"
    and serves: "mv_serves f = Some (mf_serves m)" and sig: "mf_sig m = mv_sig f"
    and needs: "mf_needs m = unwrap_or needs_NONE (mv_needs f)" and caps: "mf_caps m = unwrap_or [] (mv_caps f)"
    using m by (auto simp: parse_manifest_def andthen_eq_Inr expect_ident_shorter expect_str_shorter expect_shorter
        split: if_splits)
  have "toks_ok toks" by (rule tokenize_toks_ok [OF toks])
  moreover have "fields_ok no_mf_fields"
    by (simp add: fields_ok_def no_mf_fields_def unwrap_or_def needs_NONE_def)
  ultimately have "fields_ok f" using body_loop_ok [OF body] ts by simp
  then have "manifest_ok m"
    using \<open>toks_ok toks\<close> ts binds serves sig needs caps
    by (auto simp: manifest_ok_def fields_ok_def unwrap_or_def split: option.splits)
  then show ?thesis by (simp add: parse_printed)
qed

theorem parsed_manifest_sound_witness:
  "manifest_ok demo_manifest \<and> manifest_parse (to_text demo_manifest) = Inr demo_manifest"
  by (rule parsed_manifest_sound [of "to_text demo_manifest"]) (rule parse_printed [OF demo_manifest_ok])

section \<open>Sizes\<close>

lemma unit_letters:
  assumes "unit_mult (map lower u) = Some k" and "c \<in> set u"
  shows "is_visible c \<and> \<not> is_ascii_digit c"
proof -
  have "set (map lower u) \<subseteq> {CHR ''b'', CHR ''k'', CHR ''i'', CHR ''m'', CHR ''g''}"
    using assms(1) by (auto simp: unit_mult_def split: if_splits)
  then have "lower c \<in> {CHR ''b'', CHR ''k'', CHR ''i'', CHR ''m'', CHR ''g''}" using assms(2) by auto
  then have "97 \<le> ord (lower c) \<and> ord (lower c) \<le> 122" by auto
  then show ?thesis
    by (auto simp: lower_def is_visible_def is_ascii_digit_def split: if_splits)
qed

lemma trim_start_spaces: "list_all ((=) CHR '' '') sp \<Longrightarrow> trim_start (sp @ s) = trim_start s"
proof (induction sp)
  case (Cons c sp)
  have "ws_head (CHR '' '' # sp @ s) = 1" by (simp add: ws_head_def ws1_def split: list.splits)
  moreover have "c = CHR '' ''" "trim_start (sp @ s) = trim_start s" using Cons by auto
  ultimately show ?case by (subst trim_start.simps) simp
qed simp

lemma trim_spaces:
  assumes "list_all ((=) CHR '' '') sp" and "list_all is_visible u" and "u \<noteq> []"
  shows "trim (sp @ u) = u"
  using visible_trim [OF assms(2,3)] trim_start_spaces [OF assms(1), of u] by (simp add: trim_def)

text \<open>A size with a unit is the number times the unit, or refused when it passes 64 bits. For any
  decimal number, any number of spaces and any spelling of a unit the parser knows, in either case
  of letters, \<open>parse_size\<close> returns the exact product when it fits and an error otherwise.\<close>

theorem parse_size_units:
  assumes "n < 2 ^ 64" and "list_all ((=) CHR '' '') sp" and "u \<noteq> []" and "unit_mult (map lower u) = Some k"
  shows "parse_size (show_nat n @ sp @ u) = (if n * k < 2 ^ 64 then Inr (of_nat (n * k)) else Inl Parse)"
proof -
  have vis: "list_all is_visible u" and no: "\<not> is_ascii_digit (hd u)"
    using unit_letters [OF assms(4)] assms(3) by (auto simp: list_all_iff)
  have "is_visible (hd (show_nat n @ sp @ u))"
    using decimal_visible(1) [of n] by (cases "show_nat n") auto
  moreover have "is_visible (last (show_nat n @ sp @ u))" using vis assms(3) by (simp add: list_all_iff)
  ultimately have "trim (show_nat n @ sp @ u) = show_nat n @ sp @ u" by (intro trim_visible) simp_all
  moreover have "\<not> is_ascii_digit (hd (sp @ u))"
    using assms(2) no by (cases sp) (auto simp: is_ascii_digit_def)
  ultimately show ?thesis
    using parse_size_unfold [of n "sp @ u"] assms vis by (simp add: trim_spaces)
qed

theorem parse_size_units_witness:
  "parse_size (show_nat 64 @ '' '' @ ''KiB'') = (if 64 * 1024 < (2 :: nat) ^ 64 then Inr (of_nat (64 * 1024)) else Inl Parse)"
proof (rule parse_size_units)
  have "map lower ''KiB'' = ''kib''" by code_simp
  then show "unit_mult (map lower ''KiB'') = Some 1024" by (simp only:) (simp add: unit_mult_def)
qed simp_all

end
