(* ===== verification/Driver_Supervise.thy ===== *)
theory Driver_Supervise
  imports Driver_Types
begin

text \<open>
  The restart policy of \<open>usr/lib/libdriver/src/supervise.rs\<close>: what one run of a driver came to, what
  the supervisor does next and the back-off before a restart. Exit codes are only compared, so they are
  bare 32-bit words.
\<close>

datatype run_outcome = Served | Exited "i32 option" | HardFail
datatype disposition = Up | GaveUp | Failed
datatype supervise_step = Restart_after u32 | Settle disposition

definition RESTART_LIMIT :: u32 where "RESTART_LIMIT = 3"
definition BACKOFF_BASE_MS :: u32 where "BACKOFF_BASE_MS = 50"
definition BACKOFF_MAX_MS :: u32 where "BACKOFF_MAX_MS = 500"

definition backoff_ms :: "u32 \<Rightarrow> u32" where
  "backoff_ms restart_n =
     (if restart_n = 0 then 0
      else let shift = min (restart_n - 1) 16
           in min (sat_mul BACKOFF_BASE_MS (push_bit (unat shift) 1)) BACKOFF_MAX_MS)"

definition next_step :: "run_outcome \<Rightarrow> restart \<Rightarrow> u32 \<Rightarrow> supervise_step" where
  "next_step outcome policy restarts_so_far =
     (case outcome of
        Served \<Rightarrow> Settle Up
      | HardFail \<Rightarrow> Settle Failed
      | Exited code \<Rightarrow>
          let crashed = (code \<noteq> Some 0);
              want_restart = (case policy of Never \<Rightarrow> False | OnCrash \<Rightarrow> crashed | Always \<Rightarrow> True)
          in if \<not> want_restart \<or> restarts_so_far \<ge> RESTART_LIMIT
             then Settle (if crashed then GaveUp else Up)
             else Restart_after (backoff_ms (restarts_so_far + 1)))"

section \<open>What the policy guarantees\<close>

lemma restart_bound: "next_step out pol n = Restart_after d \<Longrightarrow> n < 3 \<and> unat (n + 1) = unat n + 1"
proof -
  assume "next_step out pol n = Restart_after d"
  then have n: "n < 3" by (auto simp: next_step_def Let_def RESTART_LIMIT_def not_le split: run_outcome.splits if_splits)
  then have "unat n < 3" by (simp add: word_less_nat_alt)
  then show ?thesis using n by (simp add: unat_word_ariths)
qed

text \<open>The back-off doubles from its base up to its cap, and never overflows.\<close>

lemma shift_value:
  assumes "s \<le> 16"
  shows "unat (push_bit s (1 :: u32)) = 2 ^ s"
proof -
  have "(2 :: nat) ^ s \<le> 2 ^ 16" using assms by (rule power_increasing) simp
  then have lt: "(2 :: nat) ^ s < 2 ^ 32" by simp
  have "push_bit s (1 :: u32) = of_nat (2 ^ s)" by (simp add: push_bit_eq_mult)
  then have "unat (push_bit s (1 :: u32)) = unat (of_nat (2 ^ s) :: u32)" by (rule arg_cong)
  also have "\<dots> = 2 ^ s" using lt assms by (simp add: unsigned_of_nat take_bit_nat_eq_self del: of_nat_power)
  finally show ?thesis .
qed

lemma backoff_exact:
  "unat (backoff_ms n) = (if n = 0 then 0 else min (50 * 2 ^ min (unat n - 1) 16) 500)"
proof (cases "n = 0")
  case False
  then have "unat (n - 1) = unat n - 1" by (simp add: unat_minus_one)
  then have s: "unat (min (n - 1) 16) = min (unat n - 1) 16" by (simp add: min_def word_le_nat_alt)
  have "(2 :: nat) ^ min (unat n - 1) 16 \<le> 2 ^ 16" by (rule power_increasing) simp_all
  then have "50 * (2 :: nat) ^ min (unat n - 1) 16 < 2 ^ 32" by simp
  then show ?thesis using False
    by (simp add: backoff_ms_def Let_def s shift_value unat_sat_mul BACKOFF_BASE_MS_def BACKOFF_MAX_MS_def
        min_def [of "sat_mul _ _"] word_le_nat_alt del: push_bit_of_1)
qed (simp add: backoff_ms_def)

text \<open>When a run is worth another one, and what a run settles to otherwise.\<close>

definition wants_restart :: "restart \<Rightarrow> run_outcome \<Rightarrow> bool" where
  "wants_restart policy out \<longleftrightarrow>
     (case out of Exited code \<Rightarrow> policy = Always \<or> (policy = OnCrash \<and> code \<noteq> Some 0) | _ \<Rightarrow> False)"

definition settled :: "run_outcome \<Rightarrow> disposition" where
  "settled out = (case out of Served \<Rightarrow> Up | HardFail \<Rightarrow> Failed | Exited code \<Rightarrow> if code = Some 0 then Up else GaveUp)"

lemma next_step_exact:
  "next_step out policy n =
     (if wants_restart policy out \<and> n < 3 then Restart_after (backoff_ms (n + 1)) else Settle (settled out))"
  by (auto simp: next_step_def wants_restart_def settled_def Let_def RESTART_LIMIT_def not_le
      split: run_outcome.splits restart.splits)

lemma backoff_values: "backoff_ms 1 = 50" "backoff_ms 2 = 100" "backoff_ms 3 = 200"
  by (simp_all add: word_unat_eq_iff backoff_exact)

end
