(* ===== verification/Warden.thy ===== *)
theory Warden
  imports Driver_Runtime Driver_Discovery Driver_Manifest Driver_Supervise
begin

text \<open>
  The warden (\<open>usr/warden/src/main.rs\<close>): the driver supervisor that discovers devices, binds each to a
  driver's manifest, spawns the driver with exactly the resolved grant and restarts it per
  policy. What the kernel answers is a parameter: whether a spawn succeeds, and for each poll of a child
  whether it has exited and what its pipe holds. The effects are the list of actions the warden takes; console
  diagnostics and the pacing of polls are left out.
\<close>

unbundle bit_operations_syntax

section \<open>The world and the actions\<close>

definition T_CAP_HW_CREATE :: u64 where "T_CAP_HW_CREATE = 1"
definition T_CAP_CSPRNG_READ :: u64 where "T_CAP_CSPRNG_READ = 4"
definition T_SPAWN_PERM_MAY_POST_SERVICE :: u64 where "T_SPAWN_PERM_MAY_POST_SERVICE = 1"
definition T_SPAWN_PERM_SEAT_SERVICE :: u64 where "T_SPAWN_PERM_SEAT_SERVICE = 128"
definition T_SPAWN_PERM_SEAT_CLIENT :: u64 where "T_SPAWN_PERM_SEAT_CLIENT = 256"
definition READY_WAIT_TRIES :: u32 where "READY_WAIT_TRIES = 100"

text \<open>A spawned program with its argument, capabilities, allowance and permissions; a child reaped by
  a poll, killed, or waited for; and the back-off sleeps.\<close>

datatype action =
    Spawn string string u64 allowance u64
  | Reap string | Kill string | Wait string | Sleep u32

datatype wait_obs = StillRunning | HasExited i32 | WaitError

record child_world =
  cw_pipe :: bool
  cw_try_wait :: "nat \<Rightarrow> wait_obs"
  cw_readable :: "nat \<Rightarrow> bool"
  cw_read :: "nat \<Rightarrow> bytes option"
  cw_wait_ok :: bool

record spawn_world =
  sw_null :: bool
  sw_spawn :: bool
  sw_child :: child_world

section \<open>Waiting for a driver to declare itself\<close>

datatype readiness = Signalled string | Exited_with i32 | Timeout | Untracked

text \<open>The loop of \<open>await_readiness\<close>: the tries left, the number of this one, the accumulated line and
  whether the pipe has nothing more to say.\<close>

fun ready_loop :: "child_world \<Rightarrow> nat \<Rightarrow> nat \<Rightarrow> bytes \<Rightarrow> bool \<Rightarrow> readiness" where
  "ready_loop w 0 i acc pipe_done = Timeout"
| "ready_loop w (Suc n) i acc pipe_done =
     (case cw_try_wait w i of
        HasExited status \<Rightarrow> Exited_with status
      | WaitError \<Rightarrow> Untracked
      | StillRunning \<Rightarrow>
          if pipe_done then ready_loop w n (Suc i) acc True
          else if \<not> cw_readable w i then ready_loop w n (Suc i) acc False
          else (case cw_read w i of
                  None \<Rightarrow> ready_loop w n (Suc i) acc True
                | Some chunk \<Rightarrow>
                    if chunk = [] then ready_loop w n (Suc i) acc True
                    else (case feed_ready_line acc chunk of
                            (Line line, _) \<Rightarrow> Signalled line
                          | (NeedMore, acc') \<Rightarrow> ready_loop w n (Suc i) acc' False
                          | (Garbled, acc') \<Rightarrow> ready_loop w n (Suc i) acc' True)))"

definition await_readiness :: "child_world \<Rightarrow> readiness" where
  "await_readiness w =
     (if \<not> cw_pipe w then Untracked else ready_loop w (unat READY_WAIT_TRIES) 0 [] False)"

definition reaped :: "string \<Rightarrow> readiness \<Rightarrow> action list" where
  "reaped bin r = (case r of Exited_with _ \<Rightarrow> [Reap bin] | _ \<Rightarrow> [])"

section \<open>One run of a driver\<close>

definition start_compositor :: "bound_resources \<Rightarrow> spawn_world \<Rightarrow> bool \<times> action list" where
  "start_compositor grant w =
     (let normal = grant\<lparr>br_mmio := [], br_irq := [], br_pci := None, br_pci_extra := []\<rparr>
      in case to_descriptor normal of
           Inl _ \<Rightarrow> (False, [])
         | Inr desc \<Rightarrow>
             if \<not> sw_null w then (False, [])
             else if \<not> sw_spawn w then (False, [])
             else
               let bin = ''/bin/tapestryd'';
                   spawn = Spawn bin desc (T_CAP_HW_CREATE OR T_CAP_CSPRNG_READ) (to_allowance normal)
                     (T_SPAWN_PERM_MAY_POST_SERVICE OR T_SPAWN_PERM_SEAT_CLIENT);
                   r = await_readiness (sw_child w)
               in if r = Signalled ''READY'' then (True, [spawn])
                  else (False, [spawn] @ reaped bin r @ [Kill bin, Wait bin]))"

fun cap_bit :: "cap \<Rightarrow> u64" where
  "cap_bit Csprng = T_CAP_CSPRNG_READ"

definition run_once :: "manifest \<Rightarrow> bound_resources \<Rightarrow> spawn_world \<Rightarrow> spawn_world \<Rightarrow> run_outcome \<times> action list" where
  "run_once m grant w wc =
     (case to_descriptor grant of
        Inl _ \<Rightarrow> (HardFail, [])
      | Inr desc \<Rightarrow>
          let allow = to_allowance grant;
              bin = ''/bin/'' @ mf_name m;
              extra = fold (\<lambda>c acc. acc OR cap_bit c) (mf_caps m) 0;
              perm = (if mf_lifecycle m = Persistent
                      then T_SPAWN_PERM_MAY_POST_SERVICE OR (if mf_name m = ''lictor'' then T_SPAWN_PERM_SEAT_SERVICE else 0)
                      else 0)
          in if \<not> sw_null w then (HardFail, [])
             else if \<not> sw_spawn w then (HardFail, [])
             else
               let spawn = [Spawn bin desc (T_CAP_HW_CREATE OR extra) allow perm];
                   kill = [Kill bin, Wait bin]
               in case await_readiness (sw_child w) of
                    Exited_with status \<Rightarrow> (Exited (Some status), spawn @ [Reap bin])
                  | Signalled line \<Rightarrow>
                      if line \<noteq> ''READY'' then (Exited None, spawn @ kill)
                      else (case mf_lifecycle m of
                              Persistent \<Rightarrow>
                                if mf_name m = ''lictor'' then
                                  (case start_compositor grant wc of (ok, acts) \<Rightarrow>
                                     if \<not> ok then (Exited None, spawn @ acts @ kill) else (Served, spawn @ acts))
                                else (Served, spawn)
                            | Transient \<Rightarrow>
                                (if cw_wait_ok (sw_child w) then Served else HardFail, spawn @ kill))
                  | Timeout \<Rightarrow> (Exited None, spawn @ kill)
                  | Untracked \<Rightarrow> (HardFail, spawn @ kill))"

section \<open>Supervision\<close>

text \<open>What the kernel does in the successive runs of a driver, and of the compositor beside it.\<close>

type_synonym run_worlds = "nat \<Rightarrow> spawn_world \<times> spawn_world"

definition run_at :: "manifest \<Rightarrow> bound_resources \<Rightarrow> run_worlds \<Rightarrow> nat \<Rightarrow> run_outcome \<times> action list" where
  "run_at m grant ws k = run_once m grant (fst (ws k)) (snd (ws k))"

function supervise :: "manifest \<Rightarrow> bound_resources \<Rightarrow> run_worlds \<Rightarrow> u32 \<Rightarrow> disposition \<times> action list" where
  "supervise m grant ws restarts =
     (case run_at m grant ws (unat restarts) of (outcome, acts) \<Rightarrow>
        (case next_step outcome (mf_restart m) restarts of
           Settle d \<Rightarrow> (d, acts)
         | Restart_after delay \<Rightarrow>
             (case supervise m grant ws (restarts + 1) of (d, rest) \<Rightarrow> (d, acts @ [Sleep delay] @ rest))))"
  by auto
termination
  by (relation "measure (\<lambda>(_, _, _, n). 4 - unat n)") (auto dest!: restart_bound simp: word_less_nat_alt)

declare supervise.simps [simp del]

section \<open>The virtio-mmio bus source\<close>

definition WARDEN_PAGE :: u64 where "WARDEN_PAGE = 0x1000"
definition VIRTIO_MMIO_COMPATIBLE :: string where "VIRTIO_MMIO_COMPATIBLE = ''virtio,mmio''"
definition VIRTIO_MMIO_SOURCE_BIN :: string where "VIRTIO_MMIO_SOURCE_BIN = ''/bin/virtio-mmio-source''"

definition is_virtio_mmio :: "device_node \<Rightarrow> bool" where
  "is_virtio_mmio node \<longleftrightarrow>
     list_ex (\<lambda>i. case i of Compatible c \<Rightarrow> c = VIRTIO_MMIO_COMPATIBLE | _ \<Rightarrow> False) (dn_ids node)"

text \<open>The two nested loops over the slots and their windows are one fold over all the windows.\<close>

definition bank_span :: "window list \<Rightarrow> u64 \<times> u64" where
  "bank_span ws = fold (\<lambda>(base, sz) (lo, hi). (min lo base, max hi (sat_add base sz))) ws (- 1, 0)"

definition bank_window :: "device_node list \<Rightarrow> window option" where
  "bank_window slots =
     (case bank_span (concat (map (\<lambda>s. nr_reg (dn_resources s)) slots)) of (lo, hi) \<Rightarrow>
        if lo = - 1 \<or> hi \<le> lo then None
        else let lo = lo AND NOT (WARDEN_PAGE - 1);
                 hi = sat_add hi (WARDEN_PAGE - 1) AND NOT (WARDEN_PAGE - 1)
             in Some (lo, hi - lo))"

definition source_grant :: "window \<Rightarrow> bound_resources" where
  "source_grant bank =
     \<lparr>br_instance = 0, br_compatible = ''virtio-mmio-bank'', br_serves = [], br_mmio = [bank], br_irq = [],
      br_dma_max = 0, br_pci = None, br_pci_extra = []\<rparr>"

text \<open>\<open>str::lines\<close>: a line ends at a newline and loses one carriage return before it; what follows the
  last newline is a line when it is not empty.\<close>

definition strip_cr :: "string \<Rightarrow> string" where
  "strip_cr l = (if l \<noteq> [] \<and> last l = CHR 0x0D then butlast l else l)"

definition str_lines :: "string \<Rightarrow> string list" where
  "str_lines s =
     (let ps = split_on CHR 0x0A s
      in map strip_cr (butlast ps) @ (if last ps = [] then [] else [last ps]))"

fun record_loop :: "device_node list \<Rightarrow> string list \<Rightarrow> device_node list \<Rightarrow> device_node list" where
  "record_loop trusted [] out = out"
| "record_loop trusted (line # lines) out =
     (if line = [] then record_loop trusted lines out
      else case parse_record line of
             Inr n \<Rightarrow>
               (case reconcile_reported_node n trusted of
                  Some node \<Rightarrow> record_loop trusted lines (out @ [node])
                | None \<Rightarrow> record_loop trusted lines out)
           | Inl _ \<Rightarrow> record_loop trusted lines out)"

definition run_virtio_mmio_source ::
  "window \<Rightarrow> device_node list \<Rightarrow> spawn_world \<Rightarrow> (nat \<Rightarrow> bool) \<Rightarrow> bytes option list \<Rightarrow> device_node list \<times> action list" where
  "run_virtio_mmio_source bank trusted w room reads =
     (case to_descriptor (source_grant bank) of
        Inl _ \<Rightarrow> ([], [])
      | Inr desc \<Rightarrow>
          if \<not> sw_null w then ([], [])
          else if \<not> sw_spawn w then ([], [])
          else
            let acts = [Spawn VIRTIO_MMIO_SOURCE_BIN desc T_CAP_HW_CREATE (to_allowance (source_grant bank)) 0,
                        Wait VIRTIO_MMIO_SOURCE_BIN];
                buf = (if cw_pipe (sw_child w)
                       then case slurp_capped room reads (64 * 1024) of Some b \<Rightarrow> b | None \<Rightarrow> []
                       else [])
            in (if utf8_ok (str_of buf) then record_loop trusted (str_lines (str_of buf)) [] else [], acts))"

section \<open>The boot pass\<close>

record boot_world =
  bw_args :: "string list"
  bw_files :: file_reader
  bw_hw :: listing
  bw_pci :: listing
  bw_source :: spawn_world
  bw_room :: "nat \<Rightarrow> bool"
  bw_reads :: "bytes option list"
  bw_runs :: "nat \<Rightarrow> run_worlds"

definition with_fixtures :: "string list \<Rightarrow> bool" where
  "with_fixtures args = list_ex (\<lambda>a. a = ''--with-fixtures'') (tl args)"

fun load_db :: "string list \<Rightarrow> drv_error + manifest list" where
  "load_db [] = Inr []"
| "load_db (text # texts) = andthen (manifest_parse text) (\<lambda>m. andthen (load_db texts) (\<lambda>db. Inr (m # db)))"

text \<open>The devices to bind: the device-tree nodes that are not bus slots, what the bus source reports once
  reconciled, the PCI functions and the synthetic node.\<close>

definition synthetic_node :: device_node where
  "synthetic_node = \<lparr>dn_label = ''synthetic-restart-demo'', dn_ids = [parse_id ''restart-test''],
     dn_resources = \<lparr>nr_compatible = [], nr_reg = [], nr_interrupts = [], nr_pci = None\<rparr>\<rparr>"

definition typed_nodes :: "boot_world \<Rightarrow> device_node list \<Rightarrow> device_node list \<times> action list" where
  "typed_nodes bw slots =
     (if slots = [] then ([], [])
      else case bank_window slots of
             Some bank \<Rightarrow> run_virtio_mmio_source bank slots (bw_source bw) (bw_room bw) (bw_reads bw)
           | None \<Rightarrow> ([], []))"

definition discover :: "boot_world \<Rightarrow> device_node list \<Rightarrow> device_node list \<Rightarrow> device_node list \<times> action list" where
  "discover bw dtb_nodes pci_nodes =
     (case typed_nodes bw (filter is_virtio_mmio dtb_nodes) of (typed, acts) \<Rightarrow>
        (filter (\<lambda>n. \<not> is_virtio_mmio n) dtb_nodes @ typed @ pci_nodes @ [synthetic_node], acts))"

record bind_state =
  bs_instance :: "u32 list"
  bs_bound :: u32
  bs_up :: u32
  bs_gave_up :: u32
  bs_failed :: u32
  bs_gathered :: "nat list list"
  bs_log :: "action list"

definition tally :: "disposition \<Rightarrow> bind_state \<Rightarrow> bind_state" where
  "tally d s =
     (case d of
        Up \<Rightarrow> s\<lparr>bs_up := bs_up s + 1\<rparr>
      | GaveUp \<Rightarrow> s\<lparr>bs_gave_up := bs_gave_up s + 1\<rparr>
      | Failed \<Rightarrow> s\<lparr>bs_failed := bs_failed s + 1\<rparr>)"

text \<open>A resolved grant is supervised to its disposition under the next instance number; \<open>idx\<close> is the manifest.\<close>

definition bind_grant ::
  "(nat \<Rightarrow> run_worlds) \<Rightarrow> manifest list \<Rightarrow> nat \<Rightarrow> drv_error + bound_resources \<Rightarrow> bind_state \<Rightarrow> bind_state" where
  "bind_grant runs db idx resolved s =
     (case resolved of
        Inl _ \<Rightarrow> s
      | Inr grant \<Rightarrow>
          (case supervise (db ! idx) grant (runs (unat (bs_bound s))) 0 of (d, acts) \<Rightarrow>
             tally d (s\<lparr>bs_instance := (bs_instance s)[idx := bs_instance s ! idx + 1],
                        bs_bound := bs_bound s + 1, bs_log := bs_log s @ acts\<rparr>)))"

definition bind_node :: "(nat \<Rightarrow> run_worlds) \<Rightarrow> manifest list \<Rightarrow> nat \<times> device_node \<Rightarrow> bind_state \<Rightarrow> bind_state" where
  "bind_node runs db p s =
     (case p of (ni, node) \<Rightarrow>
        (case best_match db node of
           None \<Rightarrow> s
         | Some idx \<Rightarrow>
             if mf_gather (db ! idx)
             then s\<lparr>bs_gathered := (bs_gathered s)[idx := bs_gathered s ! idx @ [ni]]\<rparr>
             else bind_grant runs db idx (resolve (db ! idx) node (bs_instance s ! idx)) s))"

definition bind_gathered :: "(nat \<Rightarrow> run_worlds) \<Rightarrow> manifest list \<Rightarrow> device_node list \<Rightarrow> nat \<Rightarrow> bind_state \<Rightarrow> bind_state" where
  "bind_gathered runs db discovered idx s =
     (let nodes = bs_gathered s ! idx
      in if nodes = [] then s
         else bind_grant runs db idx
                (resolve_gathered (db ! idx) (map (\<lambda>ni. discovered ! ni) nodes) (bs_instance s ! idx)) s)"

definition bind_all :: "(nat \<Rightarrow> run_worlds) \<Rightarrow> manifest list \<Rightarrow> device_node list \<Rightarrow> action list \<Rightarrow> bind_state" where
  "bind_all runs db discovered acts =
     (let s = \<lparr>bs_instance = replicate (length db) 0, bs_bound = 0, bs_up = 0, bs_gave_up = 0, bs_failed = 0,
               bs_gathered = replicate (length db) [], bs_log = acts\<rparr>;
          s = fold (bind_node runs db) (enumerate 0 discovered) s
      in fold (bind_gathered runs db discovered) [0..<length db] s)"

text \<open>The exit status, with the actions; \<^const>\<open>None\<close> is a panic of a decoder.\<close>

definition rs_main :: "string list \<Rightarrow> string list \<Rightarrow> boot_world \<Rightarrow> (int \<times> action list) option" where
  "rs_main builtin fixtures bw =
     (case load_db (builtin @ (if with_fixtures (bw_args bw) then fixtures else [])) of
        Inl _ \<Rightarrow> Some (1, [])
      | Inr db \<Rightarrow> do {
          dtb_nodes \<leftarrow> dtb_enumerate (bw_files bw) (bw_hw bw) dtb_root;
          let pci_nodes = pci_enumerate (bw_files bw) (bw_pci bw) pci_root;
          let (discovered, acts) = discover bw dtb_nodes pci_nodes;
          let s = bind_all (bw_runs bw) db discovered acts;
          Some (if bs_failed s > 0 then 1 else 0, bs_log s)
        })"

section \<open>What a run guarantees\<close>

text \<open>The children alive after a sequence of actions, as far as the warden knows: spawned and neither
  reaped nor waited for.\<close>

fun live_after :: "string list \<Rightarrow> action list \<Rightarrow> string list" where
  "live_after alive [] = alive"
| "live_after alive (Spawn bin _ _ _ _ # acts) = live_after (alive @ [bin]) acts"
| "live_after alive (Reap bin # acts) = live_after (removeAll bin alive) acts"
| "live_after alive (Wait bin # acts) = live_after (removeAll bin alive) acts"
| "live_after alive (Kill bin # acts) = live_after alive acts"
| "live_after alive (Sleep _ # acts) = live_after alive acts"

text \<open>What the pipe of a child has delivered in its first tries.\<close>

definition pipe_bytes :: "child_world \<Rightarrow> nat \<Rightarrow> bytes" where
  "pipe_bytes w k = concat (map (\<lambda>i. if cw_readable w i then (case cw_read w i of Some b \<Rightarrow> b | None \<Rightarrow> []) else []) [0..<k])"

lemma pipe_bytes_Suc:
  "pipe_bytes w (Suc k) = pipe_bytes w k @ (if cw_readable w k then (case cw_read w k of Some b \<Rightarrow> b | None \<Rightarrow> []) else [])"
  by (simp add: pipe_bytes_def)

lemma feed_more: "feed_ready_line acc bs = (NeedMore, acc') \<Longrightarrow> feed_ready_line acc (bs @ cs) = feed_ready_line acc' cs"
  using feed_all_concat [of acc "[bs, cs]"] by (cases "feed_ready_line acc' cs") (auto split: ready_line.splits)

lemma ready_loop_signalled:
  "ready_loop w n i acc False = Signalled line \<Longrightarrow> feed_ready_line [] (pipe_bytes w i) = (NeedMore, acc) \<Longrightarrow>
     \<exists>k < i + n. (\<forall>j \<le> k. i \<le> j \<longrightarrow> cw_try_wait w j = StillRunning) \<and> fst (feed_ready_line [] (pipe_bytes w (Suc k))) = Line line"
proof (induction n arbitrary: i acc)
  case (Suc n)
  have stop: "ready_loop w n (Suc i) a True \<noteq> Signalled line" for n i a
    by (induction n arbitrary: i) (auto split: wait_obs.splits)
  have run: "cw_try_wait w i = StillRunning" using Suc.prems(1) by (auto split: wait_obs.splits)
  have step: ?case if "ready_loop w n (Suc i) acc' False = Signalled line"
    "feed_ready_line [] (pipe_bytes w (Suc i)) = (NeedMore, acc')" for acc'
  proof -
    obtain k where "k < Suc i + n" "\<forall>j \<le> k. Suc i \<le> j \<longrightarrow> cw_try_wait w j = StillRunning"
      "fst (feed_ready_line [] (pipe_bytes w (Suc k))) = Line line"
      using Suc.IH [OF \<open>ready_loop w n (Suc i) acc' False = Signalled line\<close> \<open>feed_ready_line [] (pipe_bytes w (Suc i)) = (NeedMore, acc')\<close>] by blast
    then show ?case using run by (intro exI [of _ k]) (auto simp: le_Suc_eq not_less_eq_eq dest: le_antisym)
  qed
  show ?case
  proof (cases "cw_readable w i")
    case False
    then show ?thesis using Suc.prems run by (intro step [of acc]) (simp_all add: pipe_bytes_Suc)
  next
    case True
    then obtain chunk where c: "cw_read w i = Some chunk" "chunk \<noteq> []"
      using Suc.prems(1) run stop by (auto split: option.splits if_splits)
    have feed: "feed_ready_line [] (pipe_bytes w (Suc i)) = feed_ready_line acc chunk"
      using True c feed_more [OF Suc.prems(2)] by (simp add: pipe_bytes_Suc)
    show ?thesis
    proof (cases "feed_ready_line acc chunk")
      case (Pair r acc')
      show ?thesis
      proof (cases r)
        case (Line l)
        then show ?thesis using Suc.prems(1) run True c Pair feed by (intro exI [of _ i]) auto
      next
        case NeedMore
        then show ?thesis using Suc.prems(1) run True c Pair feed by (intro step [of acc']) simp_all
      next
        case Garbled
        then show ?thesis using Suc.prems(1) run True c Pair stop by simp
      qed
    qed
  qed
qed simp

text \<open>A ready child wrote its line within the wait, and was running at every try up to then.\<close>

definition declared :: "child_world \<Rightarrow> string \<Rightarrow> bool" where
  "declared w line \<longleftrightarrow> (\<exists>k < 100. list_all (\<lambda>j. cw_try_wait w j = StillRunning) [0..<Suc k] \<and> line_spec (pipe_bytes w (Suc k)) = Line line)"

lemma await_signalled: "await_readiness w = Signalled line \<Longrightarrow> declared w line"
  using ready_loop_signalled [of w 100 0 "[]" line] feed_spec [of "[]"]
  by (fastforce simp: await_readiness_def READY_WAIT_TRIES_def declared_def pipe_bytes_def [of _ 0] list_all_iff less_Suc_eq_le
      split: if_splits)

text \<open>C18. No driver outlives its run unless it is meant to. Whatever a driver and the kernel do, after one
  run the only children the warden has neither reaped nor waited for are a persistent driver that was
  found serving, with the compositor beside it for the seat service; and a driver counts as
  served only when it was running and had written \<open>READY\<close> as its first line within the hundred polls of the
  wait.\<close>

theorem run_once_leaves_nothing:
  "case run_once m grant w wc of (out, acts) \<Rightarrow>
     live_after [] acts =
       (if out = Served \<and> mf_lifecycle m = Persistent
        then (''/bin/'' @ mf_name m) # (if mf_name m = ''lictor'' then [''/bin/tapestryd''] else [])
        else []) \<and>
     (if out = Served then declared (sw_child w) ''READY'' else True)"
proof (cases "to_descriptor grant")
  case (Inr desc)
  show ?thesis
  proof (cases "sw_null w \<and> sw_spawn w")
    case True
    have comp: "case start_compositor grant wc of (ok, acts) \<Rightarrow>
        live_after [''/bin/lictor''] acts = (if ok then [''/bin/lictor'', ''/bin/tapestryd''] else [''/bin/lictor''])"
      by (auto simp: start_compositor_def Let_def reaped_def split: sum.split readiness.splits)
    have app: "live_after alive (a @ b) = live_after (live_after alive a) b" for alive a b
      by (induction alive a rule: live_after.induct) simp_all
    show ?thesis
      using True Inr comp
      by (auto simp: run_once_def Let_def app dest!: await_signalled split: readiness.splits lifecycle.splits prod.splits if_splits)
  qed (auto simp: run_once_def Let_def Inr)
qed (simp add: run_once_def)

section \<open>What supervision guarantees\<close>

text \<open>The runs of a driver and the delays between them, without the loop: it is run again while its
  outcome asks for a restart, three times at most.\<close>

definition restarts_of :: "manifest \<Rightarrow> bound_resources \<Rightarrow> run_worlds \<Rightarrow> nat" where
  "restarts_of m grant ws = length (takeWhile (\<lambda>k. wants_restart (mf_restart m) (fst (run_at m grant ws k))) [0, 1, 2])"

definition run_log :: "manifest \<Rightarrow> bound_resources \<Rightarrow> run_worlds \<Rightarrow> nat \<Rightarrow> action list" where
  "run_log m grant ws k = snd (run_at m grant ws k)"

lemma supervise_step:
  "supervise m grant ws n =
     (if wants_restart (mf_restart m) (fst (run_at m grant ws (unat n))) \<and> n < 3
      then (fst (supervise m grant ws (n + 1)),
            run_log m grant ws (unat n) @ [Sleep (backoff_ms (n + 1))] @ snd (supervise m grant ws (n + 1)))
      else (settled (fst (run_at m grant ws (unat n))), run_log m grant ws (unat n)))"
  by (subst supervise.simps) (simp add: next_step_exact run_log_def split: prod.split)

text \<open>C10. Supervision ends, and how. A driver is run once and then again after 50, 100 and 200
  milliseconds for as long as its outcome and its manifest's policy ask for a restart; the device settles as the last run
  says: up when it served or exited cleanly, given up on when it crashed, failed when it could not be
  run. The actions are those of the runs with the sleeps between them and nothing else.\<close>

theorem supervise_exact:
  "supervise m grant ws 0 =
     (let n = restarts_of m grant ws
      in (settled (fst (run_at m grant ws n)),
          concat (map (\<lambda>k. run_log m grant ws k @ [Sleep ([50, 100, 200] ! k)]) [0..<n]) @ run_log m grant ws n))"
proof -
  have s0: "supervise m grant ws 0 =
     (if wants_restart (mf_restart m) (fst (run_at m grant ws 0))
      then (fst (supervise m grant ws 1), run_log m grant ws 0 @ [Sleep 50] @ snd (supervise m grant ws 1))
      else (settled (fst (run_at m grant ws 0)), run_log m grant ws 0))"
    using supervise_step [of m grant ws 0] by (simp add: backoff_values)
  have s1: "supervise m grant ws 1 =
     (if wants_restart (mf_restart m) (fst (run_at m grant ws 1))
      then (fst (supervise m grant ws 2), run_log m grant ws 1 @ [Sleep 100] @ snd (supervise m grant ws 2))
      else (settled (fst (run_at m grant ws 1)), run_log m grant ws 1))"
    using supervise_step [of m grant ws 1] by (simp add: backoff_values)
  have s2: "supervise m grant ws 2 =
     (if wants_restart (mf_restart m) (fst (run_at m grant ws 2))
      then (fst (supervise m grant ws 3), run_log m grant ws 2 @ [Sleep 200] @ snd (supervise m grant ws 3))
      else (settled (fst (run_at m grant ws 2)), run_log m grant ws 2))"
    using supervise_step [of m grant ws 2] by (simp add: backoff_values)
  have s3: "supervise m grant ws 3 = (settled (fst (run_at m grant ws 3)), run_log m grant ws 3)"
    using supervise_step [of m grant ws 3] by simp
  show ?thesis
    by (simp add: s0 s1 s2 s3 restarts_of_def Let_def numeral_2_eq_2 numeral_3_eq_3)
qed

section \<open>What the warden confers\<close>

text \<open>A node within a set of trusted nodes: every resource of it is one of theirs.\<close>

definition windows_of :: "device_node list \<Rightarrow> window set" where
  "windows_of ns = (\<Union>n \<in> set ns. set (nr_reg (dn_resources n)))"

definition intids_of :: "device_node list \<Rightarrow> u32 set" where
  "intids_of ns = (\<Union>n \<in> set ns. set (nr_interrupts (dn_resources n)))"

definition functions_of :: "device_node list \<Rightarrow> bdf set" where
  "functions_of ns = {f. \<exists>n \<in> set ns. nr_pci (dn_resources n) = Some f}"

definition node_within :: "device_node list \<Rightarrow> device_node \<Rightarrow> bool" where
  "node_within trusted n \<longleftrightarrow>
     windows_of [n] \<subseteq> windows_of trusted \<and> intids_of [n] \<subseteq> intids_of trusted \<and> functions_of [n] \<subseteq> functions_of trusted"

lemmas of_nodes = windows_of_def intids_of_def functions_of_def

lemma node_within_member: "n \<in> set trusted \<Longrightarrow> node_within trusted n"
  by (auto simp: node_within_def of_nodes)

text \<open>What one action confers, measured against the trusted nodes.\<close>

definition conferred_within :: "device_node list \<Rightarrow> action \<Rightarrow> bool" where
  "conferred_within trusted a =
     (case a of
        Spawn bin desc caps allow perm \<Rightarrow>
          set (allowed_mmio allow) \<subseteq> (\<lambda>(b, s). page_round_window b s) ` windows_of trusted \<and>
          set (allowed_irq allow) \<subseteq> intids_of trusted \<and>
          set (allowed_pci allow) \<subseteq> pack ` functions_of trusted \<and>
          caps AND NOT (T_CAP_HW_CREATE OR T_CAP_CSPRNG_READ) = 0
      | _ \<Rightarrow> True)"

definition grant_within :: "device_node list \<Rightarrow> bound_resources \<Rightarrow> bool" where
  "grant_within trusted b \<longleftrightarrow>
     length (br_mmio b) \<le> 8 \<and> length (br_irq b) \<le> 8 \<and> length (granted_pci b) \<le> 8 \<and>
     set (br_mmio b) \<subseteq> windows_of trusted \<and> set (br_irq b) \<subseteq> intids_of trusted \<and> set (granted_pci b) \<subseteq> functions_of trusted"

lemma caps_within:
  "(T_CAP_HW_CREATE OR fold (\<lambda>c acc. acc OR cap_bit c) cs 0) AND NOT (T_CAP_HW_CREATE OR T_CAP_CSPRNG_READ) = 0"
proof -
  have bit: "cap_bit c = T_CAP_CSPRNG_READ" for c by (cases c) simp
  have "fold (\<lambda>c acc. acc OR cap_bit c) cs acc \<in> {acc, acc OR T_CAP_CSPRNG_READ}" for acc
  proof (induction cs arbitrary: acc)
    case (Cons c cs)
    from Cons.IH [of "acc OR T_CAP_CSPRNG_READ"] show ?case by (auto simp: bit or.assoc)
  qed simp
  from this [of 0] show ?thesis by (auto simp: T_CAP_HW_CREATE_def T_CAP_CSPRNG_READ_def)
qed

lemma grant_confers:
  assumes "grant_within trusted b" and "caps AND NOT (T_CAP_HW_CREATE OR T_CAP_CSPRNG_READ) = 0"
  shows "conferred_within trusted (Spawn bin desc caps (to_allowance b) perm)"
proof -
  have "(\<lambda>(b, s). page_round_window b s) ` set (br_mmio b) \<subseteq> (\<lambda>(b, s). page_round_window b s) ` windows_of trusted"
    "pack ` set (granted_pci b) \<subseteq> pack ` functions_of trusted"
    using assms(1) by (simp_all add: grant_within_def image_mono)
  then show ?thesis using assms to_allowance_exact [of b] by (simp add: conferred_within_def grant_within_def)
qed

lemma narrowed_within:
  "grant_within trusted b \<Longrightarrow> grant_within trusted (b\<lparr>br_mmio := [], br_irq := [], br_pci := None, br_pci_extra := []\<rparr>)"
  by (simp add: grant_within_def granted_pci_def)

lemma run_once_within:
  assumes "grant_within trusted b"
  shows "list_all (conferred_within trusted) (snd (run_once m b w wc))"
proof -
  have drop: "conferred_within trusted (Kill x)" "conferred_within trusted (Wait x)" "conferred_within trusted (Reap x)" for x
    by (simp_all add: conferred_within_def)
  have cap: "(T_CAP_HW_CREATE OR T_CAP_CSPRNG_READ) AND NOT (T_CAP_HW_CREATE OR T_CAP_CSPRNG_READ) = 0"
    by (simp add: T_CAP_HW_CREATE_def T_CAP_CSPRNG_READ_def)
  have comp: "list_all (conferred_within trusted) (snd (start_compositor b wc))"
    using grant_confers [OF narrowed_within [OF assms] cap]
    by (auto simp: start_compositor_def Let_def reaped_def drop split: sum.split readiness.split)
  show ?thesis
    using grant_confers [OF assms caps_within] comp
    by (auto simp: run_once_def Let_def drop split: sum.split readiness.split lifecycle.split prod.split)
qed

lemma supervise_within:
  "grant_within trusted b \<Longrightarrow> list_all (conferred_within trusted) (snd (supervise m b ws n))"
proof (induction m b ws n rule: supervise.induct)
  case (1 m b ws n)
  have run: "list_all (conferred_within trusted) (run_log m b ws (unat n))"
    using run_once_within [OF "1.prems"] by (simp add: run_log_def run_at_def)
  show ?case
  proof (cases "next_step (fst (run_at m b ws (unat n))) (mf_restart m) n")
    case (Restart_after d)
    then have IH: "list_all (conferred_within trusted) (snd (supervise m b ws (n + 1)))"
      using "1.IH" [OF _ _ "1.prems"] by (metis prod.collapse)
    then show ?thesis using run by (subst supervise_step) (simp add: conferred_within_def)
  next
    case (Settle d)
    then show ?thesis using run by (subst supervise_step) (auto simp: next_step_exact split: if_splits)
  qed
qed


lemma grant_fits_within:
  assumes "grant_fits m nodes" and "list_all (node_within trusted) nodes"
  shows "grant_within trusted (gathered_grant m nodes inst)"
proof -
  have "set (grant_mmio m nodes) \<subseteq> windows_of nodes" "set (grant_irq m nodes) \<subseteq> intids_of nodes"
    "set (grant_pci m nodes) \<subseteq> functions_of nodes"
    by (auto simp: grant_mmio_def grant_irq_def grant_pci_def of_nodes List.map_filter_def split: option.splits if_splits)
  moreover have "windows_of nodes \<subseteq> windows_of trusted" "intids_of nodes \<subseteq> intids_of trusted"
    "functions_of nodes \<subseteq> functions_of trusted"
    using assms(2) by (fastforce simp: list_all_iff node_within_def of_nodes)+
  ultimately have sub: "set (grant_mmio m nodes) \<subseteq> windows_of trusted" "set (grant_irq m nodes) \<subseteq> intids_of trusted"
    "set (grant_pci m nodes) \<subseteq> functions_of trusted" by blast+
  have parts: "br_mmio (gathered_grant m nodes inst) = grant_mmio m nodes" "br_irq (gathered_grant m nodes inst) = grant_irq m nodes"
    by (simp_all add: gathered_grant_def)
  show ?thesis using sub assms(1) unfolding grant_within_def parts granted_pci_gathered by (simp add: grant_fits_def)
qed

text \<open>Binding keeps two facts: everything conferred so far is within the trusted nodes, and the gathered
  indices name discovered nodes.\<close>

definition bind_inv :: "device_node list \<Rightarrow> nat \<Rightarrow> (action \<Rightarrow> bool) \<Rightarrow> bind_state \<Rightarrow> bool" where
  "bind_inv trusted n P s \<longleftrightarrow> list_all (\<lambda>a. P a \<or> conferred_within trusted a) (bs_log s) \<and> (\<forall>g \<in> set (bs_gathered s). list_all (\<lambda>i. i < n) g)"

lemma tally_sel [simp]: "bs_log (tally d s) = bs_log s" "bs_gathered (tally d s) = bs_gathered s"
  by (simp_all add: tally_def split: disposition.split)

lemma bind_grant_inv:
  assumes "bind_inv trusted n P s" and "\<And>b. resolved = Inr b \<Longrightarrow> grant_within trusted b"
  shows "bind_inv trusted n P (bind_grant runs db idx resolved s)"
proof (cases resolved)
  case (Inr b)
  have "list_all (conferred_within trusted) (snd (supervise (db ! idx) b (runs (unat (bs_bound s))) 0))"
    using supervise_within assms(2) [OF Inr] by blast
  then show ?thesis using assms(1)
    by (auto simp: bind_grant_def Inr bind_inv_def list_all_iff split: prod.split)
qed (use assms in \<open>simp add: bind_grant_def\<close>)

lemma bind_node_inv:
  assumes "bind_inv trusted n P s" and "node_within trusted node" and "ni < n"
  shows "bind_inv trusted n P (bind_node runs db (ni, node) s)"
proof (cases "best_match db node")
  case (Some idx)
  show ?thesis
  proof (cases "mf_gather (db ! idx)")
    case True
    have "g \<in> set ((bs_gathered s)[idx := bs_gathered s ! idx @ [ni]]) \<Longrightarrow> list_all (\<lambda>i. i < n) g" for g
      using assms(1,3) set_update_subset_insert [of "bs_gathered s" idx "bs_gathered s ! idx @ [ni]"]
      by (cases "idx < length (bs_gathered s)") (auto simp: bind_inv_def list_update_beyond)
    then show ?thesis using assms(1) by (simp add: bind_node_def Some True bind_inv_def)
  next
    case False
    have "grant_within trusted b" if "resolve (db ! idx) node (bs_instance s ! idx) = Inr b" for b
      using that assms(2) grant_fits_within [of "db ! idx" "[node]" trusted] by (simp add: resolve_exact)
    with False show ?thesis using bind_grant_inv [OF assms(1)] by (simp add: bind_node_def Some)
  qed
qed (use assms in \<open>simp add: bind_node_def\<close>)

lemma bind_gathered_inv:
  assumes "bind_inv trusted (length nodes) P s" and "list_all (node_within trusted) nodes" and "idx < length (bs_gathered s)"
  shows "bind_inv trusted (length nodes) P (bind_gathered runs db nodes idx s)"
proof -
  have "list_all (\<lambda>i. i < length nodes) (bs_gathered s ! idx)" using assms(1,3) by (simp add: bind_inv_def)
  then have "list_all (node_within trusted) (map ((!) nodes) (bs_gathered s ! idx))"
    using assms(2) by (simp add: list_all_iff)
  then have "grant_within trusted b"
    if "resolve_gathered (db ! idx) (map ((!) nodes) (bs_gathered s ! idx)) (bs_instance s ! idx) = Inr b" for b
    using that grant_fits_within [of "db ! idx" "map ((!) nodes) (bs_gathered s ! idx)" trusted] by (simp add: grant_exact)
  then show ?thesis using assms(1) bind_grant_inv [OF assms(1)] by (simp add: bind_gathered_def Let_def)
qed


section \<open>The whole pass\<close>

lemma gathered_length [simp]:
  "length (bs_gathered (bind_grant runs db idx r s)) = length (bs_gathered s)"
  "length (bs_gathered (bind_node runs db p s)) = length (bs_gathered s)"
  "length (bs_gathered (bind_gathered runs db nodes idx s)) = length (bs_gathered s)"
  by (simp_all add: bind_grant_def bind_node_def bind_gathered_def Let_def split: sum.split prod.split option.split)

lemma fold_nodes_inv:
  assumes "bind_inv trusted n P s" and "list_all (\<lambda>(i, node). i < n \<and> node_within trusted node) ps"
  shows "bind_inv trusted n P (fold (bind_node runs db) ps s) \<and>
    length (bs_gathered (fold (bind_node runs db) ps s)) = length (bs_gathered s)"
  using assms
proof (induction ps arbitrary: s)
  case (Cons p ps)
  obtain i node where p: "p = (i, node)" by (cases p)
  have "bind_inv trusted n P (bind_node runs db (i, node) s)" using Cons.prems by (intro bind_node_inv) (simp_all add: p)
  from Cons.IH [OF this] Cons.prems show ?case by (simp add: p)
qed simp

lemma fold_gathered_inv:
  assumes "bind_inv trusted (length nodes) P s" and "list_all (node_within trusted) nodes"
    and "list_all (\<lambda>i. i < length (bs_gathered s)) is"
  shows "bind_inv trusted (length nodes) P (fold (bind_gathered runs db nodes) is s)"
  using assms
proof (induction "is" arbitrary: s)
  case (Cons i rest)
  have "bind_inv trusted (length nodes) P (bind_gathered runs db nodes i s)"
    using Cons.prems by (intro bind_gathered_inv) simp_all
  from Cons.IH [OF this] Cons.prems show ?case by simp
qed simp

lemma bind_all_within:
  assumes "list_all (node_within trusted) nodes" and "list_all (\<lambda>a. P a \<or> conferred_within trusted a) acts"
  shows "list_all (\<lambda>a. P a \<or> conferred_within trusted a) (bs_log (bind_all runs db nodes acts))"
proof -
  define s where "s = \<lparr>bs_instance = replicate (length db) 0, bs_bound = 0, bs_up = 0, bs_gave_up = 0, bs_failed = 0,
    bs_gathered = replicate (length db) [], bs_log = acts\<rparr>"
  have ps: "list_all (\<lambda>(i, node). i < length nodes \<and> node_within trusted node) (enumerate 0 nodes)"
    using assms(1) by (auto simp: list_all_iff in_set_enumerate_eq)
  have "bind_inv trusted (length nodes) P s" using assms(2) by (auto simp: bind_inv_def s_def set_replicate_conv_if)
  note first = fold_nodes_inv [OF this ps, of runs db]
  have "length (bs_gathered s) = length db" by (simp add: s_def)
  then have "list_all (\<lambda>i. i < length (bs_gathered (fold (bind_node runs db) (enumerate 0 nodes) s))) [0..<length db]"
    using first by (simp add: list_all_iff)
  from fold_gathered_inv [OF conjunct1 [OF first] assms(1) this, of runs db]
  show ?thesis by (simp add: bind_all_def Let_def s_def bind_inv_def)
qed

lemma find_Some_in: "find P xs = Some x \<Longrightarrow> x \<in> set xs"
  by (auto simp: find_Some_iff)

lemma reconcile_within:
  assumes "reconcile_reported_node n slots = Some d" and "list_all (node_within trusted) slots"
  shows "node_within trusted d"
proof -
  obtain slot where "slot \<in> set slots" "nr_reg (dn_resources d) = nr_reg (dn_resources slot)"
    "nr_interrupts (dn_resources d) = nr_interrupts (dn_resources slot)" "nr_pci (dn_resources d) = nr_pci (dn_resources slot)"
    using assms(1) by (auto simp: reconcile_reported_node_def dest!: find_Some_in split: Option.bind_splits)
  then show ?thesis using assms(2) by (simp add: list_all_iff node_within_def of_nodes)
qed

lemma record_loop_within:
  "list_all (node_within trusted) slots \<Longrightarrow> list_all (node_within trusted) out \<Longrightarrow>
     list_all (node_within trusted) (record_loop slots lines out)"
  by (induction lines arbitrary: out) (auto dest: reconcile_within split: sum.splits option.splits)

text \<open>The spawn of the bus source: its one window is the bank.\<close>

definition spawns_source :: "device_node list \<Rightarrow> action \<Rightarrow> bool" where
  "spawns_source dtb_nodes a =
     (case a of
        Spawn bin desc caps allow perm \<Rightarrow>
          bin = VIRTIO_MMIO_SOURCE_BIN \<and> caps = T_CAP_HW_CREATE \<and> perm = 0 \<and>
          Some (allowed_mmio allow) = map_option (\<lambda>(b, s). [page_round_window b s]) (bank_window (filter is_virtio_mmio dtb_nodes)) \<and>
          allowed_irq allow = [] \<and> allowed_pci allow = [] \<and> al_dma_max allow = 0
      | _ \<Rightarrow> False)"

lemma source_allowance:
  "allowed_mmio (to_allowance (source_grant bank)) = [case bank of (b, s) \<Rightarrow> page_round_window b s]"
  "allowed_irq (to_allowance (source_grant bank)) = []" "allowed_pci (to_allowance (source_grant bank)) = []"
  "al_dma_max (to_allowance (source_grant bank)) = 0"
  using to_allowance_exact [of "source_grant bank"] by (simp_all add: source_grant_def granted_pci_def)

lemma discover_within:
  assumes "discover bw dtb_nodes pci_nodes = (nodes, acts)"
  shows "list_all (node_within (dtb_nodes @ pci_nodes)) nodes \<and>
    list_all (\<lambda>a. spawns_source dtb_nodes a \<or> conferred_within (dtb_nodes @ pci_nodes) a) acts"
proof -
  define typed where "typed = typed_nodes bw (filter is_virtio_mmio dtb_nodes)"
  have out: "nodes = filter (\<lambda>n. \<not> is_virtio_mmio n) dtb_nodes @ fst typed @ pci_nodes @ [synthetic_node]" "acts = snd typed"
    using assms by (auto simp: discover_def typed_def split: prod.splits)
  have mem: "n \<in> set (dtb_nodes @ pci_nodes) \<Longrightarrow> node_within (dtb_nodes @ pci_nodes) n" for n by (rule node_within_member)
  have slots: "list_all (node_within (dtb_nodes @ pci_nodes)) (filter is_virtio_mmio dtb_nodes)"
    using mem by (simp add: list_all_iff)
  have "list_all (node_within (dtb_nodes @ pci_nodes)) (fst typed)"
    using record_loop_within [OF slots]
    by (auto simp: typed_def typed_nodes_def Let_def run_virtio_mmio_source_def split: option.split sum.split)
  moreover have "node_within (dtb_nodes @ pci_nodes) synthetic_node"
    by (simp add: node_within_def of_nodes synthetic_node_def)
  moreover have "list_all (\<lambda>a. spawns_source dtb_nodes a \<or> conferred_within (dtb_nodes @ pci_nodes) a) (snd typed)"
    by (auto simp: typed_def typed_nodes_def Let_def run_virtio_mmio_source_def spawns_source_def source_allowance conferred_within_def
        split: option.split sum.split)
  ultimately show ?thesis using mem by (auto simp: out list_all_iff)
qed

text \<open>C1. The warden confers no authority the kernel did not describe. Whatever the bus source prints and
  however drivers behave, the boot pass ends with status 0 or 1 without a panic, and every program it spawns
  is either the bus source, with the page-rounded bank of the virtio slots as its only resource,
  or gets an allowance whose windows are page-rounded windows of discovered nodes, whose interrupts and PCI functions
  are those nodes' own, and no capability but the two the warden may pass on. The discovered nodes
  are those the device tree and the kernel's PCI listing name.\<close>

theorem warden_confers_discovered:
  "\<exists>dtb_nodes code log.
     dtb_enumerate (bw_files bw) (bw_hw bw) dtb_root = Some dtb_nodes \<and>
     rs_main builtin fixtures bw = Some (code, log) \<and> code \<in> {0, 1} \<and>
     list_all (\<lambda>a. spawns_source dtb_nodes a \<or>
       conferred_within (dtb_nodes @ pci_enumerate (bw_files bw) (bw_pci bw) pci_root) a) log"
proof -
  obtain dtb where dtb: "dtb_enumerate (bw_files bw) (bw_hw bw) dtb_root = Some dtb"
    using dtb_enumerate_ends by blast
  define pci where "pci = pci_enumerate (bw_files bw) (bw_pci bw) pci_root"
  obtain nodes acts where d: "discover bw dtb pci = (nodes, acts)" by (cases "discover bw dtb pci")
  note within = discover_within [OF d]
  show ?thesis
  proof (cases "load_db (builtin @ (if with_fixtures (bw_args bw) then fixtures else []))")
    case (Inl e)
    then show ?thesis using dtb by (simp add: rs_main_def)
  next
    case (Inr db)
    have "list_all (\<lambda>a. spawns_source dtb a \<or> conferred_within (dtb @ pci) a) (bs_log (bind_all (bw_runs bw) db nodes acts))"
      using within by (intro bind_all_within) simp_all
    then show ?thesis using dtb by (simp add: rs_main_def Inr d pci_def [symmetric] Let_def)
  qed
qed

end
