(* ===== verification/Warden_Database.thy ===== *)
theory Warden_Database
  imports Warden
begin

text \<open>
  The bind database compiled into the warden (\<open>BUILTIN_MANIFESTS\<close> and \<open>FIXTURE_MANIFESTS\<close> of
  \<open>usr/warden/src/main.rs\<close>), text for text, line by line, and what the parser makes of it.
\<close>

definition unlines :: "string list \<Rightarrow> string" where
  "unlines ls = concat (map (\<lambda>l. l @ [CHR 10]) ls)"

definition manifest_netdev_driver :: string where
  \<open>manifest_netdev_driver = unlines [
     '''',
     ''driver "netdev-driver" {'',
     ''    abi   = 1'',
     ''    binds = ["virtio:1"]'',
     ''    needs {'',
     ''        mmio = "node:reg"'',
     ''        irq  = "node:interrupts"'',
     ''        dma  = "pool: 64 KiB"'',
     ''    }'',
     ''    serves  = "/dev/net/%instance"'',
     ''    restart = on-crash'',
     ''}'']\<close>

definition manifest_lictor :: string where
  \<open>manifest_lictor = unlines [
     '''',
     ''driver "lictor" {'',
     ''    abi   = 1'',
     ''    binds = ["virtio-pci:16", "virtio-pci:18"]'',
     ''    needs {'',
     ''        pci = "node"'',
     ''        # The BDF claim authorizes function-bound interrupt endpoints.'',
     ''        irq = "none"'',
     ''        # WEAVE-SKEIN: matches KOBJ_DMA_WEAVE_MAX_SIZE, the kernel's own'',
     ''        # per-object envelope. It read 32 MiB and was the FIRST of the two'',
     ''        # bounds a 2560x1664 display hit -- allowance_permits refuses a'',
     ''        # 48.75 MiB weave before kobj_dma_create_weave is ever called, so the'',
     ''        # allocator's order-14 problem was never even reached. Two bounds at'',
     ''        # the SAME 32 MiB threshold read as one failure, which is why the'',
     ''        # first diagnosis named only the allocator.'',
     ''        #'',
     ''        # Confers no reach the kernel did not already permit for this object'',
     ''        # class: the weave and GPU-BO envelopes are both 64 MiB, so a number'',
     ''        # below that only makes the envelope unreachable in a second,'',
     ''        # invisible way. The other axes (mmio, irq, pci) are untouched.'',
     ''        dma = "pool: 64 MiB"'',
     ''    }'',
     ''    serves    = "/srv/lictor"'',
     ''    restart   = on-crash'',
     ''    lifecycle = persistent'',
     ''    gather    = all'',
     ''    caps      = ["csprng"]'',
     ''}'']\<close>

definition manifest_netd :: string where
  \<open>manifest_netd = unlines [
     '''',
     ''driver "netd" {'',
     ''    abi   = 1'',
     ''    binds = ["virtio-pci:1"]'',
     ''    needs {'',
     ''        pci = "node"'',
     ''        # The BDF claim authorizes function-bound interrupt endpoints.'',
     ''        irq = "none"'',
     ''        dma = "pool: 64 KiB"'',
     ''    }'',
     ''    serves    = "/net"'',
     ''    restart   = on-crash'',
     ''    lifecycle = persistent'',
     ''}'']\<close>

definition manifest_nocturned :: string where
  \<open>manifest_nocturned = unlines [
     '''',
     ''driver "nocturned" {'',
     ''    abi   = 1'',
     ''    binds = ["virtio-pci:25"]'',
     ''    needs {'',
     ''        pci = "node"'',
     ''        # The BDF claim authorizes function-bound interrupt endpoints.'',
     ''        irq = "none"'',
     ''        dma = "pool: 256 KiB"'',
     ''    }'',
     ''    serves    = "/dev/nocturne"'',
     ''    restart   = on-crash'',
     ''    lifecycle = persistent'',
     ''}'']\<close>

definition BUILTIN_MANIFESTS :: "string list" where
  "BUILTIN_MANIFESTS = [manifest_netdev_driver, manifest_lictor, manifest_netd, manifest_nocturned]"

definition manifest_menagerie_probe :: string where
  \<open>manifest_menagerie_probe = unlines [
     '''',
     ''driver "menagerie-probe" {'',
     ''    abi   = 1'',
     ''    binds = ["arm,pl061"]'',
     ''    needs {'',
     ''        mmio = "node:reg"'',
     ''        irq  = "node:interrupts"'',
     ''        dma  = "pool: 64 KiB"'',
     ''    }'',
     ''    serves  = "/dev/gpio/%instance"'',
     ''    restart = on-crash'',
     ''}'']\<close>

definition manifest_crash_probe :: string where
  \<open>manifest_crash_probe = unlines [
     '''',
     ''driver "crash-probe" {'',
     ''    abi   = 1'',
     ''    binds = ["restart-test"]'',
     ''    needs {'',
     ''        mmio = "none"'',
     ''        irq  = "none"'',
     ''        dma  = "none"'',
     ''    }'',
     ''    serves  = "/dev/restart-test/%instance"'',
     ''    restart = on-crash'',
     ''}'']\<close>

definition FIXTURE_MANIFESTS :: "string list" where
  "FIXTURE_MANIFESTS = [manifest_menagerie_probe, manifest_crash_probe]"

section \<open>Tokens, a line at a time\<close>

text \<open>No token crosses a line end, so a text is tokenized line by line.\<close>

lemma dropWhile_line:
  assumes "CHR 10 \<notin> set l" and "\<not> P (CHR 10)"
  shows "dropWhile P (l @ CHR 10 # rest) = dropWhile P l @ CHR 10 # rest"
    and "takeWhile P (l @ CHR 10 # rest) = takeWhile P l"
  using assms by (induction l) auto

lemma drop_comment: "CHR 10 \<notin> set l \<Longrightarrow> dropWhile (\<lambda>x. x \<noteq> CHR 10) (l @ CHR 10 # rest) = CHR 10 # rest"
  "CHR 10 \<notin> set l \<Longrightarrow> dropWhile (\<lambda>x. x \<noteq> CHR 10) l = []"
  by (induction l) auto

lemma tok_nil: "tokenize [] = Inr []"
  by (subst tokenize.simps) simp

lemma tok_newline: "tokenize (CHR 10 # rest) = tokenize rest"
  by (subst tokenize.simps) (simp add: is_blank_def)

lemma in_line: "\<not> in_str (CHR 10)" "\<not> is_ascii_digit (CHR 10)" "\<not> is_ident_byte (CHR 10)"
  by (simp_all add: in_str_def is_ascii_digit_def is_ident_byte_def)

lemma push_first:
  "push_toks [t] (andthen r (\<lambda>ts. push_toks ts s)) = andthen (push_toks [t] r) (\<lambda>ts. push_toks ts s)"
  by (cases r; cases s) (simp_all add: push_toks_def)

lemma no_newline_dropWhile: "CHR 10 \<notin> set l \<Longrightarrow> CHR 10 \<notin> set (dropWhile P l)"
  by (meson set_dropWhileD)

lemma tok_line_end:
  "CHR 10 \<notin> set l \<Longrightarrow> tokenize (l @ CHR 10 # rest) = andthen (tokenize l) (\<lambda>ts. push_toks ts (tokenize rest))"
proof (induction l rule: tokenize.induct)
  case (1 l)
  show ?case
  proof (cases l)
    case Nil
    then show ?thesis by (simp add: tok_nil tok_newline)
  next
    case (Cons c cs)
    have cs: "CHR 10 \<notin> set cs" "c \<noteq> CHR 10" using "1.prems" Cons by auto
    have str: "q \<noteq> CHR 10 \<and> CHR 10 \<notin> set r" if "dropWhile in_str cs = q # r" for q r
      using no_newline_dropWhile [OF cs(1), of in_str] that by auto
    note IH = "1.IH" [OF Cons]
    note line = dropWhile_line [OF cs(1), of in_str, OF in_line(1)]
      dropWhile_line [OF cs(1), of is_ascii_digit, OF in_line(2)] dropWhile_line [OF cs(1), of is_ident_byte, OF in_line(3)]
    have num: "tokenize (dropWhile is_ascii_digit cs @ CHR 10 # rest) =
        andthen (tokenize (dropWhile is_ascii_digit cs)) (\<lambda>ts. push_toks ts (tokenize rest))"
      if "\<not> is_blank c" "c \<noteq> CHR ''#''" "punct c = None" "c \<noteq> CHR 34" "is_ascii_digit c"
        "from_str_radix 10 18446744073709551616 (c # takeWhile is_ascii_digit cs) = Some z" for z
      using IH(4) [of "of_nat z"] that no_newline_dropWhile [OF cs(1)] by (simp add: Cons)
    show ?thesis
      unfolding Cons append_Cons tokenize.simps [of "c # cs"] tokenize.simps [of "c # cs @ CHR 10 # rest"] list.case
      using IH(1,2,3,5,6) cs(1) str num no_newline_dropWhile [OF cs(1)]
      by (auto simp: line drop_comment push_first tok_nil tok_newline in_line simp del: dropWhile_eq_Nil_conv split: option.split list.split)
  qed
qed

lemma tok_quote:
  "tokenize (CHR 34 # cs) =
     (case dropWhile in_str cs of
        [] \<Rightarrow> Inl Parse
      | q # rest \<Rightarrow>
          if q = CHR 10 then Inl Parse
          else if utf8_ok (takeWhile in_str cs) then push_tok (Str (takeWhile in_str cs)) (tokenize rest)
          else Inl Parse)"
  by (subst tokenize.simps) (simp add: is_blank_def punct_def)


lemmas tok_eval = tok_step tok_nil tok_quote is_blank_def punct_def is_ascii_digit_def is_ident_byte_def in_str_def utf8_ok_def
lemma tok_lines:
  "tokenize (unlines []) = Inr []"
  "CHR 10 \<notin> set l \<Longrightarrow> tokenize (unlines (l # ls)) = andthen (tokenize l) (\<lambda>ts. push_toks ts (tokenize (unlines ls)))"
  using tok_line_end [of l "unlines ls"] by (simp_all add: unlines_def tok_nil)

lemma trim_blank: "trim (CHR '' '' # s) = trim s"
proof -
  have "ws_head (CHR '' '' # s) = 1" by (auto simp: ws_head_def ws1_def split: list.splits)
  then have "trim_start (CHR '' '' # s) = trim_start s" by (subst trim_start.simps) simp
  then show ?thesis by (simp add: trim_def)
qed

lemma lower_lits: "lower CHR ''K'' = CHR ''k''" "lower CHR ''M'' = CHR ''m''" "lower CHR ''i'' = CHR ''i''" "lower CHR ''B'' = CHR ''b''"
  by code_simp+

lemma andthen_first: "x = y \<Longrightarrow> andthen x f = andthen y f"
  by simp

lemma pool_64K: "parse_dma_need ''pool: 64 KiB'' = Inr (DmaPool 65536)"
  by (simp add: parse_dma_need_def parse_size_def trim_blank trim_visible is_visible_def is_ascii_digit_def
      from_str_radix_def to_digit_def lower_lits unit_mult_def)

lemma pool_256K: "parse_dma_need ''pool: 256 KiB'' = Inr (DmaPool 262144)"
  by (simp add: parse_dma_need_def parse_size_def trim_blank trim_visible is_visible_def is_ascii_digit_def
      from_str_radix_def to_digit_def lower_lits unit_mult_def)

lemma pool_64M: "parse_dma_need ''pool: 64 MiB'' = Inr (DmaPool 67108864)"
  by (simp add: parse_dma_need_def parse_size_def trim_blank trim_visible is_visible_def is_ascii_digit_def
      from_str_radix_def to_digit_def lower_lits unit_mult_def)

lemma literal_needs:
  "parse_dma_need ''none'' = Inr DmaNone"
  "parse_irq_need ''none'' = Inr IrqNone" "parse_irq_need ''node:interrupts'' = Inr IrqNode"
  "parse_mmio_need ''none'' = Inr MmioNone" "parse_mmio_need ''node:reg'' = Inr MmioNode" "parse_pci_need ''node'' = Inr PciNode"
  by (simp_all add: parse_dma_need_def parse_irq_need_def parse_mmio_need_def parse_pci_need_def trim_visible is_visible_def)

lemma body_step:
  "body_loop f (RBrace # ts) = Inr (f, ts)"
  "body_loop f (Ident key # ts) = andthen (set_key key f ts) (\<lambda>(f, ts). body_loop f ts)"
  by (subst body_loop.simps, simp)+

lemma one_lit: "from_str_radix 10 18446744073709551616 ''1'' = Some 1"
  by (simp add: from_str_radix_def to_digit_def)

lemmas parse_eval = pool_64K pool_256K pool_64M literal_needs body_step one_lit manifest_parse_def parse_manifest_def expect_ident_def expect_str_def
  expect_def next_tok_def set_key_def no_mf_fields_def parse_u32_tok_def parse_str_list_def parse_needs_def set_need_def
  parse_restart_def parse_lifecycle_def parse_gather_def parse_caps_def cap_parse_def unwrap_or_def

section \<open>The parsed database\<close>

definition drv_netdev_driver :: manifest where
  "drv_netdev_driver =
    \<lparr>mf_name = ''netdev-driver'', mf_abi = 1, mf_binds = [''virtio:1''],
      mf_needs = \<lparr>nd_mmio = MmioNode, nd_irq = IrqNode, nd_dma = DmaPool 65536, nd_pci = PciNone\<rparr>,
      mf_serves = ''/dev/net/%instance'', mf_restart = OnCrash, mf_lifecycle = Transient, mf_gather = False, mf_caps = [], mf_sig = None\<rparr>"

definition drv_lictor :: manifest where
  "drv_lictor =
    \<lparr>mf_name = ''lictor'', mf_abi = 1, mf_binds = [''virtio-pci:16'', ''virtio-pci:18''],
      mf_needs = \<lparr>nd_mmio = MmioNone, nd_irq = IrqNone, nd_dma = DmaPool 67108864, nd_pci = PciNode\<rparr>,
      mf_serves = ''/srv/lictor'', mf_restart = OnCrash, mf_lifecycle = Persistent, mf_gather = True, mf_caps = [Csprng], mf_sig = None\<rparr>"

definition drv_netd :: manifest where
  "drv_netd =
    \<lparr>mf_name = ''netd'', mf_abi = 1, mf_binds = [''virtio-pci:1''],
      mf_needs = \<lparr>nd_mmio = MmioNone, nd_irq = IrqNone, nd_dma = DmaPool 65536, nd_pci = PciNode\<rparr>,
      mf_serves = ''/net'', mf_restart = OnCrash, mf_lifecycle = Persistent, mf_gather = False, mf_caps = [], mf_sig = None\<rparr>"

definition drv_nocturned :: manifest where
  "drv_nocturned =
    \<lparr>mf_name = ''nocturned'', mf_abi = 1, mf_binds = [''virtio-pci:25''],
      mf_needs = \<lparr>nd_mmio = MmioNone, nd_irq = IrqNone, nd_dma = DmaPool 262144, nd_pci = PciNode\<rparr>,
      mf_serves = ''/dev/nocturne'', mf_restart = OnCrash, mf_lifecycle = Persistent, mf_gather = False, mf_caps = [], mf_sig = None\<rparr>"

definition drv_menagerie_probe :: manifest where
  "drv_menagerie_probe =
    \<lparr>mf_name = ''menagerie-probe'', mf_abi = 1, mf_binds = [''arm,pl061''],
      mf_needs = \<lparr>nd_mmio = MmioNode, nd_irq = IrqNode, nd_dma = DmaPool 65536, nd_pci = PciNone\<rparr>,
      mf_serves = ''/dev/gpio/%instance'', mf_restart = OnCrash, mf_lifecycle = Transient, mf_gather = False, mf_caps = [], mf_sig = None\<rparr>"

definition drv_crash_probe :: manifest where
  "drv_crash_probe =
    \<lparr>mf_name = ''crash-probe'', mf_abi = 1, mf_binds = [''restart-test''],
      mf_needs = \<lparr>nd_mmio = MmioNone, nd_irq = IrqNone, nd_dma = DmaNone, nd_pci = PciNone\<rparr>,
      mf_serves = ''/dev/restart-test/%instance'', mf_restart = OnCrash, mf_lifecycle = Transient, mf_gather = False, mf_caps = [], mf_sig = None\<rparr>"

lemma parse_netdev_driver: "manifest_parse manifest_netdev_driver = Inr drv_netdev_driver"
proof -
  have "tokenize manifest_netdev_driver = Inr [
      Ident ''driver'', Str ''netdev-driver'', LBrace, Ident ''abi'', Eq, IntLit 1, Ident ''binds'', Eq,
      LBrack, Str ''virtio:1'', RBrack, Ident ''needs'', LBrace, Ident ''mmio'', Eq, Str ''node:reg'',
      Ident ''irq'', Eq, Str ''node:interrupts'', Ident ''dma'', Eq, Str ''pool: 64 KiB'', RBrace,
      Ident ''serves'', Eq, Str ''/dev/net/%instance'', Ident ''restart'', Eq, Ident ''on-crash'', RBrace]"
    by (simp add: manifest_netdev_driver_def tok_lines tok_eval one_lit)
  then show ?thesis by (simp add: drv_netdev_driver_def parse_eval cong: andthen_first)
qed

lemma parse_lictor: "manifest_parse manifest_lictor = Inr drv_lictor"
proof -
  have "tokenize manifest_lictor = Inr [
      Ident ''driver'', Str ''lictor'', LBrace, Ident ''abi'', Eq, IntLit 1, Ident ''binds'', Eq, LBrack,
      Str ''virtio-pci:16'', Comma, Str ''virtio-pci:18'', RBrack, Ident ''needs'', LBrace, Ident ''pci'',
      Eq, Str ''node'', Ident ''irq'', Eq, Str ''none'', Ident ''dma'', Eq, Str ''pool: 64 MiB'', RBrace,
      Ident ''serves'', Eq, Str ''/srv/lictor'', Ident ''restart'', Eq, Ident ''on-crash'',
      Ident ''lifecycle'', Eq, Ident ''persistent'', Ident ''gather'', Eq, Ident ''all'', Ident ''caps'', Eq,
      LBrack, Str ''csprng'', RBrack, RBrace]"
    by (simp add: manifest_lictor_def tok_lines tok_eval one_lit)
  then show ?thesis by (simp add: drv_lictor_def parse_eval cong: andthen_first)
qed

lemma parse_netd: "manifest_parse manifest_netd = Inr drv_netd"
proof -
  have "tokenize manifest_netd = Inr [
      Ident ''driver'', Str ''netd'', LBrace, Ident ''abi'', Eq, IntLit 1, Ident ''binds'', Eq, LBrack,
      Str ''virtio-pci:1'', RBrack, Ident ''needs'', LBrace, Ident ''pci'', Eq, Str ''node'', Ident ''irq'',
      Eq, Str ''none'', Ident ''dma'', Eq, Str ''pool: 64 KiB'', RBrace, Ident ''serves'', Eq, Str ''/net'',
      Ident ''restart'', Eq, Ident ''on-crash'', Ident ''lifecycle'', Eq, Ident ''persistent'', RBrace]"
    by (simp add: manifest_netd_def tok_lines tok_eval one_lit)
  then show ?thesis by (simp add: drv_netd_def parse_eval cong: andthen_first)
qed

lemma parse_nocturned: "manifest_parse manifest_nocturned = Inr drv_nocturned"
proof -
  have "tokenize manifest_nocturned = Inr [
      Ident ''driver'', Str ''nocturned'', LBrace, Ident ''abi'', Eq, IntLit 1, Ident ''binds'', Eq, LBrack,
      Str ''virtio-pci:25'', RBrack, Ident ''needs'', LBrace, Ident ''pci'', Eq, Str ''node'', Ident ''irq'',
      Eq, Str ''none'', Ident ''dma'', Eq, Str ''pool: 256 KiB'', RBrace, Ident ''serves'', Eq,
      Str ''/dev/nocturne'', Ident ''restart'', Eq, Ident ''on-crash'', Ident ''lifecycle'', Eq,
      Ident ''persistent'', RBrace]"
    by (simp add: manifest_nocturned_def tok_lines tok_eval one_lit)
  then show ?thesis by (simp add: drv_nocturned_def parse_eval cong: andthen_first)
qed

lemma parse_menagerie_probe: "manifest_parse manifest_menagerie_probe = Inr drv_menagerie_probe"
proof -
  have "tokenize manifest_menagerie_probe = Inr [
      Ident ''driver'', Str ''menagerie-probe'', LBrace, Ident ''abi'', Eq, IntLit 1, Ident ''binds'', Eq,
      LBrack, Str ''arm,pl061'', RBrack, Ident ''needs'', LBrace, Ident ''mmio'', Eq, Str ''node:reg'',
      Ident ''irq'', Eq, Str ''node:interrupts'', Ident ''dma'', Eq, Str ''pool: 64 KiB'', RBrace,
      Ident ''serves'', Eq, Str ''/dev/gpio/%instance'', Ident ''restart'', Eq, Ident ''on-crash'', RBrace]"
    by (simp add: manifest_menagerie_probe_def tok_lines tok_eval one_lit)
  then show ?thesis by (simp add: drv_menagerie_probe_def parse_eval cong: andthen_first)
qed

lemma parse_crash_probe: "manifest_parse manifest_crash_probe = Inr drv_crash_probe"
proof -
  have "tokenize manifest_crash_probe = Inr [
      Ident ''driver'', Str ''crash-probe'', LBrace, Ident ''abi'', Eq, IntLit 1, Ident ''binds'', Eq,
      LBrack, Str ''restart-test'', RBrack, Ident ''needs'', LBrace, Ident ''mmio'', Eq, Str ''none'',
      Ident ''irq'', Eq, Str ''none'', Ident ''dma'', Eq, Str ''none'', RBrace, Ident ''serves'', Eq,
      Str ''/dev/restart-test/%instance'', Ident ''restart'', Eq, Ident ''on-crash'', RBrace]"
    by (simp add: manifest_crash_probe_def tok_lines tok_eval one_lit)
  then show ?thesis by (simp add: drv_crash_probe_def parse_eval cong: andthen_first)
qed

text \<open>The warden's own database is sound: the four manifests of a production boot and the two test
  fixtures all parse, each to the driver, identities, needs, policy and lifecycle its text spells, so the boot
  pass never stops on its own manifests.\<close>

theorem database_loads:
  "load_db BUILTIN_MANIFESTS = Inr [drv_netdev_driver, drv_lictor, drv_netd, drv_nocturned] \<and>
   load_db (BUILTIN_MANIFESTS @ FIXTURE_MANIFESTS) =
     Inr [drv_netdev_driver, drv_lictor, drv_netd, drv_nocturned, drv_menagerie_probe, drv_crash_probe]"
  by (simp add: BUILTIN_MANIFESTS_def FIXTURE_MANIFESTS_def parse_netdev_driver parse_lictor parse_netd parse_nocturned
      parse_menagerie_probe parse_crash_probe)

end
