(* ===== verification/Tap_Ring.thy ===== *)
theory Tap_Ring
  imports Ninep_Wire
begin

text \<open>
  The event set of the Tapestry client library: the slot bookkeeping of
  \<open>usr/lib/libtapestry/src/ring.rs\<close> and the \<open>RingCore\<close> of \<open>lib.rs\<close> that arms reads and routes their
  completions. Every surface of a session has a slot, and a read in flight writes into the slot's
  region of one shared buffer; the kernel, which answers reads in any order and with any
  bytes, is a parameter of the steps. Indexing out of range is \<^const>\<open>None\<close>.
\<close>

unbundle bit_operations_syntax

definition TEVENT_LEN :: nat where "TEVENT_LEN = 24"
definition TEV_LAYOUT :: u16 where "TEV_LAYOUT = 10"
definition EV_REGION :: nat where "EV_REGION = 128"
definition EV_CAP :: nat where "EV_CAP = 4 * TEVENT_LEN"
definition MAX_RING_SURFACES :: nat where "MAX_RING_SURFACES = 48"
definition SLOT_QUEUE_CAP :: nat where "SLOT_QUEUE_CAP = 256"
definition UD_EVENT :: u64 where "UD_EVENT = 2"

datatype tap_error = Full | Connect | Protocol | Create | Map | Loom | Present | Closed | Busy

record event =
  ev_kind :: u16
  ev_code :: u16
  ev_value :: u32
  ev_rune :: u32
  ev_mods :: u16
  ev_flags :: u16
  ev_tick :: u64

record slot =
  sl_used :: bool
  sl_retiring :: bool
  sl_fd :: i32
  sl_armed :: bool
  sl_closed :: bool
  sl_gen :: u32
  sl_pending :: "event list"

section \<open>The slots\<close>

definition free_slot :: slot where
  "free_slot = \<lparr>sl_used = False, sl_retiring = False, sl_fd = - 1, sl_armed = False, sl_closed = False, sl_gen = 0, sl_pending = []\<rparr>"

definition new_slots :: "slot list" where
  "new_slots = replicate MAX_RING_SURFACES free_slot"

definition ud :: "nat \<Rightarrow> u32 \<Rightarrow> u64" where
  "ud i gen = push_bit 40 (of_nat i) OR push_bit 8 (ucast gen) OR UD_EVENT"

definition join :: "slot list \<Rightarrow> i32 \<Rightarrow> tap_error + nat \<times> slot list" where
  "join slots fd =
     andthen (ok_or Full (position (\<lambda>s. \<not> sl_used s) slots)) (\<lambda>i.
       Inr (i, slots[i := (slots ! i)\<lparr>sl_used := True, sl_retiring := False, sl_fd := fd, sl_armed := False,
                 sl_closed := False, sl_gen := sl_gen (slots ! i) + 1, sl_pending := []\<rparr>]))"

definition leave :: "slot list \<Rightarrow> nat \<Rightarrow> bool \<times> slot list" where
  "leave slots i =
     (if i \<ge> length slots \<or> \<not> sl_used (slots ! i) then (False, slots)
      else let s = (slots ! i)\<lparr>sl_pending := []\<rparr>
           in (True, slots[i := if sl_armed s then s\<lparr>sl_retiring := True\<rparr> else s\<lparr>sl_used := False\<rparr>]))"

definition handle_table :: "slot list \<Rightarrow> i32 \<Rightarrow> i32 list" where
  "handle_table slots placeholder = map (\<lambda>s. if sl_used s \<and> \<not> sl_retiring s then sl_fd s else placeholder) slots"

definition arm_wanted :: "slot \<Rightarrow> bool" where
  "arm_wanted s \<longleftrightarrow> sl_used s \<and> \<not> sl_retiring s \<and> \<not> sl_armed s \<and> \<not> sl_closed s \<and> length (sl_pending s) < SLOT_QUEUE_CAP"

definition any_armed :: "slot list \<Rightarrow> bool" where
  "any_armed slots = list_ex sl_armed slots"

section \<open>Routing a completion\<close>

definition g16 :: "bytes \<Rightarrow> nat \<Rightarrow> u16 option" where "g16 d o' = map_option fst (unpack_u16 d o')"
definition g32 :: "bytes \<Rightarrow> nat \<Rightarrow> u32 option" where "g32 d o' = map_option fst (unpack_u32 d o')"
definition g64 :: "bytes \<Rightarrow> nat \<Rightarrow> u64 option" where "g64 d o' = map_option fst (unpack_u64 d o')"

definition read_event :: "bytes \<Rightarrow> nat \<Rightarrow> event option" where
  "read_event d off = do {
     kind \<leftarrow> g16 d off;
     code \<leftarrow> g16 d (off + 2);
     val \<leftarrow> g32 d (off + 4);
     rune \<leftarrow> g32 d (off + 8);
     mods \<leftarrow> g16 d (off + 12);
     flags \<leftarrow> g16 d (off + 14);
     tick \<leftarrow> g64 d (off + 16);
     Some \<lparr>ev_kind = kind, ev_code = code, ev_value = val, ev_rune = rune, ev_mods = mods, ev_flags = flags, ev_tick = tick\<rparr>
   }"

text \<open>The loop that looks for a layout notice and the loop that decodes the records, over the records
  from \<open>off\<close> up to \<open>end'\<close>.\<close>

function layout_loop :: "bytes \<Rightarrow> nat \<Rightarrow> nat \<Rightarrow> bool option" where
  "layout_loop d end' off =
     (if off \<ge> end' then Some False
      else if off + TEVENT_LEN \<le> end' then do {
        k \<leftarrow> g16 d off;
        if k = TEV_LAYOUT then Some True else layout_loop d end' (off + TEVENT_LEN)
      }
      else layout_loop d end' (off + TEVENT_LEN))"
  by auto
termination by (relation "measure (\<lambda>(_, end', off). end' - off)") (auto simp: TEVENT_LEN_def)

function event_loop :: "bytes \<Rightarrow> nat \<Rightarrow> nat \<Rightarrow> event list \<Rightarrow> event list option" where
  "event_loop d end' off out =
     (if off + TEVENT_LEN \<le> end' then do {
        e \<leftarrow> read_event d off;
        event_loop d end' (off + TEVENT_LEN) (out @ [e])
      }
      else Some out)"
  by auto
termination by (relation "measure (\<lambda>(_, end', off, _). end' - off)") (auto simp: TEVENT_LEN_def)

declare layout_loop.simps [simp del] event_loop.simps [simp del]

definition route :: "slot list \<Rightarrow> bytes \<Rightarrow> u64 \<Rightarrow> int \<Rightarrow> (bool \<times> slot list) option" where
  "route slots staging user_data result =
     (if user_data AND 0xff \<noteq> UD_EVENT then Some (False, slots)
      else
        let i = unat (drop_bit 40 user_data);
            gen = ucast (drop_bit 8 user_data AND 0xffffffff)
        in if i \<ge> length slots then Some (False, slots)
           else
             let s = slots ! i
             in if \<not> sl_used s \<or> sl_gen s \<noteq> gen then Some (False, slots)
                else
                  let s = s\<lparr>sl_armed := False\<rparr>;
                      region = i * EV_REGION;
                      n = (if result > 0 then min (nat result) EV_CAP else 0);
                      end' = region + n
                  in do {
                    layout \<leftarrow> (if end' \<le> length staging then layout_loop staging end' region else Some False);
                    if sl_retiring s then Some (layout, slots[i := s\<lparr>sl_used := False, sl_retiring := False\<rparr>])
                    else if result \<le> 0 then Some (False, slots[i := s\<lparr>sl_closed := True\<rparr>])
                    else if end' > length staging then Some (False, slots[i := s])
                    else do {
                      pending \<leftarrow> event_loop staging end' region (sl_pending s);
                      Some (layout, slots[i := s\<lparr>sl_pending := pending\<rparr>])
                    }
                  })"

definition pop_first :: "'a list \<Rightarrow> 'a option \<times> 'a list" where
  "pop_first v = (case v of [] \<Rightarrow> (None, []) | x # xs \<Rightarrow> (Some x, xs))"

definition take_event :: "slot list \<Rightarrow> nat \<Rightarrow> (tap_error + event option) \<times> slot list" where
  "take_event slots i =
     (if i \<ge> length slots then (Inl Closed, slots)
      else if sl_closed (slots ! i) \<and> sl_pending (slots ! i) = [] then (Inl Closed, slots)
      else case pop_first (sl_pending (slots ! i)) of (e, rest) \<Rightarrow>
             (Inr e, slots[i := (slots ! i)\<lparr>sl_pending := rest\<rparr>]))"

section \<open>The ring core\<close>

text \<open>\<open>submit i\<close> says whether the submission queue takes the read of slot \<open>i\<close>. The third component is the
  tags submitted, the first \<open>None\<close> when a submission failed and the loop stopped.\<close>

fun arm_loop :: "(nat \<Rightarrow> bool) \<Rightarrow> nat list \<Rightarrow> slot list \<Rightarrow> u32 \<Rightarrow> u64 list \<Rightarrow> (tap_error + u32) \<times> slot list \<times> u64 list" where
  "arm_loop submit [] slots n tags = (Inr n, slots, tags)"
| "arm_loop submit (i # is) slots n tags =
     (if \<not> arm_wanted (slots ! i) then arm_loop submit is slots n tags
      else if \<not> submit i then (Inl Loom, slots, tags)
      else arm_loop submit is (slots[i := (slots ! i)\<lparr>sl_armed := True\<rparr>]) (n + 1) (tags @ [ud i (sl_gen (slots ! i))]))"

definition arm_all :: "(nat \<Rightarrow> bool) \<Rightarrow> slot list \<Rightarrow> (tap_error + u32) \<times> slot list \<times> u64 list" where
  "arm_all submit slots = arm_loop submit [0..<length slots] slots 0 []"

record ring_core =
  rc_slots :: "slot list"
  rc_layout_hint :: bool

text \<open>\<open>RingCore::join\<close> and \<open>leave\<close>; \<open>registered\<close> is whether the kernel takes the new handle table.\<close>

definition core_join :: "bool \<Rightarrow> i32 \<Rightarrow> ring_core \<Rightarrow> (tap_error + nat) \<times> ring_core" where
  "core_join registered fd c =
     (case join (rc_slots c) fd of
        Inl e \<Rightarrow> (Inl e, c)
      | Inr (i, slots) \<Rightarrow>
          if registered then (Inr i, c\<lparr>rc_slots := slots\<rparr>)
          else (Inl Loom, c\<lparr>rc_slots := slots[i := (slots ! i)\<lparr>sl_used := False\<rparr>]\<rparr>))"

definition core_leave :: "nat \<Rightarrow> ring_core \<Rightarrow> ring_core" where
  "core_leave i c = c\<lparr>rc_slots := snd (leave (rc_slots c) i)\<rparr>"

text \<open>A completion as the kernel posts it: the tag, the result, and what the shared buffer holds when it is
  reaped.\<close>

type_synonym cqe = "u64 \<times> int \<times> bytes"

fun reap_all :: "cqe list \<Rightarrow> ring_core \<Rightarrow> ring_core option" where
  "reap_all [] c = Some c"
| "reap_all ((tag, result, staging) # cqes) c = do {
     (layout, slots) \<leftarrow> route (rc_slots c) staging tag result;
     reap_all cqes (c\<lparr>rc_slots := slots, rc_layout_hint := (layout \<or> rc_layout_hint c)\<rparr>)
   }"

definition pump :: "(nat \<Rightarrow> bool) \<Rightarrow> bool \<Rightarrow> cqe list \<Rightarrow> bool \<Rightarrow> ring_core \<Rightarrow> ((tap_error + unit) \<times> ring_core) option" where
  "pump submit enter_ok cqes block c =
     (case arm_all submit (rc_slots c) of (armed, slots, _) \<Rightarrow>
        let c = c\<lparr>rc_slots := slots\<rparr>
        in case armed of
             Inl e \<Rightarrow> Some (Inl e, c)
           | Inr n \<Rightarrow>
               if block \<and> \<not> any_armed (rc_slots c) then Some (Inl Closed, c)
               else if (block \<or> n > 0) \<and> \<not> enter_ok then Some (Inl Loom, c)
               else do { c \<leftarrow> reap_all cqes c; Some (Inr (), c) })"

definition take_layout_hint :: "ring_core \<Rightarrow> bool \<times> ring_core" where
  "take_layout_hint c = (rc_layout_hint c, c\<lparr>rc_layout_hint := False\<rparr>)"

definition surfaces :: "ring_core \<Rightarrow> nat" where
  "surfaces c = length (filter sl_used (rc_slots c))"

section \<open>Tags\<close>

lemma ud_fields:
  assumes "i < 2 ^ 24"
  shows "ud i gen AND 0xff = UD_EVENT" "unat (drop_bit 40 (ud i gen)) = i"
    "(ucast (drop_bit 8 (ud i gen) AND 0xffffffff) :: u32) = gen"
proof -
  have ff: "(0xff :: u64) = mask 8" "(0xffffffff :: u64) = mask 32" by (simp_all add: mask_eq_exp_minus_1)
  have two: "bit (2 :: u64) n \<longleftrightarrow> n = 1" for n by (auto simp: bit_2_iff)
  have ib: "bit i n \<Longrightarrow> n < 24" for n
  proof (rule ccontr)
    assume "bit i n" and "\<not> n < 24"
    moreover have "i < 2 ^ n" using assms \<open>\<not> n < 24\<close> by (meson less_le_trans not_less one_le_numeral power_increasing)
    ultimately show False by (simp add: bit_iff_odd)
  qed
  show "ud i gen AND 0xff = UD_EVENT"
    unfolding ff ud_def UD_EVENT_def by (rule bit_word_eqI) (auto simp: bit_simps two)
  show "(ucast (drop_bit 8 (ud i gen) AND 0xffffffff) :: u32) = gen"
    unfolding ff ud_def UD_EVENT_def by (rule bit_word_eqI) (auto simp: bit_simps two dest: bit_imp_le_length)
  have "drop_bit 40 (ud i gen) = of_nat i"
    unfolding ud_def UD_EVENT_def
    by (rule bit_word_eqI) (auto simp: bit_simps two dest: bit_imp_le_length ib)
  moreover have "i < 2 ^ 64" using assms by simp
  ultimately show "unat (drop_bit 40 (ud i gen)) = i" by (simp add: unsigned_of_nat take_bit_nat_eq_self)
qed

lemma ud_inj: "i < 2 ^ 24 \<Longrightarrow> j < 2 ^ 24 \<Longrightarrow> ud i g = ud j h \<longleftrightarrow> i = j \<and> g = h"
  using ud_fields(2,3) by metis

section \<open>The invariant\<close>

text \<open>The ring with the reads the kernel has in flight, by their tags.\<close>

record ring_sys =
  sy_core :: ring_core
  sy_flight :: "u64 list"

definition ring_init :: ring_sys where
  "ring_init = \<lparr>sy_core = \<lparr>rc_slots = new_slots, rc_layout_hint = False\<rparr>, sy_flight = []\<rparr>"

inductive ring_step :: "ring_sys \<Rightarrow> ring_sys \<Rightarrow> bool" where
  step_join: "ring_step s (s\<lparr>sy_core := snd (core_join registered fd (sy_core s))\<rparr>)"
| step_leave: "ring_step s (s\<lparr>sy_core := core_leave i (sy_core s)\<rparr>)"
| step_arm: "arm_all submit (rc_slots (sy_core s)) = (r, slots, tags) \<Longrightarrow>
     ring_step s (s\<lparr>sy_core := (sy_core s)\<lparr>rc_slots := slots\<rparr>, sy_flight := sy_flight s @ tags\<rparr>)"
| step_complete: "tag \<in> set (sy_flight s) \<Longrightarrow> reap_all [(tag, result, staging)] (sy_core s) = Some c \<Longrightarrow>
     ring_step s (s\<lparr>sy_core := c, sy_flight := remove1 tag (sy_flight s)\<rparr>)"
| step_take: "ring_step s (s\<lparr>sy_core := (sy_core s)\<lparr>rc_slots := snd (take_event (rc_slots (sy_core s)) i)\<rparr>\<rparr>)"
| step_hint: "ring_step s (s\<lparr>sy_core := snd (take_layout_hint (sy_core s))\<rparr>)"

inductive ring_reach :: "ring_sys \<Rightarrow> bool" where
  reach_init: "ring_reach ring_init"
| reach_step: "ring_reach s \<Longrightarrow> ring_step s s' \<Longrightarrow> ring_reach s'"

inductive_cases ring_stepE: "ring_step s s'"

definition slot_ok :: "slot \<Rightarrow> bool" where
  "slot_ok s \<longleftrightarrow>
     (sl_retiring s \<longrightarrow> sl_armed s) \<and> (sl_armed s \<longrightarrow> sl_used s) \<and> length (sl_pending s) \<le> SLOT_QUEUE_CAP + 3 \<and>
     (sl_armed s \<and> \<not> sl_retiring s \<longrightarrow> length (sl_pending s) < SLOT_QUEUE_CAP)"

definition armed_tags :: "slot list \<Rightarrow> u64 set" where
  "armed_tags slots = (\<lambda>i. ud i (sl_gen (slots ! i))) ` {i. i < length slots \<and> sl_armed (slots ! i)}"

definition ring_inv :: "ring_sys \<Rightarrow> bool" where
  "ring_inv s \<longleftrightarrow> length (rc_slots (sy_core s)) = MAX_RING_SURFACES \<and> list_all slot_ok (rc_slots (sy_core s)) \<and>
     distinct (sy_flight s) \<and> set (sy_flight s) = armed_tags (rc_slots (sy_core s))"

text \<open>A slot changed without touching its tag or whether it is armed changes no tag; one that is armed adds
  its tag, one whose read completes removes it.\<close>

lemma armed_tags_same:
  assumes "i < length slots" and "sl_armed s = sl_armed (slots ! i)" and "sl_armed s \<Longrightarrow> sl_gen s = sl_gen (slots ! i)"
  shows "armed_tags (slots[i := s]) = armed_tags slots"
proof -
  have "(j < length slots \<and> sl_armed (slots[i := s] ! j)) = (j < length slots \<and> sl_armed (slots ! j))" for j
    using assms by (cases "j = i") auto
  then show ?thesis unfolding armed_tags_def
    by (intro image_cong) (use assms in \<open>auto simp: nth_list_update\<close>)
qed

lemma armed_tags_arm:
  assumes "i < length slots"
  shows "armed_tags (slots[i := (slots ! i)\<lparr>sl_armed := True\<rparr>]) = insert (ud i (sl_gen (slots ! i))) (armed_tags slots)"
  using assms by (auto simp: armed_tags_def nth_list_update image_iff split: if_splits)

lemma armed_tags_done:
  assumes "i < length slots" and "length slots \<le> 2 ^ 24" and "sl_armed (slots ! i)" and "\<not> sl_armed s"
  shows "armed_tags (slots[i := s]) = armed_tags slots - {ud i (sl_gen (slots ! i))}"
  using assms by (auto simp: armed_tags_def nth_list_update image_iff ud_inj split: if_splits)


lemma list_all_update: "list_all P xs \<Longrightarrow> (i < length xs \<Longrightarrow> P x) \<Longrightarrow> list_all P (xs[i := x])"
  by (cases "i < length xs") (auto simp: list_all_length nth_list_update)

lemma slot_ok_nth: "list_all slot_ok slots \<Longrightarrow> i < length slots \<Longrightarrow> slot_ok (slots ! i)"
  by (simp add: list_all_length)

definition slots_inv :: "slot list \<Rightarrow> u64 list \<Rightarrow> bool" where
  "slots_inv slots flight \<longleftrightarrow> length slots = MAX_RING_SURFACES \<and> list_all slot_ok slots \<and> distinct flight \<and> set flight = armed_tags slots"

lemma ring_inv_slots: "ring_inv s \<longleftrightarrow> slots_inv (rc_slots (sy_core s)) (sy_flight s)"
  by (simp add: ring_inv_def slots_inv_def)

lemma slots_inv_update:
  assumes "slots_inv slots flight" and "i < length slots" and "slot_ok s" and "sl_armed s = sl_armed (slots ! i)"
    and "sl_armed s \<Longrightarrow> sl_gen s = sl_gen (slots ! i)"
  shows "slots_inv (slots[i := s]) flight"
  using assms armed_tags_same [OF assms(2,4,5)] by (simp add: slots_inv_def list_all_update)

lemma join_inv [inv_step]:
  assumes "slots_inv (rc_slots c) flight"
  shows "slots_inv (rc_slots (snd (core_join registered fd c))) flight"
proof (cases "position (\<lambda>s. \<not> sl_used s) (rc_slots c)")
  case (Some i)
  then have i: "i < length (rc_slots c)" "\<not> sl_used (rc_slots c ! i)" using position_Some by blast+
  moreover have "slot_ok (rc_slots c ! i)" using assms i(1) by (simp add: slots_inv_def slot_ok_nth)
  ultimately have idle: "\<not> sl_armed (rc_slots c ! i)" "\<not> sl_retiring (rc_slots c ! i)" by (auto simp: slot_ok_def)
  show ?thesis
    using assms i idle by (auto simp: core_join_def join_def Some slot_ok_def SLOT_QUEUE_CAP_def intro!: slots_inv_update)
qed (use assms in \<open>simp add: core_join_def join_def\<close>)

lemma leave_inv [inv_step]:
  assumes "slots_inv slots flight"
  shows "slots_inv (snd (leave slots i)) flight"
proof (cases "i < length slots \<and> sl_used (slots ! i)")
  case True
  then have "slot_ok (slots ! i)" using assms by (simp add: slots_inv_def slot_ok_nth)
  then show ?thesis using True assms
    by (auto simp: leave_def Let_def slot_ok_def SLOT_QUEUE_CAP_def intro!: slots_inv_update)
qed (use assms in \<open>auto simp: leave_def\<close>)

lemma take_inv [inv_step]:
  assumes "slots_inv slots flight"
  shows "slots_inv (snd (take_event slots i)) flight"
proof (cases "i < length slots")
  case True
  then have "slot_ok (slots ! i)" using assms by (simp add: slots_inv_def slot_ok_nth)
  then show ?thesis using True assms
    by (auto simp: take_event_def pop_first_def slot_ok_def split: list.split intro!: slots_inv_update)
qed (use assms in \<open>simp add: take_event_def\<close>)

lemma arm_loop_inv:
  assumes "arm_loop submit is slots n tags = (r, slots', tags')" and "slots_inv slots (flight @ tags)"
    and "list_all (\<lambda>i. i < length slots) is"
  shows "slots_inv slots' (flight @ tags')"
  using assms
proof (induction "is" arbitrary: slots n tags)
  case (Cons i rest)
  show ?case
  proof (cases "arm_wanted (slots ! i) \<and> submit i")
    case True
    have i: "i < length slots" and len: "length slots = MAX_RING_SURFACES" using Cons.prems by (simp_all add: slots_inv_def)
    have idle: "\<not> sl_armed (slots ! i)" using True by (simp add: arm_wanted_def)
    have "slot_ok ((slots ! i)\<lparr>sl_armed := True\<rparr>)"
      using True slot_ok_nth [of slots i] Cons.prems by (simp add: slots_inv_def slot_ok_def arm_wanted_def)
    moreover have "ud i (sl_gen (slots ! i)) \<notin> armed_tags slots"
      using idle i len by (auto simp: armed_tags_def ud_inj MAX_RING_SURFACES_def)
    ultimately have "slots_inv (slots[i := (slots ! i)\<lparr>sl_armed := True\<rparr>]) (flight @ tags @ [ud i (sl_gen (slots ! i))])"
      using Cons.prems(2) armed_tags_arm [OF i] by (auto simp: slots_inv_def list_all_update)
    then show ?thesis using Cons.IH [of "slots[i := (slots ! i)\<lparr>sl_armed := True\<rparr>]"] Cons.prems True by simp
  qed (use Cons in \<open>auto split: if_splits\<close>)
qed simp

lemma arm_inv [inv_step]:
  "arm_all submit slots = (r, slots', tags) \<Longrightarrow> slots_inv slots flight \<Longrightarrow> slots_inv slots' (flight @ tags)"
  using arm_loop_inv [of submit "[0..<length slots]" slots 0 "[]" r slots' tags flight] by (simp add: arm_all_def list_all_iff)

text \<open>Decoding appends at most one event for each record, and never reads past the buffer.\<close>

lemma read_event_total: "off + TEVENT_LEN \<le> length d \<Longrightarrow> \<exists>e. read_event d off = Some e"
  by (simp add: read_event_def g16_def g32_def g64_def unpack_u16_def unpack_u32_def unpack_u64_def TEVENT_LEN_def Let_def)

lemma event_loop_total:
  "end' \<le> length d \<Longrightarrow> \<exists>es. event_loop d end' off out = Some (out @ es) \<and> length es = (end' - off) div TEVENT_LEN"
proof (induction d end' off out rule: event_loop.induct)
  case (1 d end' off out)
  show ?case
  proof (cases "off + TEVENT_LEN \<le> end'")
    case True
    then obtain e where e: "read_event d off = Some e" using read_event_total [of off d] "1.prems" by auto
    then obtain es where "event_loop d end' (off + TEVENT_LEN) (out @ [e]) = Some ((out @ [e]) @ es)"
      "length es = (end' - (off + TEVENT_LEN)) div TEVENT_LEN"
      using "1.IH" [OF True e "1.prems"] by blast
    moreover have "(end' - off) div TEVENT_LEN = Suc ((end' - (off + TEVENT_LEN)) div TEVENT_LEN)"
      using True by (simp add: TEVENT_LEN_def le_div_geq)
    ultimately show ?thesis using True e by (subst event_loop.simps) simp
  next
    case False
    then have "(end' - off) div TEVENT_LEN = 0" by (simp add: TEVENT_LEN_def)
    with False show ?thesis by (subst event_loop.simps) simp
  qed
qed

lemma layout_loop_total: "end' \<le> length d \<Longrightarrow> \<exists>b. layout_loop d end' off = Some b"
proof (induction d end' off rule: layout_loop.induct)
  case (1 d end' off)
  have "\<exists>k. g16 d off = Some k" if "off + TEVENT_LEN \<le> end'"
    using that "1.prems" by (simp add: g16_def unpack_u16_def TEVENT_LEN_def Let_def)
  then show ?case using 1 by (subst layout_loop.simps) (auto split: Option.bind_split)
qed


text \<open>What a completion does to the slot it names, for a tag in flight and for any other.\<close>

definition completed :: "slot \<Rightarrow> event list \<Rightarrow> int \<Rightarrow> slot" where
  "completed s es result =
     (if sl_retiring s then s\<lparr>sl_armed := False, sl_used := False, sl_retiring := False\<rparr>
      else if result \<le> 0 then s\<lparr>sl_armed := False, sl_closed := True\<rparr>
      else s\<lparr>sl_armed := False, sl_pending := sl_pending s @ es\<rparr>)"

lemma route_live:
  assumes "i < length slots" and "length slots \<le> 2 ^ 24" and "sl_used (slots ! i)"
  shows "\<exists>layout es. route slots staging (ud i (sl_gen (slots ! i))) result = Some (layout, slots[i := completed (slots ! i) es result]) \<and>
    length es \<le> 4"
proof -
  have i: "i < 2 ^ 24" using assms(1,2) by simp
  define n where "n = (if result > 0 then min (nat result) EV_CAP else 0)"
  define e where "e = i * EV_REGION + n"
  have n: "(e - i * EV_REGION) div TEVENT_LEN \<le> 4"
    using div_le_mono [of n 96 24] by (simp add: e_def n_def EV_CAP_def TEVENT_LEN_def)
  obtain layout where layout: "(if e \<le> length staging then layout_loop staging e (i * EV_REGION) else Some False) = Some layout"
    using layout_loop_total [of e staging "i * EV_REGION"] by (cases "e \<le> length staging") auto
  show ?thesis
  proof (cases "e \<le> length staging")
    case True
    obtain es where "event_loop staging e (i * EV_REGION) (sl_pending (slots ! i)) = Some (sl_pending (slots ! i) @ es)" "length es \<le> 4"
      using event_loop_total [OF True, of "i * EV_REGION" "sl_pending (slots ! i)"] n by auto
    then show ?thesis using assms(1,3) True layout i
      by (intro exI [of _ "layout \<and> (sl_retiring (slots ! i) \<or> result > 0)"] exI [of _ es])
         (simp add: route_def ud_fields Let_def completed_def n_def [symmetric] e_def [symmetric])
  next
    case False
    then show ?thesis using assms(1,3) i
      by (intro exI [of _ False] exI [of _ "[]"])
         (simp add: route_def ud_fields Let_def completed_def n_def [symmetric] e_def [symmetric])
  qed
qed

lemma armed_tag_slot:
  assumes "slots_inv slots flight" and "tag \<in> set flight"
  shows "\<exists>i < length slots. sl_armed (slots ! i) \<and> sl_used (slots ! i) \<and> tag = ud i (sl_gen (slots ! i))"
  using assms slot_ok_nth [of slots] by (auto simp: slots_inv_def armed_tags_def slot_ok_def)

lemma complete_inv [inv_step]:
  assumes "slots_inv (rc_slots c) flight" and "tag \<in> set flight" and "reap_all [(tag, result, staging)] c = Some c'"
  shows "slots_inv (rc_slots c') (remove1 tag flight)"
proof -
  obtain i where i: "i < length (rc_slots c)" "sl_armed (rc_slots c ! i)" "sl_used (rc_slots c ! i)"
    and tag: "tag = ud i (sl_gen (rc_slots c ! i))"
    using armed_tag_slot [OF assms(1,2)] by blast
  have len: "length (rc_slots c) \<le> 2 ^ 24" using assms(1) by (simp add: slots_inv_def MAX_RING_SURFACES_def)
  obtain layout es where "route (rc_slots c) staging tag result = Some (layout, (rc_slots c)[i := completed (rc_slots c ! i) es result])"
    and es: "length es \<le> 4"
    using route_live [OF i(1) len i(3)] unfolding tag by blast
  then have c': "rc_slots c' = (rc_slots c)[i := completed (rc_slots c ! i) es result]" using assms(3) by auto
  have ok: "slot_ok (rc_slots c ! i)" using assms(1) i(1) by (simp add: slots_inv_def slot_ok_nth)
  then have "slot_ok (completed (rc_slots c ! i) es result)"
    using es i by (auto simp: slot_ok_def completed_def SLOT_QUEUE_CAP_def)
  moreover have "\<not> sl_armed (completed (rc_slots c ! i) es result)" by (simp add: completed_def)
  note armed_tags_done [OF i(1) len i(2) this]
  ultimately show ?thesis using assms(1) by (auto simp: c' tag slots_inv_def list_all_update)
qed

lemma ring_step_inv: "ring_step s s' \<Longrightarrow> ring_inv s \<Longrightarrow> ring_inv s'"
proof (cases rule: ring_step.cases)
qed (auto simp: ring_inv_slots core_leave_def take_layout_hint_def simp del: reap_all.simps intro: inv_step)

lemma ring_init_inv: "ring_inv ring_init"
proof -
  have "armed_tags (replicate 48 free_slot) = {}" by (auto simp: armed_tags_def free_slot_def)
  moreover have "slot_ok free_slot" by (simp add: slot_ok_def free_slot_def)
  ultimately show ?thesis by (simp add: ring_inv_def ring_init_def new_slots_def MAX_RING_SURFACES_def list_all_iff)
qed

lemma ring_reach_inv: "ring_reach s \<Longrightarrow> ring_inv s"
  by (induction rule: ring_reach.induct) (auto intro: ring_init_inv ring_step_inv)


text \<open>C4. Reads in flight and slots agree in every reachable state, whatever the kernel posts and in whatever
  order surfaces come and go. No two reads in flight share a slot, hence a region of the shared buffer; a slot that is free
  to join has no read in flight; the tag of every read in flight names the slot that armed it, in the generation
  it was armed for; and no queue grows past its cap by more than one delivery.\<close>

theorem ring_reads_exclusive:
  assumes "ring_reach s"
  shows "distinct (sy_flight s) \<and>
    set (sy_flight s) = (\<lambda>i. ud i (sl_gen (rc_slots (sy_core s) ! i))) ` {i. i < 48 \<and> sl_armed (rc_slots (sy_core s) ! i)} \<and>
    list_all (\<lambda>sl. (sl_armed sl \<longrightarrow> sl_used sl) \<and> (sl_retiring sl \<longrightarrow> sl_armed sl) \<and> length (sl_pending sl) \<le> 259) (rc_slots (sy_core s))"
proof -
  have inv: "ring_inv s" using assms by (rule ring_reach_inv)
  then have "list_all (\<lambda>sl. (sl_armed sl \<longrightarrow> sl_used sl) \<and> (sl_retiring sl \<longrightarrow> sl_armed sl) \<and> length (sl_pending sl) \<le> 259) (rc_slots (sy_core s))"
    by (auto simp: ring_inv_def list_all_iff slot_ok_def SLOT_QUEUE_CAP_def)
  with inv show ?thesis by (simp add: ring_inv_def armed_tags_def MAX_RING_SURFACES_def)
qed

definition demo_ring :: ring_sys where
  "demo_ring = ring_init\<lparr>sy_core := snd (core_join True 7 (sy_core ring_init))\<rparr>"

theorem ring_reads_exclusive_witness: "ring_reach demo_ring \<and> distinct (sy_flight demo_ring)"
proof -
  have "ring_reach demo_ring" unfolding demo_ring_def by (intro reach_step [OF reach_init] step_join)
  with ring_reads_exclusive show ?thesis by blast
qed

section \<open>What a completion delivers\<close>

text \<open>The wire form of a record.\<close>

definition event_bytes :: "event \<Rightarrow> bytes" where
  "event_bytes e = le16 (ev_kind e) @ le16 (ev_code e) @ le32 (ev_value e) @ le32 (ev_rune e) @ le16 (ev_mods e) @
     le16 (ev_flags e) @ le64 (ev_tick e)"

lemma length_event_bytes [simp]: "length (event_bytes e) = TEVENT_LEN"
  by (simp add: event_bytes_def TEVENT_LEN_def)

lemma g_at:
  "has_at d off (le16 v) \<Longrightarrow> g16 d off = Some v" "has_at d off (le32 w) \<Longrightarrow> g32 d off = Some w"
  "has_at d off (le64 x) \<Longrightarrow> g64 d off = Some x"
  using u16_field.unpack_at [of d off v] u32_field.unpack_at [of d off w] u64_field.unpack_at [of d off x]
  by (simp_all add: g16_def g32_def g64_def)

lemma read_event_bytes: "has_at d off (event_bytes e) \<Longrightarrow> read_event d off = Some e"
proof -
  assume "has_at d off (event_bytes e)"
  then have "has_at d off (le16 (ev_kind e))" "has_at d (off + 2) (le16 (ev_code e))" "has_at d (off + 4) (le32 (ev_value e))"
    "has_at d (off + 8) (le32 (ev_rune e))" "has_at d (off + 12) (le16 (ev_mods e))" "has_at d (off + 14) (le16 (ev_flags e))"
    "has_at d (off + 16) (le64 (ev_tick e))"
    by (simp_all add: event_bytes_def has_at_append add.commute numeral_eq_Suc)
  then show ?thesis by (simp only: read_event_def g_at Option.bind_lunit) simp
qed

lemma event_loop_bytes:
  "has_at d off (concat (map event_bytes es)) \<Longrightarrow>
     event_loop d (off + length es * TEVENT_LEN) off out = Some (out @ es)"
proof (induction es arbitrary: off out)
  case Nil
  then show ?case by (subst event_loop.simps) (simp add: TEVENT_LEN_def)
next
  case (Cons e es)
  then have "has_at d off (event_bytes e)" "has_at d (off + TEVENT_LEN) (concat (map event_bytes es))"
    by (simp_all add: has_at_append)
  with Cons.IH [of "off + TEVENT_LEN" "out @ [e]"] show ?case
    by (subst event_loop.simps) (simp add: read_event_bytes add.assoc)
qed

lemma layout_loop_bytes:
  "has_at d off (concat (map event_bytes es)) \<Longrightarrow>
     layout_loop d (off + length es * TEVENT_LEN) off = Some (list_ex (\<lambda>e. ev_kind e = TEV_LAYOUT) es)"
proof (induction es arbitrary: off)
  case Nil
  then show ?case by (subst layout_loop.simps) (simp add: TEVENT_LEN_def)
next
  case (Cons e es)
  then have e: "has_at d off (event_bytes e)" and "has_at d (off + TEVENT_LEN) (concat (map event_bytes es))"
    by (simp_all add: has_at_append)
  moreover have "g16 d off = Some (ev_kind e)"
    using e by (intro g_at) (simp add: event_bytes_def has_at_append)
  ultimately show ?case using Cons.IH [of "off + TEVENT_LEN"]
    by (subst layout_loop.simps) (simp add: add.assoc TEVENT_LEN_def)
qed

text \<open>C32. Events arrive whole, in order and at their own surface. When the read of a live slot completes with up to
  four records in the slot's region, exactly those records are appended to that slot's queue, the slot may be armed
  again, no other slot changes, and a layout notice among them is reported.\<close>

theorem route_delivers:
  assumes "i < length slots" and "length slots \<le> MAX_RING_SURFACES" and "sl_used (slots ! i)" and "\<not> sl_retiring (slots ! i)"
    and "es \<noteq> []" and "length es \<le> 4" and "has_at staging (i * EV_REGION) (concat (map event_bytes es))"
  shows "route slots staging (ud i (sl_gen (slots ! i))) (int (length es * TEVENT_LEN)) =
    Some (list_ex (\<lambda>e. ev_kind e = TEV_LAYOUT) es,
          slots[i := (slots ! i)\<lparr>sl_armed := False, sl_pending := sl_pending (slots ! i) @ es\<rparr>])"
proof -
  have i: "i < 2 ^ 24" using assms(1,2) by (simp add: MAX_RING_SURFACES_def)
  have "length (concat (map event_bytes es)) = length es * TEVENT_LEN" by (induction es) simp_all
  then have fit: "i * EV_REGION + length es * TEVENT_LEN \<le> length staging" using has_at_le [OF assms(7)] by simp
  have n: "min (nat (int (length es * TEVENT_LEN))) EV_CAP = length es * TEVENT_LEN" "0 < int (length es * TEVENT_LEN)"
    using assms(5,6) by (simp_all add: EV_CAP_def TEVENT_LEN_def)
  show ?thesis
    using assms(1,3,4) fit layout_loop_bytes [OF assms(7)] event_loop_bytes [OF assms(7)] n
    by (simp add: route_def ud_fields [OF i] Let_def del: of_nat_mult)
qed

definition demo_event :: event where
  "demo_event = \<lparr>ev_kind = 10, ev_code = 0, ev_value = 3, ev_rune = 0, ev_mods = 0, ev_flags = 0, ev_tick = 9\<rparr>"

theorem route_delivers_witness:
  "route (rc_slots (sy_core demo_ring)) (event_bytes demo_event) (ud 0 1) 24 =
     Some (True, (rc_slots (sy_core demo_ring))[0 := (rc_slots (sy_core demo_ring) ! 0)\<lparr>sl_armed := False, sl_pending := [demo_event]\<rparr>])"
proof -
  define slots where "slots = rc_slots (sy_core demo_ring)"
  have "position (\<lambda>s. \<not> sl_used s) new_slots = Some 0"
    by (simp add: new_slots_def MAX_RING_SURFACES_def numeral_eq_Suc free_slot_def)
  then have slots: "slots = new_slots[0 := free_slot\<lparr>sl_used := True, sl_fd := 7, sl_gen := 1\<rparr>]"
    by (simp add: slots_def demo_ring_def ring_init_def core_join_def join_def)
       (simp add: new_slots_def MAX_RING_SURFACES_def free_slot_def)
  have len: "length slots = 48" by (simp add: slots new_slots_def MAX_RING_SURFACES_def)
  then have s0: "slots ! 0 = free_slot\<lparr>sl_used := True, sl_fd := 7, sl_gen := 1\<rparr>" by (simp add: slots new_slots_def MAX_RING_SURFACES_def)
  have "has_at (event_bytes demo_event) (0 * EV_REGION) (concat (map event_bytes [demo_event]))" by (simp add: has_at_def)
  from route_delivers [of 0 slots "[demo_event]", OF _ _ _ _ _ _ this] show ?thesis
    using len s0 by (simp add: slots_def [symmetric] MAX_RING_SURFACES_def free_slot_def TEVENT_LEN_def demo_event_def TEV_LAYOUT_def)
qed


section \<open>Waiting\<close>

text \<open>No completion makes the library panic, not even one with a forged tag.\<close>

lemma route_total: "\<exists>layout slots'. route slots staging tag result = Some (layout, slots')"
proof -
  define i where "i = unat (drop_bit 40 tag)"
  define n where "n = (if result > 0 then min (nat result) EV_CAP else 0)"
  define e where "e = i * EV_REGION + n"
  note unf = route_def Let_def i_def [symmetric] n_def [symmetric] e_def [symmetric]
  show ?thesis
  proof (cases "tag AND 0xff = UD_EVENT \<and> i < length slots \<and> sl_used (slots ! i) \<and> sl_gen (slots ! i) = ucast (drop_bit 8 tag AND 0xffffffff)")
    case live: True
    show ?thesis
    proof (cases "e \<le> length staging")
      case True
      obtain layout where "layout_loop staging e (i * EV_REGION) = Some layout" using layout_loop_total [OF True] by blast
      moreover obtain out where "event_loop staging e (i * EV_REGION) (sl_pending (slots ! i)) = Some out"
        using event_loop_total [OF True] by blast
      ultimately show ?thesis using live True by (auto simp: unf)
    qed (use live in \<open>auto simp: unf\<close>)
  next
    case False
    then have "route slots staging tag result = Some (False, slots)" by (auto simp: route_def Let_def i_def [symmetric])
    then show ?thesis by blast
  qed
qed

lemma reap_all_total: "\<exists>c'. reap_all cqes c = Some c'"
proof (induction cqes arbitrary: c)
  case (Cons q cqes)
  obtain tag result staging where q: "q = (tag, result, staging)" by (cases q)
  obtain layout slots where "route (rc_slots c) staging tag result = Some (layout, slots)" using route_total by blast
  with Cons show ?case by (simp add: q)
qed simp

lemma arm_loop_all:
  assumes "list_all (\<lambda>i. i < length slots) is"
  shows "\<exists>k slots' tags'. arm_loop (\<lambda>_. True) is slots n tags = (Inr k, slots', tags') \<and> length slots' = length slots \<and>
    (\<forall>j < length slots. sl_armed (slots' ! j) \<longleftrightarrow> sl_armed (slots ! j) \<or> j \<in> set is \<and> arm_wanted (slots ! j))"
  using assms
proof (induction "is" arbitrary: slots n tags)
  case (Cons i rest)
  show ?case
  proof (cases "arm_wanted (slots ! i)")
    case True
    define s where "s = slots[i := (slots ! i)\<lparr>sl_armed := True\<rparr>]"
    have i: "i < length slots" and len: "length s = length slots" using Cons.prems by (simp_all add: s_def)
    obtain k slots' tags' where "arm_loop (\<lambda>_. True) rest s (n + 1) (tags @ [ud i (sl_gen (slots ! i))]) = (Inr k, slots', tags')"
      "length slots' = length s"
      "\<forall>j < length s. sl_armed (slots' ! j) \<longleftrightarrow> sl_armed (s ! j) \<or> j \<in> set rest \<and> arm_wanted (s ! j)"
      using Cons.IH [of s "n + 1" "tags @ [ud i (sl_gen (slots ! i))]"] Cons.prems len by auto
    moreover have "sl_armed (s ! j) \<longleftrightarrow> sl_armed (slots ! j) \<or> j = i" "arm_wanted (s ! j) \<longleftrightarrow> arm_wanted (slots ! j) \<and> j \<noteq> i" for j
      using i by (auto simp: s_def nth_list_update arm_wanted_def)
    ultimately show ?thesis using True len by (auto simp: s_def [symmetric])
  next
    case False
    then show ?thesis using Cons.IH [of slots n tags] Cons.prems by auto
  qed
qed simp

text \<open>C27. A blocking wait never spins and never wedges on a ring that cannot wake. With the kernel accepting its
  calls, \<open>wait\<close> reports the ring closed exactly when no read is in flight and no slot wants one: every
  surface has gone, has ended, or has a full queue. In every other case it enters the kernel and
  delivers what was posted, and no completion, forged tags included, makes it panic.\<close>

theorem wait_closed_exact:
  "\<exists>c'. pump (\<lambda>_. True) True cqes True c =
     Some (if list_all (\<lambda>s. \<not> sl_armed s \<and> \<not> arm_wanted s) (rc_slots c) then Inl Closed else Inr (), c')"
proof -
  obtain k slots tags where run: "arm_all (\<lambda>_. True) (rc_slots c) = (Inr k, slots, tags)" and len: "length slots = length (rc_slots c)"
    and nth: "\<forall>j < length (rc_slots c). sl_armed (slots ! j) \<longleftrightarrow> sl_armed (rc_slots c ! j) \<or> arm_wanted (rc_slots c ! j)"
    using arm_loop_all [of "rc_slots c" "[0..<length (rc_slots c)]" 0 "[]"] by (fastforce simp: arm_all_def list_all_iff)
  have "any_armed slots \<longleftrightarrow> \<not> list_all (\<lambda>s. \<not> sl_armed s \<and> \<not> arm_wanted s) (rc_slots c)"
    using len nth by (auto simp: any_armed_def list_ex_length list_all_length)
  moreover obtain c' where "reap_all cqes (c\<lparr>rc_slots := slots\<rparr>) = Some c'" using reap_all_total by blast
  ultimately show ?thesis by (simp add: pump_def run)
qed


end
