(* ===== verification/Shell_Jobs.thy ===== *)
theory Shell_Jobs
  imports Rust_Text "HOL-Library.Multiset"
begin

text \<open>
  The background-job table of the \<open>ut\<close> shell (\<open>usr/utopia/libutopia/src/eval/jobs.rs\<close>). A job is a
  pipeline of processes; the shell's reaper reports exits to the table, which decides when a job is done and
  reports it. The overflow of a job number is a panic, \<^const>\<open>None\<close>.
\<close>

unbundle bit_operations_syntax

record job_pid =
  jp_pid :: i32
  jp_reaped :: bool
  jp_status :: i32

record job =
  jb_spec :: u32
  jb_cmd :: string
  jb_pids :: "job_pid list"
  jb_notified :: bool
  jb_pgid :: u64
  jb_stopped :: bool

type_synonym job_table = "job list"

section \<open>Jobs\<close>

definition last_pid :: "job \<Rightarrow> i32 option" where
  "last_pid j = (if jb_pids j = [] then None else Some (jp_pid (jb_pids j ! (length (jb_pids j) - 1))))"

definition is_running :: "job \<Rightarrow> bool" where
  "is_running j = list_ex (\<lambda>p. \<not> jp_reaped p) (jb_pids j)"

definition is_complete :: "job \<Rightarrow> bool" where
  "is_complete j = list_all jp_reaped (jb_pids j)"

section \<open>The table\<close>

definition table_new :: job_table where
  "table_new = []"

text \<open>\<open>Iterator::max\<close> over the specs.\<close>

fun max_spec :: "u32 list \<Rightarrow> u32 option" where
  "max_spec [] = None"
| "max_spec (n # ns) = (case max_spec ns of None \<Rightarrow> Some n | Some m \<Rightarrow> Some (max n m))"

definition fresh_pid :: "i32 \<Rightarrow> job_pid" where
  "fresh_pid pid = \<lparr>jp_pid = pid, jp_reaped = False, jp_status = 0\<rparr>"

definition add_job :: "i32 list \<Rightarrow> string \<Rightarrow> job_table \<Rightarrow> (u32 \<times> job_table) option" where
  "add_job pids cmd t =
     (if pids = [] then Some (0, t)
      else do {
        spec \<leftarrow> (case max_spec (map jb_spec t) of
                   None \<Rightarrow> Some 1
                 | Some m \<Rightarrow> if m = - 1 then None else Some (m + 1));
        Some (spec, t @ [\<lparr>jb_spec = spec, jb_cmd = cmd, jb_pids = map fresh_pid pids,
                          jb_notified = False, jb_pgid = 0, jb_stopped = False\<rparr>])
      })"

text \<open>\<open>find\<close> on the specs, mutable: the first job with the spec is updated.\<close>

fun update_job :: "u32 \<Rightarrow> (job \<Rightarrow> job) \<Rightarrow> job_table \<Rightarrow> job_table" where
  "update_job spec f [] = []"
| "update_job spec f (j # js) = (if jb_spec j = spec then f j # js else j # update_job spec f js)"

definition find_job :: "u32 \<Rightarrow> job_table \<Rightarrow> job option" where
  "find_job spec t = find (\<lambda>j. jb_spec j = spec) t"

definition set_pgid :: "u32 \<Rightarrow> u64 \<Rightarrow> job_table \<Rightarrow> job_table" where
  "set_pgid spec pgid t = update_job spec (\<lambda>j. j\<lparr>jb_pgid := pgid\<rparr>) t"

definition pgid_of :: "u32 \<Rightarrow> job_table \<Rightarrow> u64 option" where
  "pgid_of spec t = map_option jb_pgid (find_job spec t)"

definition set_stopped :: "u32 \<Rightarrow> bool \<Rightarrow> job_table \<Rightarrow> job_table" where
  "set_stopped spec stopped t = update_job spec (\<lambda>j. j\<lparr>jb_stopped := stopped\<rparr>) t"

definition is_stopped :: "u32 \<Rightarrow> job_table \<Rightarrow> bool" where
  "is_stopped spec t = (case find_job spec t of None \<Rightarrow> False | Some j \<Rightarrow> jb_stopped j)"

definition job_live_pids :: "job \<Rightarrow> i32 list" where
  "job_live_pids j = map jp_pid (filter (\<lambda>p. \<not> jp_reaped p) (jb_pids j))"

definition live_pids_of :: "u32 \<Rightarrow> job_table \<Rightarrow> i32 list option" where
  "live_pids_of spec t = map_option job_live_pids (find_job spec t)"

text \<open>The two loops of \<open>mark_reaped\<close>; the flag is the early return.\<close>

fun reap_pids :: "i32 \<Rightarrow> i32 \<Rightarrow> job_pid list \<Rightarrow> bool \<times> job_pid list" where
  "reap_pids pid status [] = (False, [])"
| "reap_pids pid status (p # ps) =
     (if jp_pid p = pid \<and> \<not> jp_reaped p then (True, p\<lparr>jp_reaped := True, jp_status := status\<rparr> # ps)
      else case reap_pids pid status ps of (found, ps') \<Rightarrow> (found, p # ps'))"

fun mark_reaped :: "i32 \<Rightarrow> i32 \<Rightarrow> job_table \<Rightarrow> job_table" where
  "mark_reaped pid status [] = []"
| "mark_reaped pid status (j # js) =
     (case reap_pids pid status (jb_pids j) of (found, ps) \<Rightarrow>
        j\<lparr>jb_pids := ps\<rparr> # (if found then js else mark_reaped pid status js))"

definition live_pids :: "job_table \<Rightarrow> i32 list" where
  "live_pids t = concat (map job_live_pids t)"

definition done_line :: "job \<Rightarrow> string" where
  "done_line j = ''['' @ show_nat (unat (jb_spec j)) @ '']+ Done  '' @ jb_cmd j @ [CHR 10]"

fun done_loop :: "job_table \<Rightarrow> string list \<times> job_table" where
  "done_loop [] = ([], [])"
| "done_loop (j # js) =
     (case done_loop js of (lines, js') \<Rightarrow>
        if is_complete j \<and> \<not> jb_notified j then (done_line j # lines, j\<lparr>jb_notified := True\<rparr> # js')
        else (lines, j # js'))"

definition take_done_notifications :: "job_table \<Rightarrow> string list \<times> job_table" where
  "take_done_notifications t =
     (case done_loop t of (lines, t') \<Rightarrow> (lines, filter (\<lambda>j. \<not> (is_complete j \<and> jb_notified j)) t'))"

definition current_spec :: "job_table \<Rightarrow> u32 option" where
  "current_spec t = max_spec (map jb_spec t)"

definition previous_spec :: "job_table \<Rightarrow> u32 option" where
  "previous_spec t =
     (let specs = sort (map jb_spec t)
      in if length specs \<ge> 2 then Some (specs ! (length specs - 2)) else None)"

definition spec_pids :: "u32 \<Rightarrow> job_table \<Rightarrow> i32 list option" where
  "spec_pids spec t = map_option (\<lambda>j. map jp_pid (jb_pids j)) (find_job spec t)"

definition cmd_of :: "u32 \<Rightarrow> job_table \<Rightarrow> string option" where
  "cmd_of spec t = map_option jb_cmd (find_job spec t)"

definition remove_job :: "u32 \<Rightarrow> job_table \<Rightarrow> bool \<times> job_table" where
  "remove_job spec t =
     (let t' = filter (\<lambda>j. jb_spec j \<noteq> spec) t in (length t' \<noteq> length t, t'))"

definition status_of_packed :: "i32 \<Rightarrow> i32" where
  "status_of_packed st =
     (let sig = st AND 0x7f
      in if sig \<noteq> 0 \<and> sig \<noteq> 0x7f then 128 + sig else signed_drop_bit 8 st AND 0xff)"

section \<open>Sessions\<close>

text \<open>
  A session is any sequence of the operations that change the table. Its history records the \<open>Done\<close> lines that
  the launched jobs would print, the lines printed, and those of the jobs that \<open>remove\<close> consumed silently.
\<close>

datatype job_op =
    Launch "i32 list" string | Set_Pgid u32 u64 | Set_Stopped u32 bool
  | Reaped i32 i32 | Prompt | Forget u32

record session =
  ss_table :: job_table
  ss_launched :: "string multiset"
  ss_reported :: "string multiset"
  ss_removed :: "string multiset"

definition session_init :: session where
  "session_init = \<lparr>ss_table = table_new, ss_launched = {#}, ss_reported = {#}, ss_removed = {#}\<rparr>"

definition job_lines :: "job_table \<Rightarrow> string multiset" where
  "job_lines t = mset (map done_line t)"

fun session_step :: "job_op \<Rightarrow> session \<Rightarrow> session option" where
  "session_step (Launch pids cmd) s =
     (case add_job pids cmd (ss_table s) of
        None \<Rightarrow> None
      | Some (spec, t) \<Rightarrow> Some (s\<lparr>ss_table := t,
          ss_launched := ss_launched s + job_lines (drop (length (ss_table s)) t)\<rparr>))"
| "session_step (Set_Pgid spec g) s = Some (s\<lparr>ss_table := set_pgid spec g (ss_table s)\<rparr>)"
| "session_step (Set_Stopped spec b) s = Some (s\<lparr>ss_table := set_stopped spec b (ss_table s)\<rparr>)"
| "session_step (Reaped pid st) s = Some (s\<lparr>ss_table := mark_reaped pid st (ss_table s)\<rparr>)"
| "session_step Prompt s =
     (case take_done_notifications (ss_table s) of (lines, t) \<Rightarrow>
        Some (s\<lparr>ss_table := t, ss_reported := ss_reported s + mset lines\<rparr>))"
| "session_step (Forget spec) s =
     Some (s\<lparr>ss_table := snd (remove_job spec (ss_table s)),
             ss_removed := ss_removed s + job_lines (filter (\<lambda>j. jb_spec j = spec) (ss_table s))\<rparr>)"

fun run_session :: "job_op list \<Rightarrow> session \<Rightarrow> session option" where
  "run_session [] s = Some s"
| "run_session (op # ops) s = (case session_step op s of None \<Rightarrow> None | Some s' \<Rightarrow> run_session ops s')"

definition jobs_ok :: "nat \<Rightarrow> job_table \<Rightarrow> bool" where
  "jobs_ok n t = (sorted_wrt (<) (map jb_spec t) \<and>
     list_all (\<lambda>j. 1 \<le> jb_spec j \<and> unat (jb_spec j) \<le> n \<and> jb_pids j \<noteq> [] \<and> \<not> jb_notified j) t)"

definition session_ok :: "nat \<Rightarrow> session \<Rightarrow> bool" where
  "session_ok n s = (jobs_ok n (ss_table s) \<and>
     ss_launched s = job_lines (ss_table s) + ss_reported s + ss_removed s)"

lemma job_lines_simps [simp]:
  "job_lines [] = {#}" "job_lines (j # t) = add_mset (done_line j) (job_lines t)"
  "job_lines (t @ t') = job_lines t + job_lines t'"
  by (simp_all add: job_lines_def)

lemma jobs_ok_mono: "jobs_ok n t \<Longrightarrow> n \<le> m \<Longrightarrow> jobs_ok m t"
  by (auto simp: jobs_ok_def list_all_iff intro: le_trans)

lemma max_spec_None [simp]: "max_spec ns = None \<longleftrightarrow> ns = []"
  by (cases ns) (auto split: option.splits)

lemma max_spec_Some: "max_spec ns = Some m \<Longrightarrow> m \<in> set ns \<and> (\<forall>n \<in> set ns. n \<le> m)"
proof (induction ns arbitrary: m)
  case (Cons n ns)
  then show ?case
    by (cases "max_spec ns") (auto simp: max_def split: if_splits intro: order_trans)
qed simp

text \<open>Updates that keep a job's number, command and notification and its having processes.\<close>

definition job_like :: "job \<Rightarrow> job \<Rightarrow> bool" where
  "job_like j j' = (jb_spec j' = jb_spec j \<and> jb_cmd j' = jb_cmd j \<and> jb_notified j' = jb_notified j \<and>
     (jb_pids j' = [] \<longleftrightarrow> jb_pids j = []))"

lemma job_like_refl [simp]: "job_like j j"
  by (simp add: job_like_def)

lemma done_line_like: "job_like j j' \<Longrightarrow> done_line j' = done_line j"
  by (simp add: job_like_def done_line_def)

lemma list_job_like:
  assumes "list_all2 job_like t t'"
  shows "map jb_spec t' = map jb_spec t" and "job_lines t' = job_lines t"
    and "jobs_ok n t \<Longrightarrow> jobs_ok n t'"
proof -
  show m: "map jb_spec t' = map jb_spec t"
    using assms by induction (simp_all add: job_like_def)
  show "job_lines t' = job_lines t"
    using assms by induction (simp_all add: done_line_like)
  have "list_all P t \<Longrightarrow> list_all P t'" if "\<And>j j'. job_like j j' \<Longrightarrow> P j \<Longrightarrow> P j'" for P
    using assms that by induction auto
  then show "jobs_ok n t \<Longrightarrow> jobs_ok n t'"
    unfolding jobs_ok_def m by (auto simp: job_like_def)
qed

lemma update_like: "(\<And>j. job_like j (f j)) \<Longrightarrow> list_all2 job_like t (update_job spec f t)"
  by (induction t) (simp_all add: list_all2_refl)

lemma reap_pids_nil [simp]: "snd (reap_pids pid st ps) = [] \<longleftrightarrow> ps = []"
  by (cases ps) (auto split: prod.splits)

lemma reaped_like: "list_all2 job_like t (mark_reaped pid st t)"
proof (induction t)
  case (Cons j t)
  obtain f ps where r: "reap_pids pid st (jb_pids j) = (f, ps)" by force
  then have "ps = [] \<longleftrightarrow> jb_pids j = []" using reap_pids_nil [of pid st "jb_pids j"] by simp
  with Cons r show ?case by (auto simp: job_like_def list_all2_refl)
qed simp

lemma jobs_ok_filter: "jobs_ok n t \<Longrightarrow> jobs_ok (Suc n) (filter P t)"
  by (auto simp: jobs_ok_def list_all_iff sorted_wrt_filter sorted_wrt_map)

text \<open>What a prompt does: exactly the finished jobs are reported, in table order, and leave the table.\<close>

lemma take_done_exact:
  "take_done_notifications t =
     (map done_line (filter (\<lambda>j. is_complete j \<and> \<not> jb_notified j) t), filter (\<lambda>j. \<not> is_complete j) t)"
proof -
  have "fst (done_loop t) = map done_line (filter (\<lambda>j. is_complete j \<and> \<not> jb_notified j) t) \<and>
        filter (\<lambda>j. \<not> (is_complete j \<and> jb_notified j)) (snd (done_loop t)) = filter (\<lambda>j. \<not> is_complete j) t"
  proof (induction t)
    case (Cons j t)
    then show ?case by (cases "done_loop t") (auto simp: is_complete_def)
  qed simp
  then show ?thesis by (auto simp: take_done_notifications_def split: prod.splits)
qed

lemma job_lines_partition: "job_lines t = job_lines (filter P t) + job_lines (filter (\<lambda>j. \<not> P j) t)"
  by (induction t) simp_all

lemma unat_max_u32: "unat (- 1 :: u32) = 4294967295"
  by (simp add: unsigned_minus_1_eq_mask mask_eq_exp_minus_1)

lemma jobs_ok_snoc:
  assumes "jobs_ok n t" "n < 4294967295" "pids \<noteq> []"
  obtains j where "add_job pids cmd t = Some (jb_spec j, t @ [j])" and "jobs_ok (Suc n) (t @ [j])"
proof -
  define sp :: u32 where "sp = (case max_spec (map jb_spec t) of None \<Rightarrow> 1 | Some m \<Rightarrow> m + 1)"
  define j where "j = \<lparr>jb_spec = sp, jb_cmd = cmd, jb_pids = map fresh_pid pids,
                        jb_notified = False, jb_pgid = 0, jb_stopped = False\<rparr>"
  have top: "m \<noteq> - 1 \<and> unat (m + 1) = Suc (unat m) \<and> unat m \<le> n" if "max_spec (map jb_spec t) = Some m" for m
  proof -
    have "m \<in> jb_spec ` set t" using max_spec_Some [OF that] by simp
    then have "unat m \<le> n" using assms(1) by (auto simp: jobs_ok_def list_all_iff)
    with assms(2) show ?thesis using unat_max_u32 by (auto simp: unat_word_ariths)
  qed
  have "add_job pids cmd t = Some (sp, t @ [j])"
    using assms(3) top by (auto simp: add_job_def sp_def j_def split: option.splits)
  moreover have "jobs_ok (Suc n) (t @ [j])"
  proof -
    have lt: "jb_spec i < sp" if "i \<in> set t" for i
    proof (cases "max_spec (map jb_spec t)")
      case (Some m)
      then have "jb_spec i \<le> m" using max_spec_Some [OF Some] that by simp
      with Some top [OF Some] show ?thesis by (simp add: sp_def word_less_nat_alt word_le_nat_alt)
    qed (use that in simp)
    have "1 \<le> sp \<and> unat sp \<le> Suc n"
      using top by (auto simp: sp_def word_le_nat_alt split: option.splits)
    with jobs_ok_mono [OF assms(1), of "Suc n"] lt assms(3) show ?thesis
      by (auto simp: jobs_ok_def j_def sorted_wrt_append)
  qed
  ultimately show ?thesis using that [of j] by (simp add: j_def)
qed


lemma session_ok_like:
  "list_all2 job_like (ss_table s) t \<Longrightarrow> session_ok n s \<Longrightarrow> session_ok (Suc n) (s\<lparr>ss_table := t\<rparr>)"
  using list_job_like [of "ss_table s" t] jobs_ok_mono [of n t "Suc n"] by (simp add: session_ok_def)

lemma session_ok_step:
  assumes "session_ok n s" "n < 4294967295"
  shows "\<exists>s'. session_step op s = Some s' \<and> session_ok (Suc n) s'"
proof (cases op)
  case (Launch pids cmd)
  show ?thesis
  proof (cases "pids = []")
    case True
    then show ?thesis using assms Launch jobs_ok_mono [of n "ss_table s" "Suc n"]
      by (simp add: add_job_def session_ok_def)
  next
    case False
    obtain j where "add_job pids cmd (ss_table s) = Some (jb_spec j, ss_table s @ [j])"
      and "jobs_ok (Suc n) (ss_table s @ [j])"
      using jobs_ok_snoc [of n "ss_table s" pids cmd] assms False by (auto simp: session_ok_def)
    then show ?thesis using assms Launch by (simp add: session_ok_def)
  qed
next
  case (Set_Pgid spec g)
  have "list_all2 job_like (ss_table s) (set_pgid spec g (ss_table s))"
    unfolding set_pgid_def by (rule update_like) (simp add: job_like_def)
  from session_ok_like [OF this assms(1)] show ?thesis using Set_Pgid by simp
next
  case (Set_Stopped spec b)
  have "list_all2 job_like (ss_table s) (set_stopped spec b (ss_table s))"
    unfolding set_stopped_def by (rule update_like) (simp add: job_like_def)
  from session_ok_like [OF this assms(1)] show ?thesis using Set_Stopped by simp
next
  case (Reaped pid st)
  from session_ok_like [OF reaped_like assms(1)] show ?thesis using Reaped by simp
next
  case Prompt
  have "filter (\<lambda>j. is_complete j \<and> \<not> jb_notified j) (ss_table s) = filter is_complete (ss_table s)"
    using assms by (auto simp: session_ok_def jobs_ok_def list_all_iff intro: filter_cong)
  then show ?thesis using assms Prompt job_lines_partition [of "ss_table s" is_complete]
    by (simp add: session_ok_def take_done_exact job_lines_def jobs_ok_filter)
next
  case (Forget spec)
  then show ?thesis using assms job_lines_partition [of "ss_table s" "\<lambda>j. jb_spec j = spec"]
    by (simp add: session_ok_def remove_job_def Let_def jobs_ok_filter)
qed

lemma session_ok_run:
  "session_ok n s \<Longrightarrow> n + length ops \<le> 4294967295 \<Longrightarrow>
     \<exists>s'. run_session ops s = Some s' \<and> session_ok (n + length ops) s'"
proof (induction ops arbitrary: n s)
  case (Cons op ops)
  then obtain s' where "session_step op s = Some s'" "session_ok (Suc n) s'"
    using session_ok_step [of n s op] by auto
  then show ?case using Cons.IH [of "Suc n" s'] Cons.prems by simp
qed simp

text \<open>C9. Any session of fewer than \<open>2 ^ 32\<close> operations runs without a panic. Afterwards the job numbers in the
  table are positive and strictly increasing, so no number is used twice, each job has a process, and every job
  launched is accounted for exactly once: it is still in the table, or it was reported once, or it was removed.\<close>

theorem jobs_accounted:
  assumes "length ops < 2 ^ 32"
  shows "\<exists>s. run_session ops session_init = Some s \<and>
           sorted_wrt (<) (map jb_spec (ss_table s)) \<and>
           list_all (\<lambda>j. 1 \<le> jb_spec j \<and> jb_pids j \<noteq> []) (ss_table s) \<and>
           ss_launched s = job_lines (ss_table s) + ss_reported s + ss_removed s"
proof -
  have "session_ok 0 session_init" by (simp add: session_ok_def session_init_def table_new_def jobs_ok_def)
  from session_ok_run [OF this, of ops] show ?thesis
    using assms by (fastforce simp: session_ok_def jobs_ok_def list_all_iff)
qed

definition demo_session :: "job_op list" where
  "demo_session = [Launch [7, 8] ''a | b'', Launch [9] ''c'', Reaped 8 0, Prompt, Reaped 7 1, Prompt, Forget 2]"

theorem jobs_accounted_witness:
  "\<exists>s. run_session demo_session session_init = Some s \<and>
     ss_launched s = job_lines (ss_table s) + ss_reported s + ss_removed s"
  using jobs_accounted [of demo_session] by (auto simp: demo_session_def)

section \<open>The live processes\<close>

lemma job_live_reap:
  "reap_pids pid st ps = (f, ps') \<Longrightarrow>
     f = (pid \<in> set (map jp_pid (filter (\<lambda>p. \<not> jp_reaped p) ps))) \<and>
     map jp_pid (filter (\<lambda>p. \<not> jp_reaped p) ps') = remove1 pid (map jp_pid (filter (\<lambda>p. \<not> jp_reaped p) ps))"
  by (induction ps arbitrary: f ps') (auto split: if_splits prod.splits)

lemma live_mark_reaped: "live_pids (mark_reaped pid st t) = remove1 pid (live_pids t)"
proof (induction t)
  case (Cons j t)
  obtain f ps where r: "reap_pids pid st (jb_pids j) = (f, ps)" by force
  from job_live_reap [OF r] Cons r show ?case
    by (auto simp: live_pids_def job_live_pids_def remove1_append remove1_idem)
qed (simp add: live_pids_def)

lemma live_update: "(\<And>j. job_live_pids (f j) = job_live_pids j) \<Longrightarrow> live_pids (update_job spec f t) = live_pids t"
  by (induction t) (simp_all add: live_pids_def)

lemma live_complete: "is_complete j \<Longrightarrow> job_live_pids j = []"
  by (auto simp: is_complete_def job_live_pids_def list_all_iff)

lemma live_take_done: "live_pids (snd (take_done_notifications t)) = live_pids t"
  unfolding take_done_exact by (induction t) (simp_all add: live_pids_def live_complete)

lemma live_add: "add_job pids cmd t = Some (spec, t') \<Longrightarrow> live_pids t' = live_pids t @ pids"
  by (auto simp: add_job_def live_pids_def job_live_pids_def fresh_pid_def comp_def
      split: if_splits Option.bind_splits)

text \<open>The reaper's view of a session: the processes launched and not yet reaped.\<close>

fun live_step :: "job_op \<Rightarrow> i32 list \<Rightarrow> i32 list" where
  "live_step (Launch pids cmd) ps = ps @ pids"
| "live_step (Reaped pid st) ps = remove1 pid ps"
| "live_step op ps = ps"

lemma live_step_refines:
  assumes "session_step op s = Some s'" and "\<And>spec. op \<noteq> Forget spec"
  shows "live_pids (ss_table s') = live_step op (live_pids (ss_table s))"
proof (cases op)
  case (Launch pids cmd)
  then show ?thesis using assms by (auto split: option.splits dest: live_add)
next
  case Prompt
  then show ?thesis using assms live_take_done [of "ss_table s"] by (auto split: prod.splits)
qed (use assms in \<open>auto simp: live_mark_reaped set_pgid_def set_stopped_def live_update job_live_pids_def\<close>)

text \<open>C35. The processes the prompt's reaper polls are exactly those launched and not yet reaped, in launch order,
  through any sequence of launches, reaps, prompts and changes of a job's group or stopped state: reaping takes
  away one occurrence of the process, and reporting jobs never loses a live one.\<close>

theorem live_pids_refined:
  assumes "run_session ops session_init = Some s" and "list_all (\<lambda>op. \<forall>spec. op \<noteq> Forget spec) ops"
  shows "live_pids (ss_table s) = fold live_step ops []"
proof -
  have "live_pids (ss_table s) = fold live_step ops (live_pids (ss_table s0))"
    if "run_session ops s0 = Some s" for s0
    using that assms(2)
  proof (induction ops arbitrary: s0)
    case (Cons op ops)
    then obtain s1 where "session_step op s0 = Some s1" "run_session ops s1 = Some s"
      by (auto split: option.splits)
    with Cons live_step_refines [of op s0 s1] show ?case by simp
  qed simp
  from this [OF assms(1)] show ?thesis by (simp add: session_init_def table_new_def live_pids_def)
qed

theorem live_pids_refined_witness:
  "\<exists>s. run_session (take 6 demo_session) session_init = Some s \<and> live_pids (ss_table s) = [9]"
proof -
  obtain s where s: "run_session (take 6 demo_session) session_init = Some s"
    using session_ok_run [of 0 session_init "take 6 demo_session"]
    by (auto simp: demo_session_def session_ok_def session_init_def table_new_def jobs_ok_def)
  have "live_pids (ss_table s) = fold live_step (take 6 demo_session) []"
    by (rule live_pids_refined [OF s]) (simp add: demo_session_def)
  then show ?thesis using s by (simp add: demo_session_def)
qed

text \<open>A job marked stopped whose processes are then reaped is reported like any other.\<close>

lemma stopped_job_reported:
  "fst (take_done_notifications (mark_reaped 7 137 (set_stopped 1 True
     [\<lparr>jb_spec = 1, jb_cmd = ''a'', jb_pids = [fresh_pid 7], jb_notified = False, jb_pgid = 7, jb_stopped = False\<rparr>])))
   \<noteq> []"
  by (simp add: take_done_exact set_stopped_def fresh_pid_def is_complete_def)

end
