(* ===== verification/Shell_Glob.thy ===== *)
theory Shell_Glob
  imports Rust_Text "HOL-Library.Char_ord" "HOL-Library.List_Lexorder"
begin

text \<open>
  Pattern matching and pathname expansion of the \<open>ut\<close> shell (\<open>usr/utopia/libutopia/src/eval/glob.rs\<close> and
  \<open>pathname.rs\<close>). A Rust string is its bytes, one \<open>char\<close> each; the loops over its characters look only for ASCII ones,
  and a byte of a longer character is never ASCII, so they are loops over bytes here. An index out of
  range is \<^const>\<open>None\<close>. The file system is a parameter of the walk.
\<close>

section \<open>The matcher\<close>

text \<open>The loop of \<open>find_class_end\<close>, from index \<open>i\<close>.\<close>

function class_end_loop :: "string \<Rightarrow> nat \<Rightarrow> nat option" where
  "class_end_loop pat i =
     (if i < length pat then
        (if pat ! i = CHR '']'' then Some i
         else if pat ! i = CHR 0x5C then class_end_loop pat (i + 2)
         else class_end_loop pat (i + 1))
      else None)"
  by auto
termination by (relation "measure (\<lambda>(pat, i). length pat - i)") auto

declare class_end_loop.simps [simp del]

definition find_class_end :: "string \<Rightarrow> nat \<Rightarrow> nat option" where
  "find_class_end pat start =
     (let i = start + 1;
          i = (if i < length pat \<and> pat ! i = CHR ''!'' then i + 1 else i);
          i = (if i < length pat \<and> pat ! i = CHR '']'' then i + 1 else i)
      in class_end_loop pat i)"

lemma class_end_ge: "class_end_loop pat i = Some e \<Longrightarrow> i \<le> e \<and> e < length pat"
  by (induction pat i rule: class_end_loop.induct) (subst (asm) class_end_loop.simps, auto split: if_splits)

lemma find_class_end_less [termination_simp]: "find_class_end pat pi = Some e \<Longrightarrow> pi < e \<and> e < length pat"
  by (auto simp: find_class_end_def Let_def dest!: class_end_ge split: if_splits)

definition class_member :: "string \<Rightarrow> nat \<Rightarrow> char \<times> nat" where
  "class_member cls i =
     (if cls ! i = CHR 0x5C \<and> i + 1 < length cls then (cls ! (i + 1), i + 2) else (cls ! i, i + 1))"

lemma class_member_less [termination_simp]: "class_member cls i = (c, j) \<Longrightarrow> i < j"
  by (auto simp: class_member_def split: if_splits)

function char_class_loop :: "string \<Rightarrow> char \<Rightarrow> nat \<Rightarrow> bool" where
  "char_class_loop cls c i =
     (if i < length cls then
        (case class_member cls i of (lo, next) \<Rightarrow>
           if next + 1 < length cls \<and> cls ! next = CHR ''-'' then
             (case class_member cls (next + 1) of (hi, after) \<Rightarrow>
                if c \<ge> min lo hi \<and> c \<le> max lo hi then True else char_class_loop cls c after)
           else if lo = c then True
           else char_class_loop cls c next)
      else False)"
  by auto
termination
  by (relation "measure (\<lambda>(cls, c, i). length cls - i)") (auto dest!: class_member_less [OF sym])

definition char_class_match :: "string \<Rightarrow> char \<Rightarrow> bool" where
  "char_class_match cls c = char_class_loop cls c 0"

text \<open>The main loop of \<open>match_bytes\<close>: positions in the pattern and in the input, the pattern position after the last
  star and the input position where that star began to consume.\<close>

definition stars_only :: "string \<Rightarrow> bool" where
  "stars_only pat = list_all (\<lambda>c. c = CHR ''*'') pat"

function glob_loop :: "string \<Rightarrow> string \<Rightarrow> nat \<Rightarrow> nat \<Rightarrow> nat option \<Rightarrow> nat \<Rightarrow> bool option" where
  "glob_loop pat inp pi ii star_pat star_inp =
     (if \<not> ii < length inp then Some (stars_only (drop pi pat))
      else if \<not> pi < length pat then
        (case star_pat of
           Some retry \<Rightarrow>
             if \<not> star_inp < length inp then None
             else if inp ! star_inp = CHR ''/'' then Some False
             else glob_loop pat inp retry (star_inp + 1) star_pat (star_inp + 1)
         | None \<Rightarrow> Some False)
      else if pat ! pi = CHR ''*'' then glob_loop pat inp (pi + 1) ii (Some (pi + 1)) ii
      else if pat ! pi = CHR ''?'' then
        (if inp ! ii = CHR ''/'' then
           (case star_pat of
              Some retry \<Rightarrow>
                if star_inp + 1 < length inp \<and> inp ! (star_inp + 1) = CHR ''/'' then Some False
                else glob_loop pat inp retry (star_inp + 1) star_pat (star_inp + 1)
            | None \<Rightarrow> Some False)
         else glob_loop pat inp (pi + 1) (ii + 1) star_pat star_inp)
      else if pat ! pi = CHR ''['' then
        (case find_class_end pat pi of
           None \<Rightarrow>
             if inp ! ii = CHR ''['' then glob_loop pat inp (pi + 1) (ii + 1) star_pat star_inp else Some False
         | Some class_end \<Rightarrow>
             (let class_body = drop (pi + 1) (take class_end pat);
                  (negate, body) = (if class_body \<noteq> [] \<and> class_body ! 0 = CHR ''!'' then (True, drop 1 class_body)
                                   else (False, class_body));
                  hit = char_class_match body (inp ! ii)
              in if hit \<noteq> negate then glob_loop pat inp (class_end + 1) (ii + 1) star_pat star_inp
                else (case star_pat of
                  Some retry \<Rightarrow>
                    if star_inp + 1 < length inp \<and> inp ! (star_inp + 1) = CHR ''/'' then Some False
                    else glob_loop pat inp retry (star_inp + 1) star_pat (star_inp + 1)
                | None \<Rightarrow> Some False)))
      else
        (let (c, width) = (if pat ! pi = CHR 0x5C \<and> pi + 1 < length pat then (pat ! (pi + 1), 2) else (pat ! pi, 1))
         in if c = inp ! ii then glob_loop pat inp (pi + width) (ii + 1) star_pat star_inp
            else (case star_pat of
              Some retry \<Rightarrow>
                if \<not> star_inp < length inp then None
                else if inp ! star_inp = CHR ''/'' then Some False
                else glob_loop pat inp retry (star_inp + 1) star_pat (star_inp + 1)
            | None \<Rightarrow> Some False)))"
  by pat_completeness auto
termination
  by (relation "measures [\<lambda>(pat, inp, pi, ii, sp, si). length inp - min si ii, \<lambda>(pat, inp, pi, ii, sp, si). length pat - pi]")
     (auto split: if_splits dest!: find_class_end_less)

declare char_class_loop.simps [simp del] glob_loop.simps [simp del]

definition match_bytes :: "string \<Rightarrow> string \<Rightarrow> bool option" where
  "match_bytes pat inp = glob_loop pat inp 0 0 None 0"

definition glob_matches :: "string \<Rightarrow> string \<Rightarrow> bool option" where
  "glob_matches pattern input = match_bytes pattern input"

section \<open>Reading a pattern\<close>

definition has_meta :: "string \<Rightarrow> bool" where
  "has_meta s = list_ex (\<lambda>b. b = CHR ''*'' \<or> b = CHR ''?'' \<or> b = CHR ''['') s"

fun has_unescaped_meta :: "string \<Rightarrow> bool" where
  "has_unescaped_meta [] = False"
| "has_unescaped_meta (b # bs) =
     (if b = CHR 0x5C then (case bs of [] \<Rightarrow> False | _ # rest \<Rightarrow> has_unescaped_meta rest)
      else if b = CHR ''*'' \<or> b = CHR ''?'' \<or> b = CHR ''['' then True
      else has_unescaped_meta bs)"

fun escape_backslashes :: "string \<Rightarrow> string" where
  "escape_backslashes [] = []"
| "escape_backslashes (c # cs) = (if c = CHR 0x5C then [CHR 0x5C, c] else [c]) @ escape_backslashes cs"

definition take_segment :: "string \<Rightarrow> string list \<Rightarrow> string list" where
  "take_segment cur segs = (if cur \<noteq> [] then segs @ [cur] else segs)"

fun segment_loop :: "string \<Rightarrow> string \<Rightarrow> string list \<Rightarrow> string list" where
  "segment_loop [] cur segs = take_segment cur segs"
| "segment_loop (c # cs) cur segs =
     (if c = CHR 0x5C then
        (case cs of
           [] \<Rightarrow> segment_loop [] (cur @ [CHR 0x5C]) segs
         | n # cs' \<Rightarrow>
             if n = CHR ''/'' then segment_loop cs' [] (take_segment cur segs)
             else segment_loop cs' (cur @ [CHR 0x5C, n]) segs)
      else if c = CHR ''/'' then segment_loop cs [] (take_segment cur segs)
      else segment_loop cs (cur @ [c]) segs)"

definition pattern_segments :: "string \<Rightarrow> string list" where
  "pattern_segments pattern = segment_loop pattern [] []"

definition leading_dot :: "string \<Rightarrow> bool" where
  "leading_dot segment = (take 1 segment = ''.'' \<or> take 2 segment = [CHR 0x5C, CHR ''.''])"

fun unescape :: "string \<Rightarrow> string" where
  "unescape [] = []"
| "unescape (c # cs) =
     (if c = CHR 0x5C then (case cs of [] \<Rightarrow> [CHR 0x5C] | n # cs' \<Rightarrow> n # unescape cs')
      else c # unescape cs)"

record path_pattern =
  pp_absolute :: bool
  pp_start :: string
  pp_walk :: "string list"

definition read_pattern :: "string \<Rightarrow> path_pattern option" where
  "read_pattern pattern = do {
     let absolute = (take 1 pattern = ''/'' \<or> take 2 pattern = [CHR 0x5C, CHR ''/'']);
     let segs = pattern_segments pattern;
     at \<leftarrow> position has_unescaped_meta segs;
     let prefix = map unescape (take at segs);
     Some \<lparr>pp_absolute = absolute, pp_start = (if absolute then ''/'' else []) @ join_with ''/'' prefix,
           pp_walk = drop at segs\<rparr>
   }"

fun match_any :: "string \<Rightarrow> string list \<Rightarrow> nat \<Rightarrow> nat list option" where
  "match_any pattern [] i = Some []"
| "match_any pattern (c # cs) i = do {
     hit \<leftarrow> glob_matches pattern c;
     rest \<leftarrow> match_any pattern cs (i + 1);
     Some (if hit then i # rest else rest)
   }"

section \<open>Pathname expansion\<close>

text \<open>What \<open>read_dir\<close> yields for a path: an error, or a stream of entries with their names and whether they are
  directories, which an error may cut short.\<close>

type_synonym dir_entry = "string \<times> bool"
type_synonym file_tree = "string \<Rightarrow> dir_entry option list option"

definition join_display :: "string \<Rightarrow> string \<Rightarrow> string" where
  "join_display dir name =
     (if dir = [] then name
      else if dir = ''/'' then ''/'' @ name
      else dir @ ''/'' @ name)"

definition resolve_fs :: "string \<Rightarrow> string \<Rightarrow> bool \<Rightarrow> string" where
  "resolve_fs cwd display leading_slash =
     (if leading_slash then (if display = [] then ''/'' else display)
      else if display = [] then cwd
      else if cwd = ''/'' then ''/'' @ display
      else cwd @ ''/'' @ display)"

text \<open>\<open>walk\<close> with the loop over the entries of one directory.\<close>

function walk :: "file_tree \<Rightarrow> string \<Rightarrow> bool \<Rightarrow> string \<Rightarrow> string list \<Rightarrow> string list \<Rightarrow> string list option"
  and entries_loop :: "file_tree \<Rightarrow> string \<Rightarrow> bool \<Rightarrow> string \<Rightarrow> string \<Rightarrow> string list \<Rightarrow> dir_entry option list \<Rightarrow> string list \<Rightarrow> string list option" where
  "walk fs cwd leading_slash dir_display segs out =
     (case segs of
        [] \<Rightarrow> Some out
      | seg # segs \<Rightarrow>
          (case fs (resolve_fs cwd dir_display leading_slash) of
             None \<Rightarrow> Some out
           | Some rd \<Rightarrow> entries_loop fs cwd leading_slash dir_display seg segs rd out))"
| "entries_loop fs cwd leading_slash dir_display seg segs rd out =
     (case rd of
        [] \<Rightarrow> Some out
      | None # rd \<Rightarrow> Some out
      | Some (name, is_dir) # rd \<Rightarrow>
          if take 1 name = ''.'' \<and> \<not> leading_dot seg then entries_loop fs cwd leading_slash dir_display seg segs rd out
          else do {
            hit \<leftarrow> glob_matches seg name;
            if \<not> hit then entries_loop fs cwd leading_slash dir_display seg segs rd out
            else if segs = [] then entries_loop fs cwd leading_slash dir_display seg segs rd (out @ [join_display dir_display name])
            else if is_dir then do {
              out \<leftarrow> walk fs cwd leading_slash (join_display dir_display name) segs out;
              entries_loop fs cwd leading_slash dir_display seg segs rd out
            }
            else entries_loop fs cwd leading_slash dir_display seg segs rd out
          })"
  by pat_completeness simp_all
termination
  by (relation "inv_image (less_than <*lex*> less_than) (\<lambda>x. case x of
        Inl (fs, cwd, l, d, segs, out) \<Rightarrow> (2 * length segs, 0)
      | Inr (fs, cwd, l, d, seg, segs, rd, out) \<Rightarrow> (2 * length segs + 1, length rd))") (auto simp: wf_lex_prod)

declare walk.simps [simp del] entries_loop.simps [simp del]

definition expand :: "file_tree \<Rightarrow> string \<Rightarrow> string \<Rightarrow> string list option" where
  "expand fs cwd pattern =
     (case read_pattern pattern of
        None \<Rightarrow> Some []
      | Some p \<Rightarrow> map_option sort (walk fs cwd (pp_absolute p) (pp_start p) (pp_walk p) []))"

section \<open>What a pattern means\<close>

datatype glob_tok = GStar | GAny | GClass bool "(char \<times> char) list" | GLit char

fun member_split :: "char \<Rightarrow> string \<Rightarrow> char \<times> string" where
  "member_split c [] = (c, [])"
| "member_split c (d # cs) = (if c = CHR 0x5C then (d, cs) else (c, d # cs))"

lemma member_split_le [termination_simp]: "member_split c cs = (d, r) \<Longrightarrow> length r \<le> length cs"
  by (cases cs) (auto split: if_splits)

function class_items :: "string \<Rightarrow> (char \<times> char) list" where
  "class_items [] = []"
| "class_items (c # cs) =
     (case member_split c cs of (lo, r) \<Rightarrow>
        case r of
          d # e # r' \<Rightarrow>
            if d = CHR ''-'' then (case member_split e r' of (hi, r'') \<Rightarrow> (min lo hi, max lo hi) # class_items r'')
            else (lo, lo) # class_items r
        | _ \<Rightarrow> (lo, lo) # class_items r)"
  by pat_completeness auto
termination by (relation "measure length") (auto dest!: member_split_le [OF sym])

fun close_split :: "string \<Rightarrow> (string \<times> string) option" where
  "close_split [] = None"
| "close_split (c # cs) =
     (if c = CHR '']'' then Some ([], cs)
      else if c = CHR 0x5C then
        (case cs of [] \<Rightarrow> None | d # ds \<Rightarrow> map_option (\<lambda>(b, r). (c # d # b, r)) (close_split ds))
      else map_option (\<lambda>(b, r). (c # b, r)) (close_split cs))"

definition class_split :: "string \<Rightarrow> (string \<times> string) option" where
  "class_split s =
     (let (bang, s) = (if take 1 s = ''!'' then (''!'', drop 1 s) else ([], s));
          (brk, s) = (if take 1 s = '']'' then ('']'', drop 1 s) else ([], s))
      in map_option (\<lambda>(b, r). (bang @ brk @ b, r)) (close_split s))"

definition class_tok :: "string \<Rightarrow> glob_tok" where
  "class_tok b = (if take 1 b = ''!'' then GClass True (class_items (drop 1 b)) else GClass False (class_items b))"

lemma close_split_parts: "close_split s = Some (b, r) \<Longrightarrow> s = b @ CHR '']'' # r"
  by (induction s arbitrary: b r rule: close_split.induct) (auto split: if_splits list.splits)

lemma take1_eq [simp]: "take 1 s = [c] \<longleftrightarrow> (\<exists>t. s = c # t)" "take (Suc 0) s = [c] \<longleftrightarrow> (\<exists>t. s = c # t)"
  by (cases s; simp)+

lemma class_split_parts: "class_split s = Some (b, r) \<Longrightarrow> s = b @ CHR '']'' # r"
  by (auto simp: class_split_def split: if_splits dest!: close_split_parts)

lemma class_split_len [termination_simp]: "class_split s = Some (b, r) \<Longrightarrow> length r < length s"
  by (auto dest!: class_split_parts)

function glob_toks :: "string \<Rightarrow> glob_tok list" where
  "glob_toks [] = []"
| "glob_toks (c # cs) =
     (if c = CHR ''*'' then GStar # glob_toks cs
      else if c = CHR ''?'' then GAny # glob_toks cs
      else if c = CHR ''['' then
        (case class_split cs of None \<Rightarrow> GLit c # glob_toks cs | Some (b, r) \<Rightarrow> class_tok b # glob_toks r)
      else if c = CHR 0x5C then (case cs of [] \<Rightarrow> [GLit c] | d # ds \<Rightarrow> GLit d # glob_toks ds)
      else GLit c # glob_toks cs)"
  by pat_completeness auto
termination by (relation "measure length") (auto dest: class_split_len)

text \<open>Every bracket opens a class that is closed.\<close>

function classes_closed :: "string \<Rightarrow> bool" where
  "classes_closed [] = True"
| "classes_closed (c # cs) =
     (if c = CHR ''['' then (case class_split cs of None \<Rightarrow> False | Some (b, r) \<Rightarrow> classes_closed r)
      else if c = CHR 0x5C then (case cs of [] \<Rightarrow> True | d # ds \<Rightarrow> classes_closed ds)
      else classes_closed cs)"
  by pat_completeness auto
termination by (relation "measure length") (auto dest: class_split_len)

fun tok_hit :: "glob_tok \<Rightarrow> char \<Rightarrow> bool" where
  "tok_hit GStar c = False"
| "tok_hit GAny c = (c \<noteq> CHR ''/'')"
| "tok_hit (GClass neg items) c = (list_ex (\<lambda>(lo, hi). lo \<le> c \<and> c \<le> hi) items \<noteq> neg)"
| "tok_hit (GLit x) c = (x = c)"

fun glob_ref :: "glob_tok list \<Rightarrow> string \<Rightarrow> bool" where
  "glob_ref [] s = (s = [])"
| "glob_ref (GStar # ts) [] = glob_ref ts []"
| "glob_ref (GStar # ts) (c # s) = (glob_ref ts (c # s) \<or> c \<noteq> CHR ''/'' \<and> glob_ref (GStar # ts) s)"
| "glob_ref (t # ts) [] = False"
| "glob_ref (t # ts) (c # s) = (tok_hit t c \<and> glob_ref ts s)"

definition plain_tok :: "glob_tok \<Rightarrow> bool" where
  "plain_tok t = (case t of GStar \<Rightarrow> True | GLit _ \<Rightarrow> True | _ \<Rightarrow> False)"

section \<open>Backtracking over tokens\<close>

text \<open>The matcher on tokens and the rest of the input; the last star with what followed it and where it began.\<close>

function back_loop :: "glob_tok list \<Rightarrow> string \<Rightarrow> (glob_tok list \<times> string) option \<Rightarrow> bool" where
  "back_loop ts s star =
     (case s of
        [] \<Rightarrow> list_all ((=) GStar) ts
      | c # s' \<Rightarrow>
          (case ts of
             [] \<Rightarrow> (case star of Some (rts, c # rs) \<Rightarrow> c \<noteq> CHR ''/'' \<and> back_loop rts rs (Some (rts, rs)) | _ \<Rightarrow> False)
           | t # ts' \<Rightarrow>
               if t = GStar then back_loop ts' s (Some (ts', s))
               else if tok_hit t c then back_loop ts' s' star
               else (case star of Some (rts, c # rs) \<Rightarrow> c \<noteq> CHR ''/'' \<and> back_loop rts rs (Some (rts, rs)) | _ \<Rightarrow> False)))"
  by auto
termination
  by (relation "measures [\<lambda>(ts, s, star). case star of None \<Rightarrow> length s | Some (rts, rs) \<Rightarrow> max (length rs) (length s), \<lambda>(ts, s, star). length ts]")
     (auto split: option.splits)

declare back_loop.simps [simp del]

lemma ref_hits:
  "list_all2 tok_hit chunk used \<Longrightarrow> glob_ref (chunk @ ts) (used @ s) = glob_ref ts s"
proof (induction rule: list_all2_induct)
  case (Cons t chunk c used)
  then show ?case by (cases t) auto
qed simp

lemma ref_chunk:
  "GStar \<notin> set chunk \<Longrightarrow> glob_ref (chunk @ ts) s \<longleftrightarrow>
     length chunk \<le> length s \<and> list_all2 tok_hit chunk (take (length chunk) s) \<and> glob_ref ts (drop (length chunk) s)"
proof (induction chunk arbitrary: s)
  case (Cons t chunk)
  then show ?case by (cases t; cases s) auto
qed simp

lemma ref_star:
  "glob_ref (GStar # ts) s \<longleftrightarrow> (\<exists>k \<le> length s. CHR ''/'' \<notin> set (take k s) \<and> glob_ref ts (drop k s))"
proof (induction s)
  case (Cons c s)
  show ?case
  proof
    assume "glob_ref (GStar # ts) (c # s)"
    then consider "glob_ref ts (c # s)" | "c \<noteq> CHR ''/''" "glob_ref (GStar # ts) s" by auto
    then show "\<exists>k \<le> length (c # s). CHR ''/'' \<notin> set (take k (c # s)) \<and> glob_ref ts (drop k (c # s))"
    proof cases
      case 2
      with Cons obtain k where "k \<le> length s" "CHR ''/'' \<notin> set (take k s)" "glob_ref ts (drop k s)" by auto
      with 2 show ?thesis by (intro exI [of _ "Suc k"]) auto
    qed (intro exI [of _ 0], simp)
  next
    assume "\<exists>k \<le> length (c # s). CHR ''/'' \<notin> set (take k (c # s)) \<and> glob_ref ts (drop k (c # s))"
    then obtain k where k: "k \<le> length (c # s)" "CHR ''/'' \<notin> set (take k (c # s))" "glob_ref ts (drop k (c # s))" by auto
    then show "glob_ref (GStar # ts) (c # s)" using Cons by (cases k) auto
  qed
qed simp

lemma ref_length: "glob_ref ts s \<Longrightarrow> length (filter (\<lambda>t. t \<noteq> GStar) ts) \<le> length s"
  by (induction ts s rule: glob_ref.induct) auto

lemma ref_stars: "list_all ((=) GStar) ts \<longleftrightarrow> glob_ref ts []"
proof (induction ts)
  case (Cons t ts)
  then show ?case by (cases t) auto
qed simp

text \<open>A second star makes further attempts of the first one pointless.\<close>

lemma literals_no_slash:
  assumes "take (length w) (drop k (w @ s)) = w" and "CHR ''/'' \<notin> set (take k (w @ s))" and "k \<le> length s" and "0 < k"
  shows "CHR ''/'' \<notin> set w"
proof
  assume "CHR ''/'' \<in> set w"
  then obtain us vs where w: "w = us @ CHR ''/'' # vs" "CHR ''/'' \<notin> set us" by (meson split_list_first)
  define p where "p = length us"
  have p: "(w @ s) ! p = CHR ''/''" "p < length w" by (auto simp: w p_def)
  have kp: "k \<le> p"
  proof (rule ccontr)
    assume "\<not> k \<le> p"
    then have "take k (w @ s) ! p = (w @ s) ! p" by (intro nth_take) simp
    moreover have "take k (w @ s) ! p \<in> set (take k (w @ s))"
      using p(2) \<open>\<not> k \<le> p\<close> by (intro nth_mem) auto
    ultimately show False using p(1) assms(2) by metis
  qed
  have "w ! (p - k) = take (length w) (drop k (w @ s)) ! (p - k)" using assms(1) by simp
  also have "\<dots> = (w @ s) ! p" using p(2) kp assms(4) by (simp del: drop_append take_append)
  finally have "w ! (p - k) = CHR ''/''" using p by simp
  moreover have "w ! (p - k) \<in> set us" using kp assms(4) by (auto simp: w p_def nth_append)
  ultimately show False using w(2) by simp
qed

lemma plain_chunk:
  "list_all2 tok_hit chunk used \<Longrightarrow> list_all plain_tok chunk \<Longrightarrow> chunk = map GLit used"
proof (induction rule: list_all2_induct)
  case (Cons t chunk c used)
  then show ?case by (cases t) (auto simp: plain_tok_def)
qed simp

lemma hits_literals: "list_all2 tok_hit (map GLit w) u \<longleftrightarrow> u = w"
  by (induction w arbitrary: u) (auto simp: list_all2_Cons1)

lemma hits_no_star: "list_all2 tok_hit chunk used \<Longrightarrow> GStar \<notin> set chunk"
  by (induction rule: list_all2_induct) auto

definition slash_ok :: "glob_tok list \<Rightarrow> string \<Rightarrow> bool" where
  "slash_ok ts s = (CHR ''/'' \<notin> set s \<or> list_all plain_tok ts)"

lemma star_absorb:
  assumes hit: "list_all2 tok_hit chunk used" and "glob_ref (GStar # chunk @ GStar # ts) (used @ s)"
    and ok: "slash_ok chunk (used @ s)"
  shows "glob_ref (GStar # ts) s"
proof -
  have len: "length chunk = length used" using hit by (rule list_all2_lengthD)
  obtain k where k: "k \<le> length (used @ s)" "CHR ''/'' \<notin> set (take k (used @ s))"
    and m: "glob_ref (chunk @ GStar # ts) (drop k (used @ s))"
    using assms(2) unfolding ref_star by blast
  from m have fit: "length chunk \<le> length (drop k (used @ s))"
    and hk: "list_all2 tok_hit chunk (take (length chunk) (drop k (used @ s)))"
    and tl: "glob_ref (GStar # ts) (drop (length chunk) (drop k (used @ s)))"
    unfolding ref_chunk [OF hits_no_star [OF hit]] by auto
  have ks: "k \<le> length s" using fit len k(1) by (simp only: length_drop length_append)
  have tl': "glob_ref (GStar # ts) (drop k s)" using tl len by (simp only: drop_drop) (simp add: add.commute)
  have "CHR ''/'' \<notin> set (take k s)"
  proof (cases "CHR ''/'' \<in> set (used @ s) \<and> 0 < k")
    case True
    then have lit: "chunk = map GLit used" using ok hit by (auto simp: slash_ok_def intro: plain_chunk)
    then have "take (length used) (drop k (used @ s)) = used" using hk by (simp only: hits_literals length_map)
    from literals_no_slash [OF this k(2) ks] True have u: "CHR ''/'' \<notin> set used" by simp
    have "take (length used) (drop k (used @ s)) = used" by fact
    then have "take (k + length used) (used @ s) = take k (used @ s) @ used" by (simp only: take_add)
    then have "CHR ''/'' \<notin> set (take (k + length used) (used @ s))" using u k(2) by simp
    then show ?thesis by simp
  qed (auto dest: in_set_takeD)
  moreover obtain j where "j \<le> length (drop k s)" "CHR ''/'' \<notin> set (take j (drop k s))" "glob_ref ts (drop j (drop k s))"
    using tl' unfolding ref_star by blast
  moreover have "drop j (drop k s) = drop (k + j) s" by (simp add: add.commute)
  ultimately show ?thesis
    unfolding ref_star using ks by (intro exI [of _ "k + j"]) (auto simp: take_add simp del: drop_drop)
qed

lemma chunk_too_long:
  assumes "list_all2 tok_hit chunk used" and "\<not> list_all ((=) GStar) ts"
  shows "\<not> glob_ref (chunk @ ts) (drop k used)"
proof
  assume "glob_ref (chunk @ ts) (drop k used)"
  from ref_length [OF this] have "length (filter (\<lambda>t. t \<noteq> GStar) chunk) + length (filter (\<lambda>t. t \<noteq> GStar) ts) \<le> length used"
    by simp
  moreover have "filter (\<lambda>t. t \<noteq> GStar) chunk = chunk" using hits_no_star [OF assms(1)] by (auto simp: filter_id_conv)
  moreover have "filter (\<lambda>t. t \<noteq> GStar) ts \<noteq> []" using assms(2) by (auto simp: filter_empty_conv list_all_iff eq_commute [of GStar])
  ultimately show False using list_all2_lengthD [OF assms(1)] by simp
qed

lemma back_step:
  "back_loop ts [] star = list_all ((=) GStar) ts"
  "back_loop [] (c # s) None = False"
  "back_loop (GStar # ts) (c # s) star = back_loop ts (c # s) (Some (ts, c # s))"
  "tok_hit t c \<Longrightarrow> back_loop (t # ts) (c # s) star = back_loop ts s star"
  "t \<noteq> GStar \<Longrightarrow> \<not> tok_hit t c \<Longrightarrow> back_loop (t # ts) (c # s) None = False"
  "back_loop [] (c # s) (Some (rts, d # rs)) = (d \<noteq> CHR ''/'' \<and> back_loop rts rs (Some (rts, rs)))"
  "t \<noteq> GStar \<Longrightarrow> \<not> tok_hit t c \<Longrightarrow>
     back_loop (t # ts) (c # s) (Some (rts, d # rs)) = (d \<noteq> CHR ''/'' \<and> back_loop rts rs (Some (rts, rs)))"
  by (subst back_loop.simps; auto)+

text \<open>After a star the matcher decides the pattern from that star on; the tokens since then have matched the input
  since then.\<close>

lemma back_star:
  assumes "list_all2 tok_hit chunk used" and "slash_ok (chunk @ ts) (used @ s)"
  shows "back_loop ts s (Some (chunk @ ts, used @ s)) = glob_ref (GStar # chunk @ ts) (used @ s)"
  using assms
proof (induction "(chunk, used, ts, s)" arbitrary: chunk used ts s
    rule: wf_induct_rule [OF wf_measures [of "[\<lambda>(chunk, used, ts, s). length (used @ s), \<lambda>(chunk, used, ts, s). length ts]"]])
  case (1 chunk used ts s)
  note IH = 1(1) and hit = 1(2) and ok = 1(3)
  have ref: "glob_ref (chunk @ ts) (used @ s) = glob_ref ts s" by (rule ref_hits [OF hit])
  have retry: "(case used @ s of d # rs \<Rightarrow> d \<noteq> CHR ''/'' \<and> back_loop (chunk @ ts) rs (Some (chunk @ ts, rs)) | [] \<Rightarrow> False) =
      glob_ref (GStar # chunk @ ts) (used @ s)" if "\<not> glob_ref ts s" "s \<noteq> []"
  proof (cases "used @ s")
    case (Cons d rs)
    have "length rs < length used + length s" using arg_cong [OF Cons, of length] by simp
    moreover have "slash_ok (chunk @ ts) rs" using ok unfolding Cons by (auto simp: slash_ok_def)
    ultimately have "back_loop (chunk @ ts) rs (Some (chunk @ ts, rs)) = glob_ref (GStar # chunk @ ts) rs"
      using IH [of "[]" "[]" "chunk @ ts" rs] by simp
    then show ?thesis using ref that Cons by simp
  qed (use that in simp)
  have here: "glob_ref ts s \<Longrightarrow> glob_ref (GStar # chunk @ ts) (used @ s)"
    using ref unfolding ref_star by (metis drop0 le0 list.set(1) empty_iff take_0)
  show ?case
  proof (cases s)
    case Nil
    have "\<not> glob_ref (chunk @ ts) (drop k used)" if "\<not> list_all ((=) GStar) ts" for k
      by (rule chunk_too_long [OF hit that])
    then have "glob_ref (GStar # chunk @ ts) used \<longleftrightarrow> list_all ((=) GStar) ts"
      using here Nil ref_stars [of ts] unfolding ref_star by (metis append_Nil2)
    then show ?thesis using Nil by (simp add: back_step)
  next
    case s: (Cons c s')
    show ?thesis
    proof (cases ts)
      case Nil
      then show ?thesis using retry s by (subst back_loop.simps) (auto split: list.splits)
    next
      case ts: (Cons t ts')
      consider "t = GStar" | "t \<noteq> GStar" "tok_hit t c" | "t \<noteq> GStar" "\<not> tok_hit t c" by blast
      then show ?thesis
      proof cases
        case 1
        have "back_loop ts' s (Some (ts', s)) = glob_ref (GStar # ts') s"
          using IH [of "[]" "[]" ts' s] ok ts 1 by (auto simp: slash_ok_def)
        moreover have "glob_ref (GStar # chunk @ ts) (used @ s) = glob_ref (GStar # ts') s"
          using here star_absorb [OF hit, of ts' s] ok ts 1 by (auto simp: slash_ok_def)
        ultimately show ?thesis using ts s 1 by (simp add: back_step)
      next
        case 2
        have "list_all2 tok_hit (chunk @ [t]) (used @ [c])" using list_all2_appendI [OF hit, of "[t]" "[c]"] 2 by simp
        then have "back_loop ts' s' (Some ((chunk @ [t]) @ ts', (used @ [c]) @ s')) = glob_ref (GStar # (chunk @ [t]) @ ts') ((used @ [c]) @ s')"
          using IH [of "chunk @ [t]" "used @ [c]" ts' s'] ok ts s by simp
        then show ?thesis using ts s 2 by (simp add: back_step)
      next
        case 3
        then have "\<not> glob_ref ts s" using ts s by (cases t) auto
        then show ?thesis using retry 3 ts s by (subst back_loop.simps) (auto split: list.splits)
      qed
    qed
  qed
qed

lemma back_correct: "slash_ok ts s \<Longrightarrow> back_loop ts s None = glob_ref ts s"
proof (induction ts arbitrary: s)
  case Nil
  then show ?case by (cases s) (simp_all add: back_step)
next
  case (Cons t ts)
  then have ok: "slash_ok ts s" by (auto simp: slash_ok_def)
  show ?case
  proof (cases s)
    case Nil
    then show ?thesis using ref_stars [of "t # ts"] by (simp add: back_step)
  next
    case s: (Cons c s')
    have ok': "slash_ok ts s'" using ok s by (auto simp: slash_ok_def)
    show ?thesis
    proof (cases "t = GStar")
      case True
      then show ?thesis using back_star [of "[]" "[]" ts s] ok s by (simp add: back_step)
    next
      case False
      then show ?thesis using Cons.IH [OF ok'] s by (cases t; cases "tok_hit t c") (simp_all add: back_step)
    qed
  qed
qed

section \<open>The matcher works over tokens\<close>

lemma drop_cons: "i < length xs \<Longrightarrow> drop i xs = xs ! i # drop (Suc i) xs"
  by (simp add: Cons_nth_drop_Suc)

lemma class_end_split:
  "class_end_loop pat i = map_option (\<lambda>(b, r). i + length b) (close_split (drop i pat))"
proof (induction pat i rule: class_end_loop.induct)
  case (1 pat i)
  show ?case
  proof (cases "i < length pat")
    case True
    then have d: "drop i pat = pat ! i # drop (Suc i) pat" by (rule drop_cons)
    show ?thesis
    proof (cases "pat ! i = CHR 0x5C")
      case esc: True
      show ?thesis
      proof (cases "Suc i < length pat")
        case len: True
        then show ?thesis using 1(1) [OF True] esc d drop_cons [OF len] True
          by (subst class_end_loop.simps) (auto simp: option.map_comp comp_def case_prod_unfold)
      next
        case False
        then have "class_end_loop pat (i + 2) = None" by (subst class_end_loop.simps) simp
        then show ?thesis using False esc d True by (subst class_end_loop.simps) simp
      qed
    next
      case False
      then show ?thesis using 1(2) [OF True] d True
        by (subst class_end_loop.simps) (auto simp: option.map_comp comp_def case_prod_unfold)
    qed
  next
    case False
    then show ?thesis by (subst class_end_loop.simps) simp
  qed
qed

lemma take1_drop: "(\<exists>t. drop i s = c # t) \<longleftrightarrow> i < length s \<and> s ! i = c"
  by (cases "i < length s") (auto simp: drop_cons)

lemma take1_drop_not: "(\<forall>t. drop i s \<noteq> c # t) \<longleftrightarrow> \<not> (i < length s \<and> s ! i = c)"
  using take1_drop [of i s c] by blast

lemma find_class_split:
  "find_class_end pat pi = map_option (\<lambda>(b, r). pi + 1 + length b) (class_split (drop (Suc pi) pat))"
  by (auto simp: find_class_end_def class_split_def Let_def class_end_split take1_drop take1_drop_not option.map_comp comp_def case_prod_unfold
      split: if_splits)

lemma class_member_split:
  "i < length cls \<Longrightarrow> class_member cls i = (lo, n) \<Longrightarrow> member_split (cls ! i) (drop (Suc i) cls) = (lo, drop n cls)"
  by (cases "Suc i < length cls") (auto simp: class_member_def drop_cons split: if_splits)

lemma char_class_items:
  "char_class_loop cls c i = list_ex (\<lambda>(lo, hi). lo \<le> c \<and> c \<le> hi) (class_items (drop i cls))"
proof (induction cls c i rule: char_class_loop.induct)
  case (1 cls c i)
  show ?case
  proof (cases "i < length cls")
    case True
    obtain lo n where m: "class_member cls i = (lo, n)" by force
    from class_member_split [OF True m] have ms: "member_split (cls ! i) (drop (Suc i) cls) = (lo, drop n cls)" .
    show ?thesis
    proof (cases "n + 1 < length cls \<and> cls ! n = CHR ''-''")
      case rng: True
      obtain hi k where m2: "class_member cls (n + 1) = (hi, k)" by force
      have "drop n cls = CHR ''-'' # cls ! Suc n # drop (Suc (Suc n)) cls"
        using rng drop_cons [of n cls] drop_cons [of "Suc n" cls] by simp
      moreover have "member_split (cls ! Suc n) (drop (Suc (Suc n)) cls) = (hi, drop k cls)"
        using class_member_split [of "n + 1" cls hi k] rng m2 by simp
      ultimately show ?thesis
        using 1(1) [OF True m [symmetric] rng m2 [symmetric]] True m m2 rng ms
        by (subst char_class_loop.simps) (auto simp: drop_cons [OF True])
    next
      case False
      then have "\<not> (\<exists>e r. drop n cls = CHR ''-'' # e # r)"
        by (metis drop_eq_Nil length_drop list.size(4) list.distinct(1) nth_via_drop drop_Suc tl_drop list.sel(3) Suc_eq_plus1 not_less)
      then have "class_items (drop i cls) = (lo, lo) # class_items (drop n cls)"
        using ms drop_cons [OF True] by (auto split: list.splits)
      then show ?thesis using 1(2) [OF True m [symmetric] False] False True m
        by (subst char_class_loop.simps) auto
    qed
  next
    case False
    then show ?thesis by (subst char_class_loop.simps) simp
  qed
qed

lemma class_tok_hit:
  "(let (negate, body) = (if b \<noteq> [] \<and> b ! 0 = CHR ''!'' then (True, drop 1 b) else (False, b))
    in char_class_match body c \<noteq> negate) = tok_hit (class_tok b) c"
  by (cases b) (auto simp: class_tok_def char_class_match_def char_class_items)

definition pat_ok :: "string \<Rightarrow> string \<Rightarrow> nat \<Rightarrow> bool" where
  "pat_ok pat inp i = (classes_closed (drop i pat) \<and> slash_ok (glob_toks (drop i pat)) inp)"

definition star_state :: "string \<Rightarrow> string \<Rightarrow> nat option \<Rightarrow> nat \<Rightarrow> (glob_tok list \<times> string) option" where
  "star_state pat inp sp si = map_option (\<lambda>r. (glob_toks (drop r pat), drop si inp)) sp"

definition star_retry :: "(glob_tok list \<times> string) option \<Rightarrow> bool" where
  "star_retry star = (case star of Some (rts, c # rs) \<Rightarrow> c \<noteq> CHR ''/'' \<and> back_loop rts rs (Some (rts, rs)) | _ \<Rightarrow> False)"

lemma back_cases:
  "s \<noteq> [] \<Longrightarrow> back_loop [] s star = star_retry star"
  "t \<noteq> GStar \<Longrightarrow> back_loop (t # ts) (c # s) star = (if tok_hit t c then back_loop ts s star else star_retry star)"
  by (subst back_loop.simps; auto simp: star_retry_def split: list.splits)+

text \<open>One token of the pattern at index \<open>pi\<close>, and the index after it.\<close>

lemma toks_step:
  assumes "pi < length pat" and "pat_ok pat inp pi"
  obtains (star) "pat ! pi = CHR ''*''" "glob_toks (drop pi pat) = GStar # glob_toks (drop (Suc pi) pat)" "pat_ok pat inp (Suc pi)"
  | (any) "pat ! pi = CHR ''?''" "glob_toks (drop pi pat) = GAny # glob_toks (drop (Suc pi) pat)" "pat_ok pat inp (Suc pi)"
      "CHR ''/'' \<notin> set inp"
  | (cls) b where "pat ! pi = CHR ''[''" "find_class_end pat pi = Some (Suc (pi + length b))"
      "drop (Suc pi) (take (Suc (pi + length b)) pat) = b"
      "glob_toks (drop pi pat) = class_tok b # glob_toks (drop (Suc (Suc (pi + length b))) pat)"
      "pat_ok pat inp (Suc (Suc (pi + length b)))" "CHR ''/'' \<notin> set inp"
  | (lit) c w where "pat ! pi \<noteq> CHR ''*''" "pat ! pi \<noteq> CHR ''?''" "pat ! pi \<noteq> CHR ''[''"
      "(if pat ! pi = CHR 0x5C \<and> pi + 1 < length pat then (pat ! (pi + 1), 2) else (pat ! pi, 1)) = (c, w)"
      "glob_toks (drop pi pat) = GLit c # glob_toks (drop (pi + w) pat)" "pat_ok pat inp (pi + w)"
proof -
  note d = drop_cons [OF assms(1)]
  note ok = assms(2) [unfolded pat_ok_def d slash_ok_def]
  consider "pat ! pi = CHR ''*''" | "pat ! pi = CHR ''?''" | "pat ! pi = CHR ''[''"
    | "pat ! pi \<noteq> CHR ''*''" "pat ! pi \<noteq> CHR ''?''" "pat ! pi \<noteq> CHR ''[''" by blast
  then show thesis
  proof cases
    case 1
    then show thesis using ok by (intro star) (auto simp: d pat_ok_def slash_ok_def)
  next
    case 2
    then show thesis using ok by (intro any) (auto simp: d pat_ok_def slash_ok_def plain_tok_def)
  next
    case 3
    then obtain b r where br: "class_split (drop (Suc pi) pat) = Some (b, r)" using ok by (auto split: option.splits)
    then have parts: "drop (Suc pi) pat = b @ CHR '']'' # r" by (rule class_split_parts)
    then have r: "r = drop (Suc (Suc (pi + length b))) pat"
      by (metis add_Suc_right append_eq_conv_conj drop_drop drop_Suc list.sel(3) tl_drop add.commute)
    have "drop (Suc pi) (take (Suc (pi + length b)) pat) = take (length b) (drop (Suc pi) pat)"
      by (simp add: take_drop add.commute)
    then have b: "drop (Suc pi) (take (Suc (pi + length b)) pat) = b" using parts by simp
    show thesis using ok br 3 r
      by (intro cls [OF 3 _ b]) (auto simp: find_class_split d pat_ok_def slash_ok_def class_tok_def plain_tok_def split: if_splits)
  next
    case 4
    show thesis
    proof (cases "pat ! pi = CHR 0x5C \<and> pi + 1 < length pat")
      case True
      then have "drop (Suc pi) pat = pat ! Suc pi # drop (Suc (Suc pi)) pat" by (intro drop_cons) simp
      then show thesis using 4 ok True by (intro lit [of "pat ! (pi + 1)" 2]) (auto simp: d pat_ok_def slash_ok_def)
    next
      case False
      then show thesis using 4 ok
        by (intro lit [of "pat ! pi" 1]) (cases "drop (Suc pi) pat"; auto simp: d pat_ok_def slash_ok_def)+
    qed
  qed
qed

lemma stars_toks: "list_all ((=) GStar) (glob_toks s) = stars_only s"
  by (induction s rule: glob_toks.induct) (auto simp: stars_only_def class_tok_def split: option.splits list.splits)

text \<open>Going back to the last star: with the test of the literal branch, and with that of the other two when the input has no slash.\<close>

lemma match_retry:
  assumes "case sp of None \<Rightarrow> True | Some r \<Rightarrow> si \<le> ii \<and> pat_ok pat inp r" and "ii < length inp"
    and "\<And>r. sp = Some r \<Longrightarrow> si < length inp \<Longrightarrow> glob_loop pat inp r (si + 1) sp (si + 1) =
          Some (back_loop (glob_toks (drop r pat)) (drop (si + 1) inp) (star_state pat inp sp (si + 1)))"
  shows "(case sp of None \<Rightarrow> Some False
      | Some r \<Rightarrow> if \<not> si < length inp then None else if inp ! si = CHR ''/'' then Some False
                  else glob_loop pat inp r (si + 1) sp (si + 1)) = Some (star_retry (star_state pat inp sp si))"
    and "CHR ''/'' \<notin> set inp \<Longrightarrow> (case sp of None \<Rightarrow> Some False
      | Some r \<Rightarrow> if si + 1 < length inp \<and> inp ! (si + 1) = CHR ''/'' then Some False
                  else glob_loop pat inp r (si + 1) sp (si + 1)) = Some (star_retry (star_state pat inp sp si))"
proof -
  have "CHR ''/'' \<notin> set inp \<Longrightarrow> si < length inp \<Longrightarrow> inp ! si \<noteq> CHR ''/''" by (metis nth_mem)
  moreover have "CHR ''/'' \<notin> set inp \<Longrightarrow> si + 1 < length inp \<Longrightarrow> inp ! (si + 1) \<noteq> CHR ''/''" by (metis nth_mem)
  moreover have "sp = Some r \<Longrightarrow> si < length inp \<and> drop si inp = inp ! si # drop (si + 1) inp" for r
    using assms(1,2) drop_cons [of si inp] by simp
  ultimately show "(case sp of None \<Rightarrow> Some False
      | Some r \<Rightarrow> if \<not> si < length inp then None else if inp ! si = CHR ''/'' then Some False
                  else glob_loop pat inp r (si + 1) sp (si + 1)) = Some (star_retry (star_state pat inp sp si))"
    and "CHR ''/'' \<notin> set inp \<Longrightarrow> (case sp of None \<Rightarrow> Some False
      | Some r \<Rightarrow> if si + 1 < length inp \<and> inp ! (si + 1) = CHR ''/'' then Some False
                  else glob_loop pat inp r (si + 1) sp (si + 1)) = Some (star_retry (star_state pat inp sp si))"
    using assms(3) by (auto simp: star_retry_def star_state_def split: option.splits)
qed

lemma match_class:
  assumes "ii < length inp" "pi < length pat" "pat ! pi = CHR ''[''" "find_class_end pat pi = Some e" "drop (Suc pi) (take e pat) = b"
  shows "glob_loop pat inp pi ii sp si =
    (if tok_hit (class_tok b) (inp ! ii) then glob_loop pat inp (Suc e) (Suc ii) sp si
     else case sp of None \<Rightarrow> Some False
       | Some r \<Rightarrow> if si + 1 < length inp \<and> inp ! (si + 1) = CHR ''/'' then Some False
                   else glob_loop pat inp r (si + 1) sp (si + 1))"
proof -
  obtain neg body where nb: "(if b \<noteq> [] \<and> b ! 0 = CHR ''!'' then (True, drop 1 b) else (False, b)) = (neg, body)" by force
  then have "tok_hit (class_tok b) (inp ! ii) = (char_class_match body (inp ! ii) \<noteq> neg)"
    using class_tok_hit [of b "inp ! ii"] by simp
  then show ?thesis using assms nb by (subst glob_loop.simps) (simp add: Let_def del: drop_eq_Nil)
qed

lemma match_back:
  assumes "pat_ok pat inp pi" and "case sp of None \<Rightarrow> True | Some r \<Rightarrow> si \<le> ii \<and> pat_ok pat inp r"
  shows "glob_loop pat inp pi ii sp si =
    Some (back_loop (glob_toks (drop pi pat)) (drop ii inp) (star_state pat inp sp si))"
  using assms
proof (induction "(pi, ii, sp, si)" arbitrary: pi ii sp si
    rule: wf_induct_rule [OF wf_measures [of "[\<lambda>(pi, ii, sp, si). length inp - min si ii, \<lambda>(pi, ii, sp :: nat option, si). length pat - pi]"]])
  case (1 pi ii sp si)
  note IH = 1(1) and ok = 1(2) and sok = 1(3)
  show ?case
  proof (cases "ii < length inp")
    case ii: True
    note d = drop_cons [OF ii]
    have "glob_loop pat inp r (si + 1) sp (si + 1) =
        Some (back_loop (glob_toks (drop r pat)) (drop (si + 1) inp) (star_state pat inp sp (si + 1)))"
      if "sp = Some r" "si < length inp" for r
    proof -
      have "length inp - Suc si < length inp - si" using that(2) by simp
      then show ?thesis using IH [of r "Suc si" sp "Suc si"] sok that by simp
    qed
    note retry = match_retry [OF sok ii this]
    have advance: "glob_loop pat inp pi' (Suc ii) sp si =
        Some (back_loop (glob_toks (drop pi' pat)) (drop (Suc ii) inp) (star_state pat inp sp si))"
      if "pi < pi'" "pi < length pat" "pat_ok pat inp pi'" for pi'
    proof -
      have "length inp - min si (Suc ii) \<le> length inp - min si ii" "length pat - pi' < length pat - pi"
        using that by (auto simp: min_def)
      then show ?thesis using IH [of pi' "Suc ii" sp si] that(3) sok by (auto simp: le_less split: option.splits)
    qed
    show ?thesis
    proof (cases "pi < length pat")
      case True
      from True ok show ?thesis
      proof (cases rule: toks_step)
        case star
        have "length inp - ii \<le> length inp - min si ii" "length pat - Suc pi < length pat - pi"
          using True by (auto simp: min_def)
        then have "glob_loop pat inp (Suc pi) ii (Some (Suc pi)) ii =
            Some (back_loop (glob_toks (drop (Suc pi) pat)) (drop ii inp) (star_state pat inp (Some (Suc pi)) ii))"
          using IH [of "Suc pi" ii "Some (Suc pi)" ii] star by (auto simp: le_less)
        then show ?thesis using star True ii d by (subst glob_loop.simps) (simp add: back_step star_state_def)
      next
        case any
        then have "inp ! ii \<noteq> CHR ''/''" using ii by (metis nth_mem)
        then show ?thesis using any True ii d advance [of "Suc pi"]
          by (subst glob_loop.simps) (simp add: back_cases)
      next
        case (cls b)
        moreover have "class_tok b \<noteq> GStar" by (simp add: class_tok_def)
        ultimately show ?thesis
          using advance [of "Suc (Suc (pi + length b))"] retry(2) True
          by (simp only: match_class [OF ii True cls(1-3)] d) (simp add: back_cases)
      next
        case (lit c w)
        then have "pi < pi + w" by (auto split: if_splits)
        then show ?thesis using lit True ii d advance [of "pi + w"] retry(1)
          by (subst glob_loop.simps) (simp add: back_cases)
      qed
    next
      case False
      then show ?thesis using ii d retry(1) by (subst glob_loop.simps) (simp add: back_cases)
    qed
  next
    case False
    then show ?thesis by (subst glob_loop.simps) (simp add: back_step stars_toks)
  qed
qed

lemma match_bytes_ref:
  "classes_closed pat \<Longrightarrow> slash_ok (glob_toks pat) inp \<Longrightarrow> match_bytes pat inp = Some (glob_ref (glob_toks pat) inp)"
  using match_back [where pi = 0 and sp = None and ii = 0 and si = 0] back_correct [of "glob_toks pat" inp]
  by (simp add: match_bytes_def pat_ok_def star_state_def)

text \<open>C14. The matcher decides the meaning of its pattern. When every bracket of the pattern is closed, and the input has no slash or the
  pattern is made of stars and literal characters, the index-based loop that remembers only the last star never
  reads out of range and answers exactly whether some choice of what each star stands for makes the pattern spell
  the input, no star taking a slash.\<close>

theorem glob_matches_reference:
  assumes "classes_closed pattern" and "CHR ''/'' \<notin> set input \<or> list_all plain_tok (glob_toks pattern)"
  shows "glob_matches pattern input = Some (glob_ref (glob_toks pattern) input)"
  using assms match_bytes_ref by (simp add: glob_matches_def slash_ok_def)

theorem glob_matches_reference_witness:
  "glob_matches ''l*[a-c].?s'' ''libla.rs'' = Some True \<and> glob_matches ''dir/*.c'' ''dir/a/b.c'' = Some False"
proof -
  have "classes_closed ''l*[a-c].?s'' \<and> CHR ''/'' \<notin> set ''libla.rs'' \<and> glob_ref (glob_toks ''l*[a-c].?s'') ''libla.rs''"
    by code_simp
  moreover have "classes_closed ''dir/*.c'' \<and> list_all plain_tok (glob_toks ''dir/*.c'') \<and> \<not> glob_ref (glob_toks ''dir/*.c'') ''dir/a/b.c''"
    by code_simp
  ultimately show ?thesis
    using glob_matches_reference [of "''l*[a-c].?s''" "''libla.rs''"] glob_matches_reference [of "''dir/*.c''" "''dir/a/b.c''"]
    by simp
qed


section \<open>What a pathname pattern expands to\<close>

definition dir_names :: "file_tree \<Rightarrow> string \<Rightarrow> dir_entry list" where
  "dir_names fs dir = (case fs dir of None \<Rightarrow> [] | Some rd \<Rightarrow> map the (takeWhile (\<lambda>e. e \<noteq> None) rd))"

definition seg_names :: "string \<Rightarrow> string \<Rightarrow> bool" where
  "seg_names seg name \<longleftrightarrow> (take 1 name = ''.'' \<longrightarrow> leading_dot seg) \<and> glob_ref (glob_toks seg) name"

fun paths_named :: "file_tree \<Rightarrow> string \<Rightarrow> bool \<Rightarrow> string \<Rightarrow> string list \<Rightarrow> string list" where
  "paths_named fs cwd lead dir [] = []"
| "paths_named fs cwd lead dir (seg # segs) =
     concat (map (\<lambda>(name, is_dir).
         if \<not> seg_names seg name then []
         else if segs = [] then [join_display dir name]
         else if is_dir then paths_named fs cwd lead (join_display dir name) segs
         else [])
       (dir_names fs (resolve_fs cwd dir lead)))"

text \<open>No name in a directory holds a slash.\<close>

definition names_ok :: "file_tree \<Rightarrow> bool" where
  "names_ok fs \<longleftrightarrow> (\<forall>dir rd name d. fs dir = Some rd \<longrightarrow> Some (name, d) \<in> set rd \<longrightarrow> CHR ''/'' \<notin> set name)"

lemma entries_exact:
  assumes "classes_closed seg" and "\<And>name d. Some (name, d) \<in> set rd \<Longrightarrow> CHR ''/'' \<notin> set name"
    and "\<And>dir out. walk fs cwd lead dir segs out = Some (out @ paths_named fs cwd lead dir segs)"
  shows "entries_loop fs cwd lead dir seg segs rd out = Some (out @ concat (map (\<lambda>(name, is_dir).
         if \<not> seg_names seg name then []
         else if segs = [] then [join_display dir name]
         else if is_dir then paths_named fs cwd lead (join_display dir name) segs
         else []) (map the (takeWhile (\<lambda>e. e \<noteq> None) rd))))"
proof -
  define F where "F = (\<lambda>(name, is_dir).
         if \<not> seg_names seg name then []
         else if segs = [] then [join_display dir name]
         else if is_dir then paths_named fs cwd lead (join_display dir name) segs
         else [])"
  have "entries_loop fs cwd lead dir seg segs rd out = Some (out @ concat (map F (map the (takeWhile (\<lambda>e. e \<noteq> None) rd))))"
    using assms(2)
  proof (induction rd arbitrary: out)
    case (Cons e rd)
    show ?case
    proof (cases e)
      case (Some nd)
      obtain name d where nd: "nd = (name, d)" by force
      have "CHR ''/'' \<notin> set name" using Cons.prems [of name d] Some nd by simp
      then have "glob_matches seg name = Some (glob_ref (glob_toks seg) name)"
        using match_bytes_ref [OF assms(1), of name] by (simp add: glob_matches_def slash_ok_def)
      then have "entries_loop fs cwd lead dir seg segs (Some (name, d) # rd) out =
          entries_loop fs cwd lead dir seg segs rd (out @ F (name, d))"
        by (subst entries_loop.simps) (simp add: F_def seg_names_def assms(3))
      with Cons.IH [of "out @ F (name, d)"] Cons.prems Some nd show ?thesis by fastforce
    qed (subst entries_loop.simps, simp)
  qed (subst entries_loop.simps, simp)
  then show ?thesis by (simp add: F_def)
qed

lemma walk_exact:
  "names_ok fs \<Longrightarrow> list_all classes_closed segs \<Longrightarrow> walk fs cwd lead dir segs out = Some (out @ paths_named fs cwd lead dir segs)"
proof (induction segs arbitrary: dir out)
  case (Cons seg segs)
  show ?case
  proof (cases "fs (resolve_fs cwd dir lead)")
    case (Some rd)
    have "CHR ''/'' \<notin> set name" if "Some (name, d) \<in> set rd" for name d
      using Cons.prems(1) Some that by (auto simp: names_ok_def)
    with Cons Some show ?thesis by (subst walk.simps) (simp add: entries_exact dir_names_def)
  qed (subst walk.simps, simp add: dir_names_def)
qed (subst walk.simps, simp)

lemma segment_loop_ok:
  "list_all (\<lambda>s. s \<noteq> [] \<and> CHR ''/'' \<notin> set s) segs \<Longrightarrow> CHR ''/'' \<notin> set cur \<Longrightarrow>
     list_all (\<lambda>s. s \<noteq> [] \<and> CHR ''/'' \<notin> set s) (segment_loop p cur segs)"
  by (induction p cur segs rule: segment_loop.induct) (auto simp: take_segment_def split: list.splits)

text \<open>C33. Pathname expansion names exactly the paths that exist and match. For a pattern whose brackets are closed, \<open>expand\<close> returns
  the sorted list of the paths that lead, from the literal start directory, through directories whose names
  match the segments one by one, a name with a leading dot only by a segment that spells the dot; each
  segment is non-empty and has no slash, unreadable directories contribute nothing, and a pattern without a live
  meta character expands to nothing.\<close>

theorem expand_exact:
  assumes "names_ok fs" and "list_all classes_closed (pattern_segments pattern)"
  shows "expand fs cwd pattern =
    Some (case read_pattern pattern of None \<Rightarrow> []
          | Some p \<Rightarrow> sort (paths_named fs cwd (pp_absolute p) (pp_start p) (pp_walk p))) \<and>
    list_all (\<lambda>s. s \<noteq> [] \<and> CHR ''/'' \<notin> set s) (pattern_segments pattern)"
proof
  have "list_all classes_closed (pp_walk p)" if "read_pattern pattern = Some p" for p
    using that assms(2) by (auto simp: read_pattern_def Let_def list_all_iff split: Option.bind_splits) (meson in_set_dropD)
  then show "expand fs cwd pattern = Some (case read_pattern pattern of None \<Rightarrow> []
      | Some p \<Rightarrow> sort (paths_named fs cwd (pp_absolute p) (pp_start p) (pp_walk p)))"
    using walk_exact [OF assms(1)] by (auto simp: expand_def split: option.splits)
  show "list_all (\<lambda>s. s \<noteq> [] \<and> CHR ''/'' \<notin> set s) (pattern_segments pattern)"
    unfolding pattern_segments_def by (rule segment_loop_ok) simp_all
qed

definition demo_tree :: file_tree where
  "demo_tree dir =
     (if dir = ''/home'' then Some [Some (''src'', True), Some (''.git'', True), Some (''sub'', True), Some (''s.rs'', False)]
      else if dir = ''/home/src'' then Some [Some (''b.rs'', False), Some (''a.rs'', False), Some (''.x.rs'', False), None, Some (''c.rs'', False)]
      else None)"

lemma demo_tree_ok: "names_ok demo_tree"
  unfolding names_ok_def demo_tree_def by (auto split: if_splits)

theorem expand_exact_witness: "expand demo_tree ''/home'' ''s*/*.rs'' = Some [''src/a.rs'', ''src/b.rs'']"
proof -
  have "list_all classes_closed (pattern_segments ''s*/*.rs'')" by code_simp
  moreover have "(case read_pattern ''s*/*.rs'' of None \<Rightarrow> []
      | Some p \<Rightarrow> sort (paths_named demo_tree ''/home'' (pp_absolute p) (pp_start p) (pp_walk p))) = [''src/a.rs'', ''src/b.rs'']"
    by code_simp
  ultimately show ?thesis using expand_exact [OF demo_tree_ok, of "''s*/*.rs''" "''/home''"] by simp
qed

end
