(* ===== verification/Va_Window.thy ===== *)
theory Va_Window
  imports Thyla_Base
begin

text \<open>
  The mapping window of the compositor (\<open>usr/tapestryd/src/va.rs\<close>): the first-fit allocator that chooses the addresses
  at which \<open>tapestryd\<close> maps its DMA objects. Addresses and sizes are \<^typ>\<open>nat\<close> below \<open>2 ^ 64\<close>; an operator that would
  overflow or underflow panics, \<^const>\<open>None\<close>.
\<close>

definition VA_PAGE :: nat where "VA_PAGE = 4096"

record va_window =
  vw_base :: nat
  vw_top :: nat
  vw_free :: "(nat \<times> nat) list"
  vw_live :: nat
  vw_peak :: nat

text \<open>\<open>v & !(PAGE - 1)\<close> takes away the remainder by the page size.\<close>

definition va_page_round :: "nat \<Rightarrow> nat option" where
  "va_page_round n = map_option (\<lambda>v. v - v mod VA_PAGE) (checked_add n (VA_PAGE - 1))"

definition va_new :: "nat \<Rightarrow> nat \<Rightarrow> va_window" where
  "va_new base top' =
     \<lparr>vw_base = base, vw_top = top',
      vw_free = (if base mod VA_PAGE = 0 \<and> top' mod VA_PAGE = 0 \<and> base < top' then [(base, top' - base)] else []),
      vw_live = 0, vw_peak = 0\<rparr>"

definition va_alloc :: "nat \<Rightarrow> va_window \<Rightarrow> (nat option \<times> va_window) option" where
  "va_alloc sz w =
     (if sz = 0 then Some (None, w)
      else
        (case va_page_round sz of
           None \<Rightarrow> Some (None, w)
         | Some need \<Rightarrow>
             (case position (\<lambda>(_, len). len \<ge> need) (vw_free w) of
                None \<Rightarrow> Some (None, w)
              | Some i \<Rightarrow> do {
                  let (start, len) = vw_free w ! i;
                  free \<leftarrow> (if len = need then Some (take i (vw_free w) @ drop (i + 1) (vw_free w))
                          else do {
                            a \<leftarrow> checked_add start need;
                            l \<leftarrow> checked_sub len need;
                            Some ((vw_free w)[i := (a, l)])
                          });
                  live \<leftarrow> checked_add (vw_live w) need;
                  Some (Some start, w\<lparr>vw_free := free, vw_live := live,
                                      vw_peak := (if live > vw_peak w then live else vw_peak w)\<rparr>)
                })))"

text \<open>\<open>partition_point\<close> of a slice that is partitioned by the predicate.\<close>

definition partition_point :: "('a \<Rightarrow> bool) \<Rightarrow> 'a list \<Rightarrow> nat" where
  "partition_point P xs = length (takeWhile P xs)"

definition va_free :: "nat \<Rightarrow> nat \<Rightarrow> va_window \<Rightarrow> (bool \<times> va_window) option" where
  "va_free va sz w =
     (if sz = 0 \<or> va mod VA_PAGE \<noteq> 0 then Some (False, w)
      else
        (case va_page_round sz of
           None \<Rightarrow> Some (False, w)
         | Some len \<Rightarrow>
             (case checked_add va len of
                None \<Rightarrow> Some (False, w)
              | Some end' \<Rightarrow>
                  if va < vw_base w \<or> end' > vw_top w then Some (False, w)
                  else
                    let free = vw_free w; i = partition_point (\<lambda>(s, _). s < va) free
                    in if i < length free \<and> fst (free ! i) < end' then Some (False, w)
                       else do {
                         below \<leftarrow> (if i > 0 then (case free ! (i - 1) of (ps, pl) \<Rightarrow> checked_add ps pl) else Some va);
                         if i > 0 \<and> below > va then Some (False, w)
                         else do {
                           live \<leftarrow> checked_sub (vw_live w) len;
                           (total, free) \<leftarrow>
                             (if i < length free \<and> fst (free ! i) = end'
                              then map_option (\<lambda>t. (t, take i free @ drop (i + 1) free)) (checked_add len (snd (free ! i)))
                              else Some (len, free));
                           if i > 0 \<and> below = va then do {
                             total \<leftarrow> checked_add total (snd (free ! (i - 1)));
                             Some (True, w\<lparr>vw_free := free[i - 1 := (fst (free ! (i - 1)), total)], vw_live := live\<rparr>)
                           }
                           else Some (True, w\<lparr>vw_free := take i free @ (va, total) # drop i free, vw_live := live\<rparr>)
                         }
                       })))"

definition largest_free :: "va_window \<Rightarrow> nat" where
  "largest_free w = foldr (\<lambda>(_, l) m. max l m) (vw_free w) 0"

definition free_ranges :: "va_window \<Rightarrow> nat" where
  "free_ranges w = length (vw_free w)"

section \<open>The free ranges\<close>

definition gap :: "nat \<times> nat \<Rightarrow> nat \<times> nat \<Rightarrow> bool" where
  "gap p q \<longleftrightarrow> fst p + snd p < fst q"

definition range_ok :: "nat \<Rightarrow> nat \<Rightarrow> nat \<times> nat \<Rightarrow> bool" where
  "range_ok lo hi p \<longleftrightarrow> 0 < snd p \<and> lo \<le> fst p \<and> fst p + snd p \<le> hi \<and> VA_PAGE dvd fst p \<and> VA_PAGE dvd snd p"

definition ranges_ok :: "nat \<Rightarrow> nat \<Rightarrow> (nat \<times> nat) list \<Rightarrow> bool" where
  "ranges_ok lo hi fs \<longleftrightarrow> sorted_wrt gap fs \<and> list_all (range_ok lo hi) fs"

definition range_set :: "nat \<times> nat \<Rightarrow> nat set" where
  "range_set p = {fst p ..< fst p + snd p}"

definition free_set :: "(nat \<times> nat) list \<Rightarrow> nat set" where
  "free_set fs = (\<Union>p \<in> set fs. range_set p)"

definition va_ok :: "va_window \<Rightarrow> bool" where
  "va_ok w \<longleftrightarrow> vw_base w \<le> vw_top w \<and> vw_top w < usize_limit \<and> ranges_ok (vw_base w) (vw_top w) (vw_free w) \<and>
     vw_live w + sum_list (map snd (vw_free w)) = vw_top w - vw_base w"

lemma free_set_simps [simp]:
  "free_set [] = {}" "free_set (p # fs) = range_set p \<union> free_set fs" "free_set (fs @ gs) = free_set fs \<union> free_set gs"
  by (auto simp: free_set_def)

lemma ranges_ok_simps:
  "ranges_ok lo hi []"
  "ranges_ok lo hi (p # fs) \<longleftrightarrow> range_ok lo hi p \<and> list_all (gap p) fs \<and> ranges_ok lo hi fs"
  "ranges_ok lo hi (fs @ gs) \<longleftrightarrow> ranges_ok lo hi fs \<and> ranges_ok lo hi gs \<and> list_all (\<lambda>p. list_all (gap p) gs) fs"
  by (auto simp: ranges_ok_def sorted_wrt_append list_all_iff)

lemma gap_disjoint: "gap p q \<Longrightarrow> range_set p \<inter> range_set q = {}"
  by (auto simp: gap_def range_set_def)

lemma gaps_disjoint: "list_all (gap p) fs \<Longrightarrow> range_set p \<inter> free_set fs = {}"
  by (induction fs) (auto simp: gap_disjoint dest!: gap_disjoint)

lemma free_set_card: "ranges_ok lo hi fs \<Longrightarrow> card (free_set fs) = sum_list (map snd fs) \<and> finite (free_set fs)"
proof (induction fs)
  case (Cons p fs)
  then have "range_set p \<inter> free_set fs = {}" by (simp add: ranges_ok_simps gaps_disjoint)
  moreover have "card (range_set p) = snd p" "finite (range_set p)" by (auto simp: range_set_def)
  ultimately show ?case using Cons by (simp add: card_Un_disjoint ranges_ok_simps)
qed simp

lemma free_set_within: "ranges_ok lo hi fs \<Longrightarrow> free_set fs \<subseteq> {lo ..< hi}"
  by (induction fs) (auto simp: ranges_ok_simps range_ok_def range_set_def)

lemma sum_le_window: "ranges_ok lo hi fs \<Longrightarrow> sum_list (map snd fs) \<le> hi - lo"
  using free_set_card [of lo hi fs] card_mono [OF _ free_set_within [of lo hi fs]] by simp

lemma va_page_round_Some:
  "va_page_round n = Some r \<longleftrightarrow> n + 4095 < usize_limit \<and> r = (n + 4095) div 4096 * 4096"
  by (auto simp: va_page_round_def VA_PAGE_def minus_mod_eq_div_mult)

lemma page_ceiling: "(n + 4095) div 4096 * 4096 = r \<Longrightarrow> n \<le> r \<and> r < n + 4096 \<and> 4096 dvd (r :: nat)"
  by (auto simp: dvd_def)

text \<open>A run of free addresses lies in one free range, because the ranges do not touch.\<close>

lemma run_in_range:
  assumes "ranges_ok lo hi fs" and "{a ..< a + n} \<subseteq> free_set fs" and "0 < n"
  shows "\<exists>p \<in> set fs. fst p \<le> a \<and> a + n \<le> fst p + snd p"
  using assms(1,2)
proof (induction fs)
  case (Cons p fs)
  have above: "fst p + snd p < x" if "x \<in> free_set fs" for x
    using that Cons.prems(1) by (fastforce simp: free_set_def ranges_ok_simps list_all_iff gap_def range_set_def)
  have a: "a \<in> range_set p \<union> free_set fs" using Cons.prems(2) assms(3) by (metis atLeastLessThan_iff free_set_simps(2) le_refl less_add_same_cancel1 subsetD)
  show ?case
  proof (cases "a \<in> range_set p")
    case True
    have "\<not> fst p + snd p < a + n"
    proof
      assume "fst p + snd p < a + n"
      then have "fst p + snd p \<in> {a ..< a + n}" using True by (auto simp: range_set_def)
      then have "fst p + snd p \<in> free_set fs" using Cons.prems(2) by (auto simp: range_set_def)
      then show False using above by blast
    qed
    then show ?thesis using True by (auto simp: range_set_def)
  next
    case False
    then have "fst p + snd p < a" using a above by blast
    then have "{a ..< a + n} \<subseteq> free_set fs" using Cons.prems(2) by (fastforce simp: range_set_def)
    then show ?thesis using Cons by (auto simp: ranges_ok_simps)
  qed
qed (use assms(3) in auto)

definition range_alloc :: "nat \<Rightarrow> nat \<times> nat \<Rightarrow> (nat \<times> nat) list" where
  "range_alloc need p = (if snd p = need then [] else [(fst p + need, snd p - need)])"

lemma range_alloc_ok:
  assumes "ranges_ok lo hi (xs @ p # ys)" and "need \<le> snd p" and "VA_PAGE dvd need" and "0 < need"
  shows "ranges_ok lo hi (xs @ range_alloc need p @ ys)"
    and "free_set (xs @ range_alloc need p @ ys) = free_set (xs @ p # ys) - {fst p ..< fst p + need}"
    and "sum_list (map snd (xs @ range_alloc need p @ ys)) + need = sum_list (map snd (xs @ p # ys))"
proof -
  have "list_all (gap (fst p + need, snd p - need)) ys" if "snd p \<noteq> need"
    using assms(1,2) by (auto simp: ranges_ok_simps list_all_iff gap_def)
  moreover have "range_ok lo hi (fst p + need, snd p - need)" if "snd p \<noteq> need"
    using assms that by (auto simp: ranges_ok_simps range_ok_def)
  ultimately show "ranges_ok lo hi (xs @ range_alloc need p @ ys)"
    using assms(1) by (auto simp: ranges_ok_simps range_alloc_def list_all_iff gap_def)
  have "free_set xs \<inter> range_set p = {}"
    using assms(1) by (fastforce simp: ranges_ok_simps list_all_iff free_set_def dest: gap_disjoint)
  moreover have "range_set p \<inter> free_set ys = {}" using assms(1) by (simp add: ranges_ok_simps gaps_disjoint)
  moreover have "free_set (range_alloc need p) = range_set p - {fst p ..< fst p + need}"
    using assms(2) by (auto simp: range_alloc_def range_set_def)
  moreover have "{fst p ..< fst p + need} \<subseteq> range_set p" using assms(2) by (auto simp: range_set_def)
  ultimately show "free_set (xs @ range_alloc need p @ ys) = free_set (xs @ p # ys) - {fst p ..< fst p + need}"
    by auto
  show "sum_list (map snd (xs @ range_alloc need p @ ys)) + need = sum_list (map snd (xs @ p # ys))"
    using assms(2) by (simp add: range_alloc_def)
qed

lemma run_fits:
  assumes "va_ok w" and "{a ..< a + sz} \<subseteq> free_set (vw_free w)" and "0 < sz"
  obtains p where "p \<in> set (vw_free w)" and "sz \<le> snd p" and "4096 dvd snd p" and "snd p < usize_limit"
proof -
  obtain p where p: "p \<in> set (vw_free w)" "sz \<le> snd p"
    using run_in_range [of "vw_base w" "vw_top w" "vw_free w" a sz] assms by (fastforce simp: va_ok_def)
  then have "range_ok (vw_base w) (vw_top w) p" using assms(1) by (auto simp: va_ok_def ranges_ok_def list_all_iff)
  then show thesis using p assms(1) by (intro that [of p]) (auto simp: va_ok_def range_ok_def VA_PAGE_def)
qed

lemma va_alloc_refuses:
  assumes "va_ok w" and "\<And>need. va_page_round sz = Some need \<Longrightarrow> \<not> list_ex (\<lambda>(_, len). need \<le> len) (vw_free w)" and "0 < sz"
  shows "\<not> {a ..< a + sz} \<subseteq> free_set (vw_free w)"
proof
  assume "{a ..< a + sz} \<subseteq> free_set (vw_free w)"
  with assms(1,3) obtain p k where p: "p \<in> set (vw_free w)" "sz \<le> snd p" and k: "snd p = 4096 * k" "snd p < usize_limit"
    by (elim run_fits) (auto elim: dvdE)
  have "sz + 4095 < usize_limit" using p(2) k by (simp add: usize_limit_def)
  then have "va_page_round sz = Some ((sz + 4095) div 4096 * 4096)" by (simp add: va_page_round_Some)
  moreover have "(sz + 4095) div 4096 * 4096 \<le> snd p" using p(2) k(1) by simp
  ultimately show False using p(1) assms(2) by (fastforce simp: list_ex_iff)
qed

lemma va_alloc_takes:
  assumes "va_ok w" and "0 < sz" and "va_page_round sz = Some need" and "position (\<lambda>(_, len). need \<le> len) (vw_free w) = Some i"
  shows "\<exists>w' a. va_alloc sz w = Some (Some a, w') \<and> va_ok w' \<and> VA_PAGE dvd a \<and>
       {a ..< a + need} \<subseteq> free_set (vw_free w) \<and> free_set (vw_free w') = free_set (vw_free w) - {a ..< a + need} \<and>
       vw_live w' = vw_live w + need \<and> vw_base w' = vw_base w \<and> vw_top w' = vw_top w"
proof -
  define p where "p = vw_free w ! i"
  define xs where "xs = take i (vw_free w)"
  define ys where "ys = drop (Suc i) (vw_free w)"
  have fs: "vw_free w = xs @ p # ys" and i: "i < length (vw_free w)" and need: "need \<le> snd p" "0 < need" "VA_PAGE dvd need"
    using position_Some [OF assms(4)] assms(2,3) page_ceiling [of sz need]
    by (auto simp: p_def xs_def ys_def va_page_round_Some VA_PAGE_def)
  have ok: "ranges_ok (vw_base w) (vw_top w) (xs @ p # ys)" using assms(1) fs by (simp add: va_ok_def)
  then have p: "range_ok (vw_base w) (vw_top w) p" by (simp add: ranges_ok_simps)
  have upd: "(vw_free w)[i := q] = xs @ q # ys" for q using i by (simp add: xs_def ys_def upd_conv_take_nth_drop)
  have sum: "vw_live w + sum_list (map snd (xs @ p # ys)) = vw_top w - vw_base w" "vw_top w < usize_limit" "vw_base w \<le> vw_top w"
    using assms(1) fs by (auto simp: va_ok_def)
  let ?fs = "xs @ range_alloc need p @ ys" and ?live = "vw_live w + need"
  let ?w = "w\<lparr>vw_free := ?fs, vw_live := ?live, vw_peak := if ?live > vw_peak w then ?live else vw_peak w\<rparr>"
  have "va_alloc sz w = Some (Some (fst p), ?w)"
    using assms(2-4) need p sum upd
    by (auto simp: va_alloc_def p_def [symmetric] xs_def [symmetric] ys_def [symmetric] range_alloc_def range_ok_def
        checked_add_def checked_sub_def case_prod_unfold)
  have "{fst p ..< fst p + need} \<subseteq> free_set (vw_free w)" using need fs by (auto simp: range_set_def)
  have "va_ok ?w" using range_alloc_ok(1,3) [OF ok need(1,3,2)] sum by (simp add: va_ok_def)
  have "free_set (vw_free ?w) = free_set (vw_free w) - {fst p ..< fst p + need}"
    using range_alloc_ok(2) [OF ok need(1,3,2)] fs by simp
  have "VA_PAGE dvd fst p" using p by (simp add: range_ok_def)
  have "vw_live ?w = vw_live w + need" "vw_base ?w = vw_base w" "vw_top ?w = vw_top w" by simp_all
  show ?thesis by (rule exI [of _ ?w], rule exI [of _ "fst p"]) (intro conjI; fact)
qed

lemma va_alloc_exact:
  assumes "va_ok w"
  shows "(\<exists>need a w'. 0 < sz \<and> va_page_round sz = Some need \<and> va_alloc sz w = Some (Some a, w') \<and> va_ok w' \<and> VA_PAGE dvd a \<and>
       {a ..< a + need} \<subseteq> free_set (vw_free w) \<and> free_set (vw_free w') = free_set (vw_free w) - {a ..< a + need} \<and>
       vw_live w' = vw_live w + need \<and> vw_base w' = vw_base w \<and> vw_top w' = vw_top w) \<or>
     va_alloc sz w = Some (None, w) \<and> (sz = 0 \<or> (\<forall>a. \<not> {a ..< a + sz} \<subseteq> free_set (vw_free w)))"
proof (cases "\<exists>need i. 0 < sz \<and> va_page_round sz = Some need \<and> position (\<lambda>(_, len). need \<le> len) (vw_free w) = Some i")
  case True
  then show ?thesis using va_alloc_takes [OF assms, of sz] by blast
next
  case False
  then have none: "0 < sz \<Longrightarrow> va_page_round sz = Some need \<Longrightarrow> position (\<lambda>(_, len). need \<le> len) (vw_free w) = None" for need
    by auto
  then have "va_alloc sz w = Some (None, w)" by (auto simp: va_alloc_def split: option.splits)
  moreover have "\<not> {a ..< a + sz} \<subseteq> free_set (vw_free w)" if "0 < sz" for a
    using none that by (intro va_alloc_refuses [OF assms]) (auto simp: position_None)
  ultimately show ?thesis by blast
qed

section \<open>Giving a range back\<close>

text \<open>The range grows by its successor when they touch, then its predecessor by it.\<close>

definition join_right :: "nat \<times> nat \<Rightarrow> (nat \<times> nat) list \<Rightarrow> (nat \<times> nat) \<times> (nat \<times> nat) list" where
  "join_right p ys = (case ys of
      [] \<Rightarrow> (p, [])
    | q # ys' \<Rightarrow> if fst q = fst p + snd p then ((fst p, snd p + snd q), ys') else (p, ys))"

definition join_left :: "(nat \<times> nat) list \<Rightarrow> nat \<times> nat \<Rightarrow> (nat \<times> nat) list \<Rightarrow> (nat \<times> nat) list" where
  "join_left xs p ys =
     (if xs \<noteq> [] \<and> fst (last xs) + snd (last xs) = fst p then butlast xs @ (fst (last xs), snd p + snd (last xs)) # ys
      else xs @ p # ys)"

lemma gap_all_mono: "list_all (gap q) fs \<Longrightarrow> fst p + snd p \<le> fst q + snd q \<Longrightarrow> list_all (gap p) fs"
  by (auto simp: list_all_iff gap_def intro: le_less_trans)

lemma join_right_ok:
  assumes "join_right p ys = (r, zs)" and "ranges_ok lo hi ys" and "range_ok lo hi p" and "list_all (\<lambda>q. fst p + snd p \<le> fst q) ys"
  shows "ranges_ok lo hi (r # zs)" and "free_set (r # zs) = range_set p \<union> free_set ys" and "fst r = fst p"
    and "sum_list (map snd (r # zs)) = snd p + sum_list (map snd ys)" and "set zs \<subseteq> set ys"
proof -
  have "list_all (gap r) zs"
  proof (cases ys)
    case (Cons q ys')
    then have "list_all (gap q) ys'" "0 < snd q" "fst p + snd p \<le> fst q"
      using assms(2,4) by (simp_all add: ranges_ok_simps range_ok_def)
    moreover have "list_all (gap r) ys'"
      by (rule gap_all_mono [OF calculation(1)]) (use calculation assms(1) Cons in \<open>auto simp: join_right_def split: if_splits\<close>)
    ultimately show ?thesis using assms(1) Cons by (auto simp: join_right_def gap_def split: if_splits)
  qed (use assms(1) in \<open>simp add: join_right_def\<close>)
  then show "ranges_ok lo hi (r # zs)"
    using assms by (cases ys) (auto simp: join_right_def ranges_ok_simps range_ok_def split: if_splits)
  show "free_set (r # zs) = range_set p \<union> free_set ys" "fst r = fst p"
    "sum_list (map snd (r # zs)) = snd p + sum_list (map snd ys)" "set zs \<subseteq> set ys"
    using assms(1,3) by (cases ys; auto simp: join_right_def range_set_def split: if_splits)+
qed

lemma join_left_ok:
  assumes "ranges_ok lo hi xs" and "ranges_ok lo hi (p # ys)" and "list_all (\<lambda>q. fst q + snd q \<le> fst p) xs"
    and "list_all (\<lambda>q. list_all (gap q) ys) xs"
  shows "ranges_ok lo hi (join_left xs p ys) \<and> free_set (join_left xs p ys) = free_set xs \<union> free_set (p # ys) \<and>
    sum_list (map snd (join_left xs p ys)) = sum_list (map snd xs) + sum_list (map snd (p # ys))"
proof (cases "xs \<noteq> [] \<and> fst (last xs) + snd (last xs) = fst p")
  case True
  then obtain ws q where xs: "xs = ws @ [q]" by (metis rev_exhaust)
  define r where "r = (fst q, snd p + snd q)"
  have q: "fst q + snd q = fst p" using True xs by simp
  have "list_all (gap r) ys"
    by (rule gap_all_mono [of p]) (use assms(2) q in \<open>auto simp: ranges_ok_simps r_def\<close>)
  moreover have "range_ok lo hi r" using assms(1,2) q by (auto simp: xs ranges_ok_simps range_ok_def r_def)
  moreover have "list_all (\<lambda>w. gap w r \<and> list_all (gap w) ys) ws" "ranges_ok lo hi ws" "ranges_ok lo hi ys"
    using assms(1,2,4) by (auto simp: xs ranges_ok_simps list_all_iff gap_def r_def)
  ultimately have "ranges_ok lo hi (ws @ r # ys)" by (simp add: ranges_ok_simps)
  moreover have "range_set r = range_set q \<union> range_set p" using q by (auto simp: range_set_def r_def)
  moreover have "join_left xs p ys = ws @ r # ys" using q by (simp add: join_left_def xs r_def)
  ultimately show ?thesis by (simp add: xs Un_assoc) (simp add: r_def)
next
  case False
  have "gap q p" if "q \<in> set xs" for q
  proof (cases xs rule: rev_cases)
    case (snoc ws l)
    then have l: "fst l + snd l < fst p" "0 < snd l" using False assms(1,3) by (auto simp: ranges_ok_simps range_ok_def)
    moreover have "q = l \<or> gap q l" using that assms(1) by (auto simp: snoc ranges_ok_simps list_all_iff)
    ultimately show ?thesis by (auto simp: gap_def)
  qed (use that in simp)
  then have "list_all (\<lambda>q. gap q p \<and> list_all (gap q) ys) xs" using assms(4) by (simp add: list_all_iff)
  moreover have "join_left xs p ys = xs @ p # ys" using False by (auto simp: join_left_def)
  ultimately show ?thesis using assms(1,2) by (simp add: ranges_ok_simps)
qed

text \<open>Where a returned range belongs, and when it overlaps no free range.\<close>

lemma split_free:
  assumes "ranges_ok lo hi fs" and "0 < len" and "xs = takeWhile (\<lambda>(s, _). s < va) fs" and "ys = dropWhile (\<lambda>(s, _). s < va) fs"
  shows "{va ..< va + len} \<inter> free_set fs = {} \<longleftrightarrow>
      \<not> (ys \<noteq> [] \<and> fst (hd ys) < va + len) \<and> \<not> (xs \<noteq> [] \<and> va < fst (last xs) + snd (last xs))"
    and "\<not> (ys \<noteq> [] \<and> fst (hd ys) < va + len) \<Longrightarrow> list_all (\<lambda>q. va + len \<le> fst q) ys"
    and "\<not> (xs \<noteq> [] \<and> va < fst (last xs) + snd (last xs)) \<Longrightarrow> list_all (\<lambda>q. fst q + snd q \<le> va) xs"
proof -
  have fs: "fs = xs @ ys" using assms(3,4) by simp
  then have ok: "ranges_ok lo hi xs" "ranges_ok lo hi ys" using assms(1) by (simp_all add: ranges_ok_simps)
  have hy: "va \<le> fst (hd ys)" if "ys \<noteq> []" using that hd_dropWhile [of "\<lambda>(s, _). s < va" fs] assms(4) by (simp add: case_prod_unfold not_less)
  have lx: "fst (last xs) < va" if "xs \<noteq> []" using last_in_set [OF that] assms(3) set_takeWhileD [of "last xs" "\<lambda>(s, _). s < va" fs] by (simp add: case_prod_unfold)
  show right: "list_all (\<lambda>q. va + len \<le> fst q) ys" if "\<not> (ys \<noteq> [] \<and> fst (hd ys) < va + len)"
    using that ok(2) by (cases ys) (fastforce simp: ranges_ok_simps list_all_iff gap_def)+
  show left: "list_all (\<lambda>q. fst q + snd q \<le> va) xs" if "\<not> (xs \<noteq> [] \<and> va < fst (last xs) + snd (last xs))"
    using that ok(1) by (cases xs rule: rev_cases) (fastforce simp: ranges_ok_simps list_all_iff gap_def range_ok_def)+
  show "{va ..< va + len} \<inter> free_set fs = {} \<longleftrightarrow>
      \<not> (ys \<noteq> [] \<and> fst (hd ys) < va + len) \<and> \<not> (xs \<noteq> [] \<and> va < fst (last xs) + snd (last xs))"
  proof
    assume dis: "{va ..< va + len} \<inter> free_set fs = {}"
    have "fst (hd ys) \<in> free_set fs" if "ys \<noteq> []"
      using that ok(2) by (cases ys) (auto simp: fs ranges_ok_simps range_ok_def range_set_def)
    moreover have "va \<in> free_set fs" if "xs \<noteq> []" "va < fst (last xs) + snd (last xs)"
      using that lx by (cases xs rule: rev_cases) (auto simp: fs range_set_def)
    ultimately show "\<not> (ys \<noteq> [] \<and> fst (hd ys) < va + len) \<and> \<not> (xs \<noteq> [] \<and> va < fst (last xs) + snd (last xs))"
      using dis hy assms(2) by (metis atLeastLessThan_iff disjoint_iff le_refl less_add_same_cancel1)
  next
    assume "\<not> (ys \<noteq> [] \<and> fst (hd ys) < va + len) \<and> \<not> (xs \<noteq> [] \<and> va < fst (last xs) + snd (last xs))"
    then have "list_all (\<lambda>q. va + len \<le> fst q) ys" "list_all (\<lambda>q. fst q + snd q \<le> va) xs" using left right by auto
    then show "{va ..< va + len} \<inter> free_set fs = {}"
      unfolding fs by (fastforce simp: free_set_def range_set_def list_all_iff)
  qed
qed

definition returnable :: "va_window \<Rightarrow> nat \<Rightarrow> nat \<Rightarrow> bool" where
  "returnable w va len \<longleftrightarrow> VA_PAGE dvd va \<and> vw_base w \<le> va \<and> va + len \<le> vw_top w \<and> {va ..< va + len} \<inter> free_set (vw_free w) = {}"

lemma va_free_joins:
  assumes "0 < sz" "va_page_round sz = Some len" "returnable w va len" "vw_free w = xs @ ys"
    and "xs = takeWhile (\<lambda>(s, _). s < va) (vw_free w)"
    and "\<not> (ys \<noteq> [] \<and> fst (hd ys) < va + len)" "\<not> (xs \<noteq> [] \<and> va < fst (last xs) + snd (last xs))"
    and "join_right (va, len) ys = (r, zs)" and "len \<le> vw_live w" and "vw_top w < usize_limit"
    and "ranges_ok (vw_base w) (vw_top w) (join_left xs r zs)"
  shows "va_free va sz w = Some (True, w\<lparr>vw_free := join_left xs r zs, vw_live := vw_live w - len\<rparr>)"
proof -
  have i: "partition_point (\<lambda>(s, _). s < va) (vw_free w) = length xs" using assms(5) by (simp add: partition_point_def)
  have guards: "sz \<noteq> 0" "va mod VA_PAGE = 0" "\<not> va < vw_base w" "\<not> vw_top w < va + len" "checked_add va len = Some (va + len)"
    using assms(1,3,10) by (auto simp: returnable_def checked_add_def)
  have small: "fst q + snd q < usize_limit" if "q \<in> set (join_left xs r zs)" for q
    using that assms(10,11) by (auto simp: ranges_ok_def list_all_iff range_ok_def intro: le_less_trans)
  have fr: "fst r = va" "snd r < usize_limit"
    "xs \<noteq> [] \<Longrightarrow> fst (last xs) + snd (last xs) = va \<Longrightarrow> snd r + snd (last xs) < usize_limit"
  proof -
    show "fst r = va" using assms(8) by (cases ys) (auto simp: join_right_def split: if_splits)
    with small [of r] small [of "(fst (last xs), snd r + snd (last xs))"]
    show "snd r < usize_limit" "xs \<noteq> [] \<Longrightarrow> fst (last xs) + snd (last xs) = va \<Longrightarrow> snd r + snd (last xs) < usize_limit"
      by (cases "xs \<noteq> [] \<and> fst (last xs) + snd (last xs) = fst r"; auto simp: join_left_def)+
  qed
  have total: "(if length xs < length (xs @ ys) \<and> fst ((xs @ ys) ! length xs) = va + len
      then map_option (\<lambda>t. (t, take (length xs) (xs @ ys) @ drop (length xs + 1) (xs @ ys))) (checked_add len (snd ((xs @ ys) ! length xs)))
      else Some (len, xs @ ys)) = Some (snd r, xs @ zs)"
    using assms(8) fr(2) by (cases ys) (auto simp: join_right_def nth_append checked_add_def split: if_splits)
  have below: "(if length xs > 0 then (case (xs @ ys) ! (length xs - 1) of (ps, pl) \<Rightarrow> checked_add ps pl) else Some va) =
      Some (if xs = [] then va else fst (last xs) + snd (last xs))"
  proof (cases "xs = []")
    case False
    then have "(xs @ ys) ! (length xs - 1) = last xs" by (simp add: nth_append last_conv_nth)
    moreover have "fst (last xs) + snd (last xs) < usize_limit" using assms(7) False guards(4) assms(10) by auto
    ultimately show ?thesis using False by (simp add: case_prod_unfold checked_add_def)
  qed simp
  have nth: "xs \<noteq> [] \<Longrightarrow> (xs @ zs) ! (length xs - 1) = last xs"
    and upd: "xs \<noteq> [] \<Longrightarrow> (xs @ zs)[length xs - 1 := q] = butlast xs @ q # zs" for q
    by (simp_all add: nth_append last_conv_nth) (cases xs rule: rev_cases; simp add: list_update_append)
  have hd: "ys \<noteq> [] \<Longrightarrow> (xs @ ys) ! length xs = hd ys" by (simp add: nth_append hd_conv_nth)
  show ?thesis
    unfolding va_free_def Let_def i [unfolded assms(4)] assms(2,4) option.case guards(5) total below
    using guards assms(6,7,9) fr nth upd hd prod.collapse [of r]
    by (cases "xs = []"; cases "ys = []") (auto simp: checked_sub_def checked_add_def join_left_def hd_conv_nth)
qed

lemma va_free_takes:
  assumes "va_ok w" and "0 < sz" and "va_page_round sz = Some len" and "returnable w va len"
  shows "\<exists>fs. va_free va sz w = Some (True, w\<lparr>vw_free := fs, vw_live := vw_live w - len\<rparr>) \<and> len \<le> vw_live w \<and>
    ranges_ok (vw_base w) (vw_top w) fs \<and> free_set fs = free_set (vw_free w) \<union> {va ..< va + len} \<and>
    sum_list (map snd fs) = sum_list (map snd (vw_free w)) + len"
proof -
  let ?lo = "vw_base w" and ?hi = "vw_top w"
  define xs where "xs = takeWhile (\<lambda>(s, _). s < va) (vw_free w)"
  define ys where "ys = dropWhile (\<lambda>(s, _). s < va) (vw_free w)"
  have fs: "vw_free w = xs @ ys" by (simp add: xs_def ys_def)
  have ok: "ranges_ok ?lo ?hi (xs @ ys)" "?hi < usize_limit" and live: "vw_live w + sum_list (map snd (xs @ ys)) = ?hi - ?lo"
    using assms(1) fs by (auto simp: va_ok_def)
  have len: "0 < len" "VA_PAGE dvd len" using assms(2,3) page_ceiling [of sz len] by (auto simp: va_page_round_Some VA_PAGE_def)
  note split = split_free [OF ok(1) len(1) xs_def [unfolded fs] ys_def [unfolded fs]]
  have clear: "\<not> (ys \<noteq> [] \<and> fst (hd ys) < va + len)" "\<not> (xs \<noteq> [] \<and> va < fst (last xs) + snd (last xs))"
    using split(1) assms(4) fs by (auto simp: returnable_def)
  obtain r zs where r: "join_right (va, len) ys = (r, zs)" by (cases "join_right (va, len) ys")
  have p: "range_ok ?lo ?hi (va, len)" using assms(4) len by (auto simp: returnable_def range_ok_def)
  have oks: "ranges_ok ?lo ?hi xs" "ranges_ok ?lo ?hi ys" "list_all (\<lambda>q. list_all (gap q) ys) xs"
    using ok(1) by (simp_all add: ranges_ok_simps)
  have "list_all (\<lambda>q. fst (va, len) + snd (va, len) \<le> fst q) ys" using split(2) [OF clear(1)] by simp
  note jr = join_right_ok [OF r oks(2) p this]
  have "list_all (\<lambda>q. fst q + snd q \<le> fst r) xs" using split(3) [OF clear(2)] jr(3) by simp
  moreover have "list_all (\<lambda>q. list_all (gap q) zs) xs" using oks(3) jr(5) by (auto simp: list_all_iff)
  ultimately have jl: "ranges_ok ?lo ?hi (join_left xs r zs)"
    "free_set (join_left xs r zs) = free_set xs \<union> (range_set (va, len) \<union> free_set ys)"
    "sum_list (map snd (join_left xs r zs)) = sum_list (map snd xs) + (len + sum_list (map snd ys))"
    using join_left_ok [OF oks(1) jr(1)] jr(2,4) by auto
  have le: "len \<le> vw_live w" using sum_le_window [OF jl(1)] jl(3) live by simp
  have "va_free va sz w = Some (True, w\<lparr>vw_free := join_left xs r zs, vw_live := vw_live w - len\<rparr>)"
    by (rule va_free_joins [OF assms(2-4) fs xs_def clear r le ok(2) jl(1)])
  then show ?thesis using jl le fs by (intro exI [of _ "join_left xs r zs"]) (auto simp: range_set_def)
qed

lemma va_free_refuses:
  assumes "va_ok w" and "\<not> (\<exists>len. 0 < sz \<and> va_page_round sz = Some len \<and> returnable w va len)"
  shows "va_free va sz w = Some (False, w)"
proof (cases "\<exists>len. 0 < sz \<and> VA_PAGE dvd va \<and> va_page_round sz = Some len \<and> vw_base w \<le> va \<and> va + len \<le> vw_top w")
  case True
  then obtain len where len: "0 < sz" "VA_PAGE dvd va" "va_page_round sz = Some len" "vw_base w \<le> va" "va + len \<le> vw_top w" by auto
  define xs where "xs = takeWhile (\<lambda>(s, _). s < va) (vw_free w)"
  define ys where "ys = dropWhile (\<lambda>(s, _). s < va) (vw_free w)"
  have fs: "vw_free w = xs @ ys" by (simp add: xs_def ys_def)
  have ok: "ranges_ok (vw_base w) (vw_top w) (vw_free w)" "vw_top w < usize_limit" using assms(1) by (auto simp: va_ok_def)
  have "0 < len" using len(1,3) page_ceiling [of sz len] by (auto simp: va_page_round_Some)
  from split_free(1) [OF ok(1) this xs_def ys_def] len assms(2)
  have over: "(ys \<noteq> [] \<and> fst (hd ys) < va + len) \<or> (xs \<noteq> [] \<and> va < fst (last xs) + snd (last xs))"
    by (auto simp: returnable_def)
  have i: "partition_point (\<lambda>(s, _). s < va) (vw_free w) = length xs" by (simp add: partition_point_def xs_def)
  have l: "xs \<noteq> [] \<Longrightarrow> (xs @ ys) ! (length xs - 1) = last xs" "ys \<noteq> [] \<Longrightarrow> (xs @ ys) ! length xs = hd ys"
    by (simp_all add: nth_append last_conv_nth hd_conv_nth)
  have "checked_add va len = Some (va + len)" using len(5) ok(2) by (simp add: checked_add_def)
  moreover have "xs \<noteq> [] \<Longrightarrow> checked_add (fst (last xs)) (snd (last xs)) = Some (fst (last xs) + snd (last xs))"
    using ok last_in_set [of xs] by (auto simp: fs ranges_ok_def list_all_iff range_ok_def checked_add_def intro: le_less_trans)
  ultimately show ?thesis
    unfolding va_free_def Let_def i [unfolded fs] fs using len over l by (auto simp: case_prod_unfold checked_add_def)
next
  case False
  then show ?thesis by (auto simp: va_free_def dvd_eq_mod_eq_0 checked_add_def split: option.splits)
qed

section \<open>The window over a session\<close>

lemma va_ok_live: "va_ok w \<Longrightarrow> free_set (vw_free w) \<subseteq> {vw_base w ..< vw_top w}"
  by (auto simp: va_ok_def dest: free_set_within)

lemma va_free_ok:
  assumes "va_ok w" and "0 < sz" and "va_page_round sz = Some len" and "returnable w va len"
  shows "\<exists>w'. va_free va sz w = Some (True, w') \<and> va_ok w' \<and> free_set (vw_free w') = free_set (vw_free w) \<union> {va ..< va + len} \<and>
    vw_live w' + len = vw_live w \<and> vw_base w' = vw_base w \<and> vw_top w' = vw_top w"
proof -
  obtain fs where fs: "va_free va sz w = Some (True, w\<lparr>vw_free := fs, vw_live := vw_live w - len\<rparr>)" "len \<le> vw_live w"
    "ranges_ok (vw_base w) (vw_top w) fs" "free_set fs = free_set (vw_free w) \<union> {va ..< va + len}"
    "sum_list (map snd fs) = sum_list (map snd (vw_free w)) + len"
    using va_free_takes [OF assms] by blast
  then show ?thesis using assms(1) by (auto simp: va_ok_def)
qed

text \<open>C31. The allocator implements a set of free addresses. On every well-formed window both operations end without a
  panic and keep it well formed. An allocation takes whole pages out of the free set, at a page boundary, and is refused only when no
  run of that many free addresses exists anywhere. A range is taken back exactly when it is aligned, inside the window
  and overlaps nothing free; it then joins the free set, and otherwise nothing changes.\<close>

theorem va_window_refines:
  assumes "va_ok w"
  shows "(\<exists>r w'. va_alloc sz w = Some (r, w') \<and> va_ok w' \<and>
      (case r of
         Some a \<Rightarrow> (\<exists>need. va_page_round sz = Some need \<and> VA_PAGE dvd a \<and> {a ..< a + need} \<subseteq> free_set (vw_free w) \<and>
                    free_set (vw_free w') = free_set (vw_free w) - {a ..< a + need})
       | None \<Rightarrow> w' = w \<and> (sz = 0 \<or> (\<forall>a. \<not> {a ..< a + sz} \<subseteq> free_set (vw_free w))))) \<and>
    (\<exists>ok w'. va_free va sz w = Some (ok, w') \<and> va_ok w' \<and>
      ok = (\<exists>len. 0 < sz \<and> va_page_round sz = Some len \<and> returnable w va len) \<and>
      (if ok then \<exists>len. va_page_round sz = Some len \<and> free_set (vw_free w') = free_set (vw_free w) \<union> {va ..< va + len} else w' = w))"
proof
  show "\<exists>r w'. va_alloc sz w = Some (r, w') \<and> va_ok w' \<and>
      (case r of
         Some a \<Rightarrow> (\<exists>need. va_page_round sz = Some need \<and> VA_PAGE dvd a \<and> {a ..< a + need} \<subseteq> free_set (vw_free w) \<and>
                    free_set (vw_free w') = free_set (vw_free w) - {a ..< a + need})
       | None \<Rightarrow> w' = w \<and> (sz = 0 \<or> (\<forall>a. \<not> {a ..< a + sz} \<subseteq> free_set (vw_free w))))"
    using va_alloc_exact [OF assms, of sz]
  proof
    assume "va_alloc sz w = Some (None, w) \<and> (sz = 0 \<or> (\<forall>a. \<not> {a ..< a + sz} \<subseteq> free_set (vw_free w)))"
    then show ?thesis using assms by (intro exI [of _ None] exI [of _ w]) simp
  qed (elim exE conjE, intro exI conjI, assumption+, simp)
  show "\<exists>ok w'. va_free va sz w = Some (ok, w') \<and> va_ok w' \<and>
      ok = (\<exists>len. 0 < sz \<and> va_page_round sz = Some len \<and> returnable w va len) \<and>
      (if ok then \<exists>len. va_page_round sz = Some len \<and> free_set (vw_free w') = free_set (vw_free w) \<union> {va ..< va + len} else w' = w)"
  proof (cases "\<exists>len. 0 < sz \<and> va_page_round sz = Some len \<and> returnable w va len")
    case True
    then obtain len w' where "va_page_round sz = Some len" "va_free va sz w = Some (True, w')" "va_ok w'"
      "free_set (vw_free w') = free_set (vw_free w) \<union> {va ..< va + len}"
      using va_free_ok [OF assms] by meson
    with True show ?thesis by (intro exI [of _ True] exI [of _ w']) simp
  next
    case False
    then show ?thesis using va_free_refuses [OF assms False] assms by auto
  qed
qed

lemma va_new_ok:
  assumes "VA_PAGE dvd base" and "VA_PAGE dvd top'" and "base < top'" and "top' < usize_limit"
  shows "va_ok (va_new base top')" and "free_set (vw_free (va_new base top')) = {base ..< top'}"
proof -
  have "vw_free (va_new base top') = [(base, top' - base)]" using assms by (simp add: va_new_def dvd_eq_mod_eq_0)
  moreover have "VA_PAGE dvd top' - base" using assms by (intro dvd_diff_nat)
  ultimately show "va_ok (va_new base top')" and "free_set (vw_free (va_new base top')) = {base ..< top'}"
    using assms by (auto simp: va_ok_def ranges_ok_simps range_ok_def range_set_def) (simp_all add: va_new_def)
qed

theorem va_window_refines_witness:
  "(\<forall>a. \<not> {a ..< a + 8192} \<subseteq> free_set (vw_free (va_new 4096 8192))) \<and>
   (\<exists>w'. va_free 4096 1 (va_new 4096 8192) = Some (False, w'))"
proof -
  have ok: "va_ok (va_new 4096 8192)" "free_set (vw_free (va_new 4096 8192)) = {4096 ..< 8192}"
    using va_new_ok [of 4096 8192] by (simp_all add: VA_PAGE_def usize_limit_def)
  have "va_alloc 8192 (va_new 4096 8192) = Some (None, va_new 4096 8192)"
    by (simp add: va_alloc_def va_new_def va_page_round_def checked_add_def usize_limit_def VA_PAGE_def)
  moreover have "\<not> returnable (va_new 4096 8192) 4096 len" if "va_page_round 1 = Some len" for len
    using that ok(2) page_ceiling [of 1 len] by (auto simp: returnable_def va_page_round_Some)
  ultimately show ?thesis using va_window_refines [OF ok(1), of 8192 0] va_window_refines [OF ok(1), of 1 4096] by auto
qed

text \<open>A session of a client that gives back what it was given: it holds blocks as address and size.\<close>

datatype va_op = VAlloc nat | VFree nat

fun va_step :: "va_op \<Rightarrow> va_window \<times> (nat \<times> nat) list \<Rightarrow> (va_window \<times> (nat \<times> nat) list) option" where
  "va_step (VAlloc sz) (w, held) =
     (case va_alloc sz w of
        None \<Rightarrow> None
      | Some (None, w') \<Rightarrow> Some (w', held)
      | Some (Some a, w') \<Rightarrow> Some (w', (a, sz) # held))"
| "va_step (VFree i) (w, held) =
     (if i \<ge> length held then Some (w, held)
      else case va_free (fst (held ! i)) (snd (held ! i)) w of
        Some (True, w') \<Rightarrow> Some (w', take i held @ drop (Suc i) held)
      | _ \<Rightarrow> None)"

fun va_run :: "va_op list \<Rightarrow> va_window \<times> (nat \<times> nat) list \<Rightarrow> (va_window \<times> (nat \<times> nat) list) option" where
  "va_run [] s = Some s"
| "va_run (op # ops) s = (case va_step op s of None \<Rightarrow> None | Some s' \<Rightarrow> va_run ops s')"

definition block_pages :: "nat \<times> nat \<Rightarrow> nat \<times> nat" where
  "block_pages b = (fst b, (snd b + 4095) div 4096 * 4096)"

definition block_ok :: "nat \<times> nat \<Rightarrow> bool" where
  "block_ok b \<longleftrightarrow> 0 < snd b \<and> VA_PAGE dvd fst b \<and> snd b + 4095 < usize_limit"

definition held_ok :: "nat \<Rightarrow> nat \<Rightarrow> va_window \<times> (nat \<times> nat) list \<Rightarrow> bool" where
  "held_ok base top' s \<longleftrightarrow> (case s of (w, held) \<Rightarrow>
     va_ok w \<and> vw_base w = base \<and> vw_top w = top' \<and> list_all block_ok held \<and>
     sorted_wrt (\<lambda>p q. range_set p \<inter> range_set q = {}) (map block_pages held) \<and>
     free_set (map block_pages held) = {base ..< top'} - free_set (vw_free w) \<and>
     vw_live w = sum_list (map snd (map block_pages held)))"

lemma page_round_block: "block_ok b \<Longrightarrow> va_page_round (snd b) = Some (snd (block_pages b))"
  by (simp add: block_ok_def block_pages_def va_page_round_Some)

lemma range_block: "range_set (block_pages b) = {fst b ..< fst b + snd (block_pages b)}"
  by (simp add: range_set_def block_pages_def)

lemma held_alloc:
  assumes "held_ok base top' (w, held)"
  shows "\<exists>s. va_step (VAlloc sz) (w, held) = Some s \<and> held_ok base top' s"
proof -
  have w: "va_ok w" "vw_base w = base" "vw_top w = top'" using assms by (simp_all add: held_ok_def)
  consider (none) "va_alloc sz w = Some (None, w)"
    | (some) need a w' where "0 < sz" "va_page_round sz = Some need" "va_alloc sz w = Some (Some a, w')" "va_ok w'" "VA_PAGE dvd a"
        "{a ..< a + need} \<subseteq> free_set (vw_free w)" "free_set (vw_free w') = free_set (vw_free w) - {a ..< a + need}"
        "vw_live w' = vw_live w + need" "vw_base w' = vw_base w" "vw_top w' = vw_top w"
    using va_alloc_exact [OF w(1), of sz] by blast
  then show ?thesis
  proof cases
    case none
    then show ?thesis using assms by simp
  next
    case (some need a w')
    note * = some
  have b: "block_ok (a, sz)" "block_pages (a, sz) = (a, need)" "range_set (a, need) = {a ..< a + need}"
    using * by (auto simp: block_ok_def block_pages_def va_page_round_Some range_set_def)
  have "{a ..< a + need} \<subseteq> {base ..< top'}" using order_trans [OF *(6) va_ok_live [OF w(1)]] w by simp
  then have "free_set (map block_pages ((a, sz) # held)) = {base ..< top'} - free_set (vw_free w')"
    using assms *(6,7) b by (auto simp: held_ok_def)
  moreover have "list_all (\<lambda>q. range_set (a, need) \<inter> range_set q = {}) (map block_pages held)"
  proof -
    have "free_set (map block_pages held) \<inter> {a ..< a + need} = {}" using assms *(6) by (auto simp: held_ok_def)
    then show ?thesis using b(3) by (fastforce simp: free_set_def list_all_iff)
  qed
  ultimately have "held_ok base top' (w', (a, sz) # held)"
    using assms * b w by (auto simp: held_ok_def list_all_iff)
  then show ?thesis using *(3) by simp
  qed
qed

lemma free_set_remove:
  assumes "sorted_wrt (\<lambda>p q. range_set p \<inter> range_set q = {}) (xs @ p # ys)"
  shows "free_set (xs @ ys) = free_set (xs @ p # ys) - range_set p"
  using assms by (auto simp: sorted_wrt_append free_set_def)

lemma held_free:
  assumes "held_ok base top' (w, held)"
  shows "\<exists>s. va_step (VFree i) (w, held) = Some s \<and> held_ok base top' s"
proof (cases "i < length held")
  case True
  define b where "b = held ! i"
  define xs where "xs = take i held"
  define ys where "ys = drop (Suc i) held"
  have held: "held = xs @ b # ys" using True by (simp add: b_def xs_def ys_def id_take_nth_drop)
  let ?R = "{fst b ..< fst b + snd (block_pages b)}"
  have inv: "va_ok w" "vw_base w = base" "vw_top w = top'" "block_ok b" "list_all block_ok (xs @ ys)"
    "sorted_wrt (\<lambda>p q. range_set p \<inter> range_set q = {}) (map block_pages xs @ block_pages b # map block_pages ys)"
    "free_set (map block_pages held) = {base ..< top'} - free_set (vw_free w)"
    "vw_live w = sum_list (map snd (map block_pages held))"
    using assms by (auto simp: held_ok_def held)
  have sub: "?R \<subseteq> {base ..< top'} - free_set (vw_free w)" using inv(7) by (auto simp: held range_block)
  have "0 < snd (block_pages b)" using inv(4) by (auto simp: block_ok_def block_pages_def)
  then have "fst b \<in> ?R" "fst b + snd (block_pages b) - 1 \<in> ?R" by auto
  then have "base \<le> fst b" "fst b + snd (block_pages b) \<le> top'" using sub by (fastforce dest!: subsetD)+
  then have "returnable w (fst b) (snd (block_pages b))" using inv sub by (auto simp: returnable_def block_ok_def)
  then obtain w' where w': "va_free (fst b) (snd b) w = Some (True, w')" "va_ok w'"
    "free_set (vw_free w') = free_set (vw_free w) \<union> ?R" "vw_live w' + snd (block_pages b) = vw_live w"
    "vw_base w' = vw_base w" "vw_top w' = vw_top w"
    using va_free_ok [OF inv(1) _ page_round_block [OF inv(4)]] inv(4) by (auto simp: block_ok_def)
  have "free_set (map block_pages (xs @ ys)) = {base ..< top'} - free_set (vw_free w')"
    using free_set_remove [OF inv(6)] inv(7) w'(3) by (simp add: held range_block Diff_eq Int_assoc Compl_Un)
  moreover have "sorted_wrt (\<lambda>p q. range_set p \<inter> range_set q = {}) (map block_pages (xs @ ys))"
    using inv(6) by (simp add: sorted_wrt_append)
  moreover have "vw_live w' = sum_list (map snd (map block_pages (xs @ ys)))" using inv(8) w'(4) by (simp add: held)
  ultimately have "held_ok base top' (w', xs @ ys)" using inv(2,3,5) w' by (simp add: held_ok_def)
  then show ?thesis using True w'(1) by (simp add: b_def xs_def ys_def)
qed (use assms in simp)

lemma held_run:
  "held_ok base top' s \<Longrightarrow> \<exists>s'. va_run ops s = Some s' \<and> held_ok base top' s'"
proof (induction ops arbitrary: s)
  case (Cons op ops)
  obtain w held where s: "s = (w, held)" by force
  have "\<exists>s'. va_step op s = Some s' \<and> held_ok base top' s'"
    using Cons.prems held_alloc held_free unfolding s by (cases op) blast+
  then show ?case using Cons.IH by fastforce
qed simp

text \<open>C17. Blocks in use never overlap, over any sequence of allocations and returns. Starting from a fresh window no operation panics and
  no return of a held block is refused; the blocks held are disjoint, the window is exactly the blocks held
  and the free set together, and the live count is the total size of the pages held.\<close>

theorem va_blocks_disjoint:
  assumes "VA_PAGE dvd base" and "VA_PAGE dvd top'" and "base < top'" and "top' < 2 ^ 64"
  shows "\<exists>w held. va_run ops (va_new base top', []) = Some (w, held) \<and>
    sorted_wrt (\<lambda>p q. range_set p \<inter> range_set q = {}) (map block_pages held) \<and>
    free_set (map block_pages held) \<inter> free_set (vw_free w) = {} \<and>
    free_set (map block_pages held) \<union> free_set (vw_free w) = {base ..< top'} \<and>
    vw_live w = sum_list (map snd (map block_pages held))"
proof -
  have new: "va_ok (va_new base top')" "free_set (vw_free (va_new base top')) = {base ..< top'}"
    using va_new_ok [of base top'] assms by (auto simp: usize_limit_def)
  then have "held_ok base top' (va_new base top', [])" by (auto simp: held_ok_def va_new_def)
  from held_run [OF this, of ops] obtain w held where r: "va_run ops (va_new base top', []) = Some (w, held)"
    and h: "held_ok base top' (w, held)" by auto
  then have "free_set (vw_free w) \<subseteq> {base ..< top'}" using va_ok_live [of w] by (auto simp: held_ok_def)
  then show ?thesis using r h by (intro exI [of _ w] exI [of _ held]) (auto simp: held_ok_def)
qed

theorem va_blocks_disjoint_witness:
  "\<exists>w held. va_run [VAlloc 5000, VAlloc 1, VFree 1, VAlloc 4096] (va_new 4096 20480, []) = Some (w, held) \<and>
    free_set (map block_pages held) \<union> free_set (vw_free w) = {4096 ..< 20480}"
  using va_blocks_disjoint [of 4096 20480 "[VAlloc 5000, VAlloc 1, VFree 1, VAlloc 4096]"] by (auto simp: VA_PAGE_def)

end
