(* ===== verification/Mmio_Source.thy ===== *)
theory Mmio_Source
  imports Warden
begin

text \<open>The program \<open>virtio-mmio-source\<close> (\<open>src/usr/virtio-mmio-source/src/main.rs\<close>): the process the warden
  spawns on the bank of transport slots to find out which of them hold a device. \<open>source_main\<close> is \<open>rs_main\<close>
  with its argument, its view of the device tree and the register reads as arguments; its value is the exit status, the
  text written to the pipe and the addresses read, or None where an unchecked sum overflows. Console output is left out,
  and the pipe takes what is written to it (a failed write is ignored by the code and would lose text).
  The theory ends with the composition of the source and the warden.\<close>

section \<open>The source program\<close>

definition REG_MAGIC_VALUE :: u64 where "REG_MAGIC_VALUE = 0x000"
definition REG_DEVICE_ID :: u64 where "REG_DEVICE_ID = 0x008"
definition VIRTIO_MMIO_MAGIC :: u32 where "VIRTIO_MMIO_MAGIC = 0x74726976"
definition BANK_VA :: u64 where "BANK_VA = 0x00500000"
definition SOURCE_EXIT_BIND :: int where "SOURCE_EXIT_BIND = 71"
definition SOURCE_EXIT_PROBE :: int where "SOURCE_EXIT_PROBE = 72"

text \<open>The plain sum of two addresses.\<close>

definition plus_u64 :: "u64 \<Rightarrow> u64 \<Rightarrow> u64 option" where
  "plus_u64 a b = (if unat a + unat b < 2 ^ 64 then Some (a + b) else None)"

text \<open>The typed node of a populated slot.\<close>

definition typed_node :: "device_node \<Rightarrow> u16 \<Rightarrow> device_node" where
  "typed_node slot device_id =
     \<lparr>dn_label = dn_label slot, dn_ids = [Virtio device_id],
      dn_resources = \<lparr>nr_compatible = [], nr_reg = nr_reg (dn_resources slot),
        nr_interrupts = nr_interrupts (dn_resources slot), nr_pci = None\<rparr>\<rparr>"

text \<open>One round of the loop over the slots: what it writes, and the addresses it reads.\<close>

definition probe_slot :: "window \<Rightarrow> (u64 \<Rightarrow> u32) \<Rightarrow> device_node \<Rightarrow> (string \<times> u64 list) option" where
  "probe_slot bank rd slot =
     (case nr_reg (dn_resources slot) of
        [] \<Rightarrow> Some ([], [])
      | (slot_pa, _) # _ \<Rightarrow>
          (case bank of (bank_pa, bank_size) \<Rightarrow>
             let read_end = sat_add slot_pa (REG_DEVICE_ID + 4)
             in if slot_pa < bank_pa \<or> read_end > sat_add bank_pa bank_size then Some ([], [])
                else do {
                  slot_va \<leftarrow> plus_u64 BANK_VA (slot_pa - bank_pa);
                  magic_va \<leftarrow> plus_u64 slot_va REG_MAGIC_VALUE;
                  if rd magic_va \<noteq> VIRTIO_MMIO_MAGIC then Some ([], [magic_va])
                  else do {
                    id_va \<leftarrow> plus_u64 slot_va REG_DEVICE_ID;
                    let device_id = rd id_va;
                    if device_id = 0 then Some ([], [magic_va, id_va])
                    else if unat device_id \<ge> 2 ^ 16 then Some ([], [magic_va, id_va])
                    else
                      (case to_record (typed_node slot (ucast device_id)) of
                         Inr rec \<Rightarrow> Some (rec @ [CHR 0x0A], [magic_va, id_va])
                       | Inl _ \<Rightarrow> Some ([], [magic_va, id_va]))
                  }
                }))"

fun probe_loop :: "window \<Rightarrow> (u64 \<Rightarrow> u32) \<Rightarrow> device_node list \<Rightarrow> (string \<times> u64 list) option" where
  "probe_loop bank rd [] = Some ([], [])"
| "probe_loop bank rd (slot # slots) = do {
     (out, as) \<leftarrow> probe_slot bank rd slot;
     (out', as') \<leftarrow> probe_loop bank rd slots;
     Some (out @ out', as @ as')
   }"

text \<open>\<open>mapped\<close> is whether the kernel maps the bank.\<close>

definition source_main :: "string option \<Rightarrow> file_reader \<Rightarrow> listing \<Rightarrow> bool \<Rightarrow> (u64 \<Rightarrow> u32) \<Rightarrow> (int \<times> string \<times> u64 list) option" where
  "source_main arg files hw mapped rd =
     (case driver_bind arg of
        Inl _ \<Rightarrow> Some (SOURCE_EXIT_BIND, [], [])
      | Inr res \<Rightarrow>
          (case br_mmio res of
             [] \<Rightarrow> Some (SOURCE_EXIT_BIND, [], [])
           | bank # _ \<Rightarrow> do {
               dtb \<leftarrow> dtb_enumerate files hw dtb_root;
               if \<not> mapped then Some (SOURCE_EXIT_PROBE, [], [])
               else do {
                 (out, as) \<leftarrow> probe_loop bank rd (filter is_virtio_mmio dtb);
                 Some (0, out, as)
               }
             }))"

section \<open>The registers it reads\<close>

text \<open>A four-byte read at an address lies in the mapped bank.\<close>

definition in_bank :: "window \<Rightarrow> u64 \<Rightarrow> bool" where
  "in_bank bank a \<longleftrightarrow> unat BANK_VA \<le> unat a \<and> unat a + 4 \<le> unat BANK_VA + unat (snd bank)"

text \<open>A bank that fits the address space where the source maps it.\<close>

definition bank_maps :: "window \<Rightarrow> bool" where
  "bank_maps bank \<longleftrightarrow> unat (fst bank) + unat (snd bank) < 2 ^ 64 - 1 \<and> unat BANK_VA + unat (snd bank) < 2 ^ 64"

text \<open>What a slot's registers say, when the slot lies in the bank.\<close>

definition slot_va :: "window \<Rightarrow> u64 \<Rightarrow> u64" where
  "slot_va bank pa = BANK_VA + (pa - fst bank)"

definition probed_id :: "window \<Rightarrow> (u64 \<Rightarrow> u32) \<Rightarrow> device_node \<Rightarrow> u16 option" where
  "probed_id bank rd slot =
     (case nr_reg (dn_resources slot) of
        [] \<Rightarrow> None
      | (pa, _) # _ \<Rightarrow>
          if fst bank \<le> pa \<and> unat pa + 12 \<le> unat (fst bank) + unat (snd bank) \<and>
             rd (slot_va bank pa) = VIRTIO_MMIO_MAGIC \<and> rd (slot_va bank pa + 8) \<noteq> 0 \<and> unat (rd (slot_va bank pa + 8)) < 2 ^ 16
          then Some (ucast (rd (slot_va bank pa + 8))) else None)"

lemma probe_slot_exact:
  assumes "bank_maps bank"
  shows "\<exists>as. probe_slot bank rd slot =
      Some (case probed_id bank rd slot of
              None \<Rightarrow> []
            | Some n \<Rightarrow> (case to_record (typed_node slot n) of Inr rec \<Rightarrow> rec @ [CHR 0x0A] | Inl _ \<Rightarrow> []), as) \<and>
    list_all (in_bank bank) as"
proof (cases "nr_reg (dn_resources slot)")
  case (Cons w ws)
  obtain pa sz where w: "w = (pa, sz)" by force
  obtain bpa bsz where b: "bank = (bpa, bsz)" by force
  have bank: "unat bpa + unat bsz < 2 ^ 64 - 1" "0x500000 + unat bsz < 2 ^ 64" using assms by (auto simp: bank_maps_def b BANK_VA_def)
  have top: "unat (sat_add bpa bsz) = unat bpa + unat bsz" using bank(1) by (simp add: unat_sat_add)
  show ?thesis
  proof (cases "bpa \<le> pa \<and> unat pa + 12 \<le> unat bpa + unat bsz")
    case True
    then have d: "unat (pa - bpa) = unat pa - unat bpa" by (simp add: unat_sub)
    have "unat BANK_VA + unat (pa - bpa) + 12 \<le> 0x500000 + unat bsz"
      using True d by (auto simp: BANK_VA_def word_le_nat_alt)
    then have va: "unat (slot_va bank pa) = 0x500000 + unat (pa - bpa)" "unat (slot_va bank pa) + 12 \<le> 0x500000 + unat bsz"
      using bank(2) by (simp_all add: slot_va_def b unat_word_ariths BANK_VA_def)
    have id: "unat (slot_va bank pa + 8) = unat (slot_va bank pa) + 8"
      using va(2) bank(2) by (simp add: unat_word_ariths)
    have sums: "plus_u64 BANK_VA (pa - bpa) = Some (slot_va bank pa)" "plus_u64 (slot_va bank pa) REG_MAGIC_VALUE = Some (slot_va bank pa)"
      "plus_u64 (slot_va bank pa) REG_DEVICE_ID = Some (slot_va bank pa + 8)"
      using va bank(2) by (simp_all add: plus_u64_def slot_va_def b BANK_VA_def REG_MAGIC_VALUE_def REG_DEVICE_ID_def)
    have "unat (sat_add pa 12) = unat pa + 12" using True bank(1) by (simp add: unat_sat_add)
    then have guard: "\<not> (pa < bpa \<or> sat_add pa (REG_DEVICE_ID + 4) > sat_add bpa bsz)"
      using True top by (auto simp: REG_DEVICE_ID_def word_less_nat_alt word_le_nat_alt)
    have "in_bank bank (slot_va bank pa)" "in_bank bank (slot_va bank pa + 8)"
      using va id by (simp_all add: in_bank_def b BANK_VA_def)
    then show ?thesis using guard sums True
      by (auto simp: probe_slot_def probed_id_def Cons w b Let_def split: sum.splits)
  next
    case False
    have "unat (sat_add pa 12) = min (unat pa + 12) (2 ^ 64 - 1)" by (simp add: unat_sat_add)
    then have "pa < bpa \<or> sat_add pa (REG_DEVICE_ID + 4) > sat_add bpa bsz"
      using False top bank(1) by (auto simp: REG_DEVICE_ID_def word_less_nat_alt word_le_nat_alt min_def split: if_splits)
    then show ?thesis using False by (auto simp: probe_slot_def probed_id_def Cons w b Let_def)
  qed
qed (auto simp: probe_slot_def probed_id_def)

section \<open>What the warden reads back\<close>

definition slot_reportable :: "device_node \<Rightarrow> bool" where
  "slot_reportable s \<longleftrightarrow> CHR '';'' \<notin> set (dn_label s) \<and> CHR 0x0A \<notin> set (dn_label s) \<and>
     length (nr_reg (dn_resources s)) \<le> 8 \<and> length (nr_interrupts (dn_resources s)) \<le> 8"

definition bases_distinct :: "device_node list \<Rightarrow> bool" where
  "bases_distinct slots \<longleftrightarrow> sorted_wrt (\<lambda>s t. first_base s = None \<or> first_base s \<noteq> first_base t) slots"

definition reported :: "window \<Rightarrow> (u64 \<Rightarrow> u32) \<Rightarrow> device_node list \<Rightarrow> device_node list" where
  "reported bank rd slots =
     concat (map (\<lambda>s. case probed_id bank rd s of None \<Rightarrow> [] | Some n \<Rightarrow> [typed_node s n]) slots)"

definition record_line :: "device_node \<Rightarrow> string" where
  "record_line d = ''v1'' @ concat (map ((#) CHR '';'') (record_texts d))"

lemma digit_char_not_control: "is_digit_char c \<Longrightarrow> c \<noteq> CHR 0x0A \<and> c \<noteq> CHR 0x0D"
  by (auto simp: is_digit_char_def)

lemma last_mark: "c \<notin> set t \<Longrightarrow> c \<noteq> m \<Longrightarrow> last (p @ m # t) \<noteq> c"
  using last_in_set [of "m # t"] by (auto simp: last_append)

lemma typed_record:
  assumes "slot_reportable s"
  shows "to_record (typed_node s n) = Inr (record_line (typed_node s n))"
    and "parse_record (record_line (typed_node s n)) = Inr (typed_node s n)"
    and "CHR 0x0A \<notin> set (record_line (typed_node s n))" and "last (record_line (typed_node s n)) \<noteq> CHR 0x0D"
    and "record_line (typed_node s n) \<noteq> []"
proof -
  have ok: "record_ok (typed_node s n)" using assms by (simp add: record_ok_def typed_node_def slot_reportable_def)
  have "CHR '';'' \<notin> set (as_string (Virtio n)) \<and> CHR '','' \<notin> set (as_string (Virtio n))"
    using typed_id_ok(1) [of n] unfolding id_ok_def by blast
  then show "to_record (typed_node s n) = Inr (record_line (typed_node s n))"
    using assms show_one by (simp add: to_record_def typed_node_def record_line_def record_texts_def NODE_RECORD_VERSION_def slot_reportable_def)
  show "parse_record (record_line (typed_node s n)) = Inr (typed_node s n)"
    unfolding record_line_def by (rule parse_record_texts [OF ok])
  have hex: "CHR 0x0A \<notin> set (push_hex v) \<and> CHR 0x0D \<notin> set (push_hex v)" for v
    using push_hex_chars digit_char_not_control by blast
  have nat: "CHR 0x0A \<notin> set (show_nat k)" for k using show_nat_chars digit_char_not_control by blast
  have join: "CHR 0x0A \<notin> set (join_with '','' (map show_window ws))" "CHR 0x0A \<notin> set (join_with '','' (map show_irq is))"
    "CHR 0x0D \<notin> set (join_with '','' (map show_irq is))" for ws "is"
    using hex by (auto simp: show_window_def show_irq_def dest!: in_join)
  show "CHR 0x0A \<notin> set (record_line (typed_node s n))"
    using assms nat join by (simp add: record_line_def record_texts_def typed_node_def slot_reportable_def)
  show "last (record_line (typed_node s n)) \<noteq> CHR 0x0D"
    using last_mark [OF join(3) [of "nr_interrupts (dn_resources s)"], of "CHR ''=''" "''v1;label='' @ dn_label s @ '';id='' @ as_string (Virtio n) @
      '';reg='' @ join_with '','' (map show_window (nr_reg (dn_resources s))) @ '';intid''"]
    by (simp add: record_line_def record_texts_def typed_node_def del: last.simps)
  show "record_line (typed_node s n) \<noteq> []" by (simp add: record_line_def)
qed

lemma probe_loop_exact:
  assumes "bank_maps bank" and "list_all slot_reportable slots"
  shows "\<exists>as. probe_loop bank rd slots = Some (concat (map (\<lambda>d. record_line d @ [CHR 0x0A]) (reported bank rd slots)), as) \<and>
    list_all (in_bank bank) as"
  using assms(2)
proof (induction slots)
  case (Cons s slots)
  then obtain as where as: "probe_loop bank rd slots = Some (concat (map (\<lambda>d. record_line d @ [CHR 0x0A]) (reported bank rd slots)), as)"
    "list_all (in_bank bank) as" by auto
  obtain as' where as': "probe_slot bank rd s =
      Some (case probed_id bank rd s of
              None \<Rightarrow> []
            | Some n \<Rightarrow> (case to_record (typed_node s n) of Inr rec \<Rightarrow> rec @ [CHR 0x0A] | Inl _ \<Rightarrow> []), as')"
    "list_all (in_bank bank) as'" using probe_slot_exact [OF assms(1)] by blast
  show ?case using as as' Cons.prems typed_record(1) [of s]
    by (auto simp: reported_def split: option.splits)
qed (simp add: reported_def)

lemma str_lines_records:
  "(\<And>r. r \<in> set rs \<Longrightarrow> CHR 0x0A \<notin> set r \<and> last r \<noteq> CHR 0x0D \<and> r \<noteq> []) \<Longrightarrow> str_lines (concat (map (\<lambda>r. r @ [CHR 0x0A]) rs)) = rs"
proof -
  assume ok: "\<And>r. r \<in> set rs \<Longrightarrow> CHR 0x0A \<notin> set r \<and> last r \<noteq> CHR 0x0D \<and> r \<noteq> []"
  then have "split_on CHR 0x0A (concat (map (\<lambda>r. r @ [CHR 0x0A]) rs)) = rs @ [[]]"
  proof (induction rs)
    case (Cons r rs)
    then show ?case by (simp add: split_on_append)
  qed simp
  moreover have "map strip_cr rs = rs" using ok by (auto simp: strip_cr_def intro: map_idI)
  ultimately show ?thesis by (simp add: str_lines_def)
qed

lemma reconcile_own:
  assumes "bases_distinct slots" and "s \<in> set slots" and "first_base s \<noteq> None" and "nr_pci (dn_resources s) = None"
  shows "reconcile_reported_node (typed_node s n) slots = Some (typed_node s n)"
proof -
  obtain b where b: "first_base s = Some b" using assms(3) by auto
  have "find (\<lambda>t. first_base t = Some b) slots = Some s"
    using assms(1,2) b
  proof (induction slots)
    case (Cons t slots)
    then show ?case by (auto simp: bases_distinct_def)
  qed simp
  moreover have "first_base (typed_node s n) = Some b" using b by (simp add: first_base_def typed_node_def)
  ultimately show ?thesis using assms(4) by (simp add: reconcile_reported_node_def typed_node_def)
qed

lemma record_loop_own:
  assumes "\<And>d. d \<in> set ds \<Longrightarrow> record_line d \<noteq> [] \<and> parse_record (record_line d) = Inr d \<and> reconcile_reported_node d trusted = Some d"
  shows "record_loop trusted (map record_line ds) out = out @ ds"
  using assms by (induction ds arbitrary: out) auto

lemma probed_base: "probed_id bank rd s = Some n \<Longrightarrow> first_base s \<noteq> None"
  by (cases "nr_reg (dn_resources s)") (auto simp: probed_id_def first_base_def)

lemma reported_cases:
  assumes "d \<in> set (reported bank rd slots)"
  obtains s n where "s \<in> set slots" "d = typed_node s n" "first_base s \<noteq> None"
proof -
  obtain s where s: "s \<in> set slots" "d \<in> set (case probed_id bank rd s of None \<Rightarrow> [] | Some n \<Rightarrow> [typed_node s n])"
    using assms by (auto simp: reported_def)
  then obtain n where "probed_id bank rd s = Some n" "d = typed_node s n" by (cases "probed_id bank rd s") auto
  then show thesis using that s(1) probed_base by blast
qed

lemma source_read_back:
  assumes "list_all slot_reportable slots" and "bases_distinct slots" and "list_all (\<lambda>s. nr_pci (dn_resources s) = None) slots"
  shows "record_loop slots (str_lines (concat (map (\<lambda>d. record_line d @ [CHR 0x0A]) (reported bank rd slots)))) [] = reported bank rd slots"
proof -
  let ?ds = "reported bank rd slots"
  have own: "CHR 0x0A \<notin> set (record_line d) \<and> last (record_line d) \<noteq> CHR 0x0D \<and> record_line d \<noteq> [] \<and>
      parse_record (record_line d) = Inr d \<and> reconcile_reported_node d slots = Some d" if "d \<in> set ?ds" for d
    using that
  proof (cases rule: reported_cases)
    case (1 s n)
    then show ?thesis using assms typed_record [of s n] reconcile_own [OF assms(2) 1(1,3)] by (simp add: list_all_iff)
  qed
  then have "str_lines (concat (map (\<lambda>r. r @ [CHR 0x0A]) (map record_line ?ds))) = map record_line ?ds"
    by (intro str_lines_records) auto
  then show ?thesis using record_loop_own [of ?ds slots "[]"] own by (simp add: comp_def)
qed

section \<open>The source and the warden together\<close>

text \<open>A machine with one populated slot.\<close>

definition demo_files :: file_reader where
  "demo_files path =
     (if path = ''/hw/slot/compatible'' then Some (map (\<lambda>c. of_nat (of_char c)) ''virtio,mmio'' @ [0])
      else if path = ''/hw/slot/reg'' then Some [0, 0, 0, 0, 0x0a, 0, 0, 0, 0, 0, 0, 0, 0, 0, 2, 0]
      else None)"

definition demo_slot :: device_node where
  "demo_slot = \<lparr>dn_label = ''slot'', dn_ids = [Compatible ''virtio,mmio''],
     dn_resources = \<lparr>nr_compatible = [''virtio,mmio''], nr_reg = [(0x0a000000, 0x200)], nr_interrupts = [], nr_pci = None\<rparr>\<rparr>"

definition demo_regs :: "u64 \<Rightarrow> u32" where
  "demo_regs a = (if a = 0x500000 then 0x74726976 else if a = 0x500008 then 1 else 0)"

lemma demo_dtb: "dtb_enumerate demo_files (Some [Some (''slot'', True)]) dtb_root = Some [demo_slot]"
  by code_simp

definition demo_world :: spawn_world where
  "demo_world = \<lparr>sw_null = True, sw_spawn = True,
     sw_child = \<lparr>cw_pipe = True, cw_try_wait = (\<lambda>_. StillRunning), cw_readable = (\<lambda>_. False), cw_read = (\<lambda>_. None), cw_wait_ok = True\<rparr>\<rparr>"

definition demo_line :: string where
  "demo_line = ''v1;label=slot;id=virtio:1;reg=a000000:200;intid=''"

definition demo_buf :: bytes where
  "demo_buf = map (\<lambda>c. of_nat (of_char c)) (demo_line @ [CHR 0x0A])"

lemma demo_record: "to_record (typed_node demo_slot 1) = Inr demo_line"
  by code_simp

lemma demo_reg: "nr_reg (dn_resources demo_slot) = [(0x0a000000, 0x200)]"
  by (simp add: demo_slot_def)

lemma demo_probe: "probe_loop (0x0a000000, 0x1000) demo_regs [demo_slot] = Some (demo_line @ [CHR 0x0A], [0x500000, 0x500008])"
  by (simp add: probe_slot_def demo_reg demo_record sat_add_def plus_u64_def BANK_VA_def REG_MAGIC_VALUE_def REG_DEVICE_ID_def VIRTIO_MMIO_MAGIC_def demo_regs_def)

lemma demo_buf_ascii: "str_of demo_buf = demo_line @ [CHR 0x0A]"
  by code_simp

lemma demo_line_ok: "utf8_ok (demo_line @ [CHR 0x0A])"
  by code_simp

lemma demo_pipe: "slurp_capped (\<lambda>_. True) [Some demo_buf, Some []] (64 * 1024) = Some demo_buf"
  by (simp add: slurp_capped_def demo_buf_def demo_line_def)

lemma demo_slot_ok: "is_virtio_mmio demo_slot" "slot_reportable demo_slot"
  by (simp_all add: is_virtio_mmio_def VIRTIO_MMIO_COMPATIBLE_def demo_slot_def slot_reportable_def)

lemma demo_bank: "bank_maps (0x0a000000, 0x1000)" "bases_distinct [demo_slot]"
  "reported (0x0a000000, 0x1000) demo_regs [demo_slot] = [typed_node demo_slot 1]"
  by (simp_all add: bank_maps_def BANK_VA_def bases_distinct_def reported_def probed_id_def demo_reg slot_va_def demo_regs_def VIRTIO_MMIO_MAGIC_def)

lemma demo_main:
  assumes "to_descriptor (source_grant (0x0a000000, 0x1000)) = Inr desc"
    and "source_main (Some desc) demo_files (Some [Some (''slot'', True)]) True demo_regs = Some (0, out, as)"
  shows "out = demo_line @ [CHR 0x0A]"
proof -
  let ?g = "source_grant (0x0a000000, 0x1000)"
  have ok: "descriptor_ok ?g" by (simp add: descriptor_ok_def source_grant_def)
  have "desc = descriptor_text ?g" using ok assms(1) by (simp add: to_descriptor_texts descriptor_text_def)
  then have "driver_bind (Some desc) = Inr ?g" using parse_texts [OF ok] by (simp add: driver_bind_def)
  then show ?thesis using assms(2) by (simp add: source_main_def source_grant_def demo_dtb demo_slot_ok demo_probe del: probe_loop.simps)
qed

text \<open>C11. The bus source and the warden compose. When the warden spawns the source on the bank of the transport slots it found in the device tree, and the kernel maps
  that bank, the source decodes its grant, ends without a panic with status 0, and reads
  only registers inside the bank. If the warden receives what the source wrote, the devices it goes on to bind are exactly the slots
  whose registers hold the magic and a device number, in device-tree order, each with its number as identity and
  with the windows and interrupts of its own slot.\<close>

theorem warden_sees_devices:
  assumes "dtb_enumerate files hw dtb_root = Some dtb" and "slots = filter is_virtio_mmio dtb"
    and "list_all slot_reportable slots" and "bases_distinct slots" and "bank_maps bank"
  shows "\<exists>desc out as. to_descriptor (source_grant bank) = Inr desc \<and>
    source_main (Some desc) files hw True rd = Some (0, out, as) \<and> list_all (in_bank bank) as \<and>
    (sw_null w \<and> sw_spawn w \<and> cw_pipe (sw_child w) \<and> slurp_capped room reads (64 * 1024) = Some buf \<and>
       str_of buf = out \<and> utf8_ok out \<longrightarrow>
     fst (run_virtio_mmio_source bank slots w room reads) = reported bank rd slots)"
proof -
  have ok: "descriptor_ok (source_grant bank)" by (simp add: descriptor_ok_def source_grant_def)
  let ?desc = "descriptor_text (source_grant bank)"
  have desc: "to_descriptor (source_grant bank) = Inr ?desc" using ok by (simp add: to_descriptor_texts descriptor_text_def)
  have "driver_bind (Some ?desc) = Inr (source_grant bank)" using parse_texts [OF ok] by (simp add: driver_bind_def)
  moreover obtain as where as: "probe_loop bank rd slots = Some (concat (map (\<lambda>d. record_line d @ [CHR 0x0A]) (reported bank rd slots)), as)"
    "list_all (in_bank bank) as" using probe_loop_exact [OF assms(5,3)] by blast
  ultimately have main: "source_main (Some ?desc) files hw True rd =
      Some (0, concat (map (\<lambda>d. record_line d @ [CHR 0x0A]) (reported bank rd slots)), as)"
    using assms(1,2) by (simp add: source_main_def source_grant_def)
  have "list_all (\<lambda>s. nr_pci (dn_resources s) = None) slots"
    using dtb_enumerate_no_pci [OF assms(1)] assms(2) by (simp add: list_all_iff)
  note read = source_read_back [OF assms(3,4) this, of bank rd]
  have got: "fst (run_virtio_mmio_source bank slots w room reads) = reported bank rd slots"
    if "sw_null w" "sw_spawn w" "cw_pipe (sw_child w)" "slurp_capped room reads (64 * 1024) = Some buf"
      "str_of buf = concat (map (\<lambda>d. record_line d @ [CHR 0x0A]) (reported bank rd slots))"
      "utf8_ok (concat (map (\<lambda>d. record_line d @ [CHR 0x0A]) (reported bank rd slots)))"
    using that desc read by (simp add: run_virtio_mmio_source_def Let_def)
  show ?thesis using desc main as(2) got by blast
qed

theorem warden_sees_devices_witness:
  "fst (run_virtio_mmio_source (0x0a000000, 0x1000) [demo_slot] demo_world (\<lambda>_. True) [Some demo_buf, Some []]) = [typed_node demo_slot 1]"
proof -
  have "[demo_slot] = filter is_virtio_mmio [demo_slot]" "list_all slot_reportable [demo_slot]" by (simp_all add: demo_slot_ok)
  from warden_sees_devices [OF demo_dtb this demo_bank(2,1), of demo_regs demo_world "\<lambda>_. True" "[Some demo_buf, Some []]" demo_buf]
  obtain desc out as where run: "to_descriptor (source_grant (0x0a000000, 0x1000)) = Inr desc"
      "source_main (Some desc) demo_files (Some [Some (''slot'', True)]) True demo_regs = Some (0, out, as)"
    and got: "sw_null demo_world \<and> sw_spawn demo_world \<and> cw_pipe (sw_child demo_world) \<and>
      slurp_capped (\<lambda>_. True) [Some demo_buf, Some []] (64 * 1024) = Some demo_buf \<and> str_of demo_buf = out \<and> utf8_ok out \<longrightarrow>
      fst (run_virtio_mmio_source (0x0a000000, 0x1000) [demo_slot] demo_world (\<lambda>_. True) [Some demo_buf, Some []]) =
      reported (0x0a000000, 0x1000) demo_regs [demo_slot]" by blast
  have "sw_null demo_world \<and> sw_spawn demo_world \<and> cw_pipe (sw_child demo_world)" by (simp add: demo_world_def)
  then show ?thesis using got demo_main [OF run] demo_pipe demo_buf_ascii demo_line_ok demo_bank(3) by metis
qed

end
