(* ===== verification/Parley_Frame.thy ===== *)
theory Parley_Frame
  imports Rust_Text
begin

text \<open>The message framing of \<open>parley\<close> (\<open>src/usr/lib/parley/src/frame.rs\<close>): the encoder, the streaming decoder with its header parser, and the loop of
  a client over the frames a read delivered (\<open>src/usr/nora/src/lsp_host.rs\<close>, the branch of the server's output). Bytes are characters, as in \<open>Rust_Text\<close>. The lemmas show that
  frames do not depend on how the bytes arrive, that encoded messages come out again, and that what the decoder holds is bounded.\<close>

section \<open>Encoding\<close>

definition CR :: char where "CR = CHR 0x0D"
definition LF :: char where "LF = CHR 0x0A"
definition MAX_HEADER_BYTES :: nat where "MAX_HEADER_BYTES = 8 * 1024"
definition MAX_BODY_BYTES :: nat where "MAX_BODY_BYTES = 64 * 1024 * 1024"

definition frame_encode :: "string \<Rightarrow> string" where
  "frame_encode body =
     (let hdr = ''Content-Length: '' @ show_nat (length body)
      in hdr @ [CR, LF, CR, LF] @ body)"

section \<open>Decoding\<close>

datatype frame_error = FrameError string

record decoder =
  dec_buf :: string
  dec_body_len :: "nat option"

definition decoder_new :: decoder where
  "decoder_new = \<lparr>dec_buf = [], dec_body_len = None\<rparr>"

definition push_bytes :: "decoder \<Rightarrow> string \<Rightarrow> decoder" where
  "push_bytes d bs = d\<lparr>dec_buf := dec_buf d @ bs\<rparr>"

function sep_loop :: "string \<Rightarrow> nat \<Rightarrow> nat option" where
  "sep_loop buf i =
     (if i + 4 \<le> length buf
      then if buf ! i = CR \<and> buf ! (i + 1) = LF \<and> buf ! (i + 2) = CR \<and> buf ! (i + 3) = LF then Some i
           else sep_loop buf (i + 1)
      else None)"
  by pat_completeness auto
termination by (relation "measure (\<lambda>(buf, i). length buf - i)") auto
declare sep_loop.simps [simp del]

definition find_sep :: "string \<Rightarrow> nat option" where
  "find_sep buf = (if length buf < 4 then None else sep_loop buf 0)"

text \<open>The scan of \<open>split_crlf\<close> for the end of a line, and the lines it yields.\<close>

function crlf_loop :: "string \<Rightarrow> nat \<Rightarrow> nat option" where
  "crlf_loop b i =
     (if i + 1 < length b
      then if b ! i = CR \<and> b ! (i + 1) = LF then Some i else crlf_loop b (i + 1)
      else None)"
  by pat_completeness auto
termination by (relation "measure (\<lambda>(b, i). length b - i)") auto
declare crlf_loop.simps [simp del]

function split_crlf :: "string \<Rightarrow> string list" where
  "split_crlf b =
     (if b = [] then []
      else case crlf_loop b 0 of
             Some i \<Rightarrow> take i b # split_crlf (drop (i + 2) b)
           | None \<Rightarrow> [b])"
  by pat_completeness auto
termination by (relation "measure length") auto
declare split_crlf.simps [simp del]

definition frame_trim :: "string \<Rightarrow> string" where
  "frame_trim b = rev (dropWhile is_ascii_whitespace (rev (dropWhile is_ascii_whitespace b)))"

definition to_ascii_lowercase :: "char \<Rightarrow> char" where
  "to_ascii_lowercase c = (if 0x41 \<le> ord c \<and> ord c \<le> 0x5A then char_of (ord c + 0x20) else c)"

definition eq_ignore_ascii_case :: "string \<Rightarrow> string \<Rightarrow> bool" where
  "eq_ignore_ascii_case a b \<longleftrightarrow>
     length a = length b \<and> list_all (\<lambda>(x, y). to_ascii_lowercase x = to_ascii_lowercase y) (zip a b)"

fun length_loop :: "string \<Rightarrow> nat \<Rightarrow> frame_error + nat" where
  "length_loop [] n = Inr n"
| "length_loop (b # bs) n =
     andthen (ok_or (FrameError ''content-length overflow'')
               (Option.bind (checked_mul n 10) (\<lambda>x. checked_add x (ord b - 0x30))))
       (length_loop bs)"

fun header_loop :: "string list \<Rightarrow> frame_error + nat" where
  "header_loop [] = Inl (FrameError ''missing content-length header'')"
| "header_loop (line # lines) =
     (case position (\<lambda>b. b = CHR '':'') line of
        None \<Rightarrow> header_loop lines
      | Some colon \<Rightarrow>
          let name = take colon line; rest = drop colon line
          in if eq_ignore_ascii_case (frame_trim name) ''content-length'' then
               let val = frame_trim (drop 1 rest)
               in if val = [] \<or> \<not> list_all is_ascii_digit val
                  then Inl (FrameError ''invalid content-length value'')
                  else length_loop val 0
             else header_loop lines)"

definition parse_content_length :: "string \<Rightarrow> frame_error + nat" where
  "parse_content_length headers = header_loop (split_crlf headers)"

text \<open>The loop goes round at most twice: a parsed header block is followed by one attempt at its body.\<close>

function next_frame :: "decoder \<Rightarrow> (frame_error + string option) \<times> decoder" where
  "next_frame d =
     (case dec_body_len d of
        None \<Rightarrow>
          (case find_sep (dec_buf d) of
             None \<Rightarrow>
               if length (dec_buf d) > MAX_HEADER_BYTES then (Inl (FrameError ''header block too large''), d)
               else (Inr None, d)
           | Some sep \<Rightarrow>
               (case parse_content_length (take sep (dec_buf d)) of
                  Inl e \<Rightarrow> (Inl e, d)
                | Inr n \<Rightarrow>
                    if n > MAX_BODY_BYTES then (Inl (FrameError ''content-length exceeds cap''), d)
                    else next_frame \<lparr>dec_buf = drop (sep + 4) (dec_buf d), dec_body_len = Some n\<rparr>))
      | Some n \<Rightarrow>
          if length (dec_buf d) \<ge> n
          then (Inr (Some (take n (dec_buf d))), \<lparr>dec_buf = drop n (dec_buf d), dec_body_len = None\<rparr>)
          else (Inr None, d))"
  by pat_completeness auto
termination by (relation "measure (\<lambda>d. if dec_body_len d = None then 1 else 0)") auto
declare next_frame.simps [simp del]

text \<open>The two ways the loop can go, without the recursion.\<close>

definition take_body :: "nat \<Rightarrow> string \<Rightarrow> (frame_error + string option) \<times> decoder" where
  "take_body n buf =
     (if n \<le> length buf then (Inr (Some (take n buf)), \<lparr>dec_buf = drop n buf, dec_body_len = None\<rparr>)
      else (Inr None, \<lparr>dec_buf = buf, dec_body_len = Some n\<rparr>))"

lemma next_body: "dec_body_len d = Some n \<Longrightarrow> next_frame d = take_body n (dec_buf d)"
  by (subst next_frame.simps) (simp add: take_body_def)

lemma next_header:
  "dec_body_len d = None \<Longrightarrow> next_frame d =
     (case find_sep (dec_buf d) of
        None \<Rightarrow> if length (dec_buf d) > MAX_HEADER_BYTES then (Inl (FrameError ''header block too large''), d) else (Inr None, d)
      | Some sep \<Rightarrow>
          (case parse_content_length (take sep (dec_buf d)) of
             Inl e \<Rightarrow> (Inl e, d)
           | Inr n \<Rightarrow>
               if n > MAX_BODY_BYTES then (Inl (FrameError ''content-length exceeds cap''), d)
               else take_body n (drop (sep + 4) (dec_buf d))))"
  by (subst next_frame.simps) (simp add: next_body split: option.split sum.split)

lemma take_body_Some: "take_body n buf = (Inr (Some body), d') \<Longrightarrow> dec_body_len d' = None \<and> length (dec_buf d') \<le> length buf"
  by (auto simp: take_body_def split: if_splits)

lemma sep_loop_Some:
  "sep_loop buf i = Some s \<Longrightarrow> i \<le> s \<and> s + 4 \<le> length buf \<and> take 4 (drop s buf) = [CR, LF, CR, LF]"
proof (induction buf i rule: sep_loop.induct)
  case (1 buf i)
  then show ?case
  proof (cases "i + 4 \<le> length buf \<and> \<not> (buf ! i = CR \<and> buf ! (i + 1) = LF \<and> buf ! (i + 2) = CR \<and> buf ! (i + 3) = LF)")
    case True
    then have "sep_loop buf (i + 1) = Some s" using 1(2) by (subst (asm) sep_loop.simps) auto
    then show ?thesis using 1(1) True by auto
  next
    case False
    then have "i + 4 \<le> length buf" "s = i" "buf ! i = CR \<and> buf ! (i + 1) = LF \<and> buf ! (i + 2) = CR \<and> buf ! (i + 3) = LF"
      using 1(2) by (subst (asm) sep_loop.simps, simp split: if_splits)+
    then show ?thesis by (auto simp: list_eq_iff_nth_eq numeral_eq_Suc less_Suc_eq)
  qed
qed

lemma find_sep_Some: "find_sep buf = Some s \<Longrightarrow> s + 4 \<le> length buf \<and> take 4 (drop s buf) = [CR, LF, CR, LF]"
  using sep_loop_Some [of buf 0 s] by (auto simp: find_sep_def split: if_splits)

lemma next_frame_shrinks:
  assumes "next_frame d = (Inr (Some body), d')"
  shows "dec_body_len d' = None \<and> length (dec_buf d') + (if dec_body_len d = None then 4 else 0) \<le> length (dec_buf d)"
proof (cases "dec_body_len d")
  case None
  then obtain s n where s: "find_sep (dec_buf d) = Some s" "take_body n (drop (s + 4) (dec_buf d)) = (Inr (Some body), d')"
    using assms by (auto simp: next_header split: option.splits sum.splits if_splits)
  show ?thesis using take_body_Some [OF s(2)] find_sep_Some [OF s(1)] None by auto
next
  case (Some n)
  then show ?thesis using assms take_body_Some [of n "dec_buf d"] by (simp add: next_body)
qed

text \<open>The loop of a client over the frames a read delivered: the bodies in order, the error that ends the
  stream if there is one, and the decoder left behind.\<close>

function drain_frames :: "decoder \<Rightarrow> string list \<times> frame_error option \<times> decoder" where
  "drain_frames d =
     (case next_frame d of
        (Inr (Some body), d') \<Rightarrow>
          (case drain_frames d' of (bodies, e, d'') \<Rightarrow> (body # bodies, e, d''))
      | (Inr None, d') \<Rightarrow> ([], None, d')
      | (Inl e, d') \<Rightarrow> ([], Some e, d'))"
  by pat_completeness auto

termination
proof (relation "measure (\<lambda>d. length (dec_buf d) + (if dec_body_len d = None then 0 else 1))", goal_cases)
  case (2 d x y x1 x2)
  then have "next_frame d = (Inr (Some x2), y)" by simp
  from next_frame_shrinks [OF this] show ?case by (cases "dec_body_len d") auto
qed simp
declare drain_frames.simps [simp del]

text \<open>A run over the reads of a connection: each read is pushed and the frames it completes are drained; an error ends the run.\<close>

fun run_reads :: "decoder \<Rightarrow> string list \<Rightarrow> string list \<times> frame_error option \<times> decoder" where
  "run_reads d [] = ([], None, d)"
| "run_reads d (c # cs) =
     (case drain_frames (push_bytes d c) of
        (bodies, Some e, d') \<Rightarrow> (bodies, Some e, d')
      | (bodies, None, d') \<Rightarrow>
          (case run_reads d' cs of (bodies', e, d'') \<Rightarrow> (bodies @ bodies', e, d'')))"

section \<open>Frames do not depend on how the bytes arrive\<close>

lemma push_sel [simp]:
  "dec_buf (push_bytes d c) = dec_buf d @ c" "dec_body_len (push_bytes d c) = dec_body_len d"
  "push_bytes (push_bytes d a) b = push_bytes d (a @ b)" "push_bytes \<lparr>dec_buf = buf, dec_body_len = n\<rparr> c = \<lparr>dec_buf = buf @ c, dec_body_len = n\<rparr>"
  by (simp_all add: push_bytes_def)

lemma sep_loop_append: "sep_loop buf i = Some s \<Longrightarrow> sep_loop (buf @ c) i = Some s"
proof (induction buf i rule: sep_loop.induct)
  case (1 buf i)
  have le: "i + 4 \<le> length buf" using 1(2) by (subst (asm) sep_loop.simps) (simp split: if_splits)
  show ?case using 1 le by (subst sep_loop.simps, subst (asm) (3) sep_loop.simps) (auto simp: nth_append)
qed

lemma find_sep_append: "find_sep buf = Some s \<Longrightarrow> find_sep (buf @ c) = Some s"
  using sep_loop_append [of buf 0 s c] by (auto simp: find_sep_def split: if_splits)

lemma take_body_more: "take_body n buf = (Inr (Some body), d') \<Longrightarrow> take_body n (buf @ c) = (Inr (Some body), push_bytes d' c)"
  by (auto simp: take_body_def split: if_splits)

lemma next_frame_more:
  assumes "next_frame d = (Inr (Some body), d')"
  shows "next_frame (push_bytes d c) = (Inr (Some body), push_bytes d' c)"
proof (cases "dec_body_len d")
  case None
  then obtain s n where s: "find_sep (dec_buf d) = Some s" "parse_content_length (take s (dec_buf d)) = Inr n" "n \<le> MAX_BODY_BYTES"
      "take_body n (drop (s + 4) (dec_buf d)) = (Inr (Some body), d')"
    using assms by (auto simp: next_header split: option.splits sum.splits if_splits)
  then show ?thesis using None find_sep_Some [OF s(1)] find_sep_append [OF s(1)] take_body_more [OF s(4)]
    by (simp add: next_header)
next
  case (Some n)
  then show ?thesis using assms take_body_more [of n "dec_buf d"] by (simp add: next_body)
qed

lemma next_frame_wait:
  assumes "next_frame d = (Inr None, d')"
  shows "next_frame (push_bytes d c) = next_frame (push_bytes d' c)"
proof (cases "dec_body_len d")
  case None
  show ?thesis
  proof (cases "find_sep (dec_buf d)")
    case (Some s)
    then obtain n where n: "parse_content_length (take s (dec_buf d)) = Inr n" "n \<le> MAX_BODY_BYTES"
        "take_body n (drop (s + 4) (dec_buf d)) = (Inr None, d')"
      using assms None by (auto simp: next_header split: sum.splits if_splits)
    then have "d' = \<lparr>dec_buf = drop (s + 4) (dec_buf d), dec_body_len = Some n\<rparr>" by (auto simp: take_body_def split: if_splits)
    then show ?thesis using None n find_sep_Some [OF Some] find_sep_append [OF Some]
      by (simp add: next_header next_body)
  qed (use assms None in \<open>auto simp: next_header split: if_splits\<close>)
next
  case (Some n)
  then have "d' = d" using assms by (cases d) (auto simp: next_body take_body_def split: if_splits)
  then show ?thesis by simp
qed

lemma drain_more:
  assumes "drain_frames d = (fs, None, d1)"
  shows "drain_frames (push_bytes d c) = (case drain_frames (push_bytes d1 c) of (gs, e, d2) \<Rightarrow> (fs @ gs, e, d2))"
  using assms
proof (induction d arbitrary: fs rule: drain_frames.induct)
  case (1 d)
  consider body d' where "next_frame d = (Inr (Some body), d')" | "next_frame d = (Inr None, d1)" "fs = []"
    using 1(2) by (subst (asm) drain_frames.simps) (auto split: prod.splits sum.splits option.splits)
  then show ?case
  proof cases
    case 1
    then obtain fs' where "drain_frames d' = (fs', None, d1)" "fs = body # fs'"
      using "1.prems" by (subst (asm) drain_frames.simps) (auto split: prod.splits)
    then have "drain_frames (push_bytes d' c) = (case drain_frames (push_bytes d1 c) of (gs, e, d2) \<Rightarrow> (fs' @ gs, e, d2))"
      using "1.IH" [OF 1 [symmetric] refl refl] by blast
    then show ?thesis using next_frame_more [OF 1] \<open>fs = body # fs'\<close>
      by (subst drain_frames.simps) (simp split: prod.split)
  next
    case 2
    then show ?thesis using next_frame_wait [OF 2(1), of c]
      by (subst drain_frames.simps, subst (2) drain_frames.simps) (simp split: prod.split)
  qed
qed

abbreviation "header_too_large \<equiv> FrameError ''header block too large''"

lemma length_loop_error: "length_loop bs n = Inl e \<Longrightarrow> e = FrameError ''content-length overflow''"
  by (induction bs n rule: length_loop.induct) (auto simp: ok_or_def andthen_def split: option.splits sum.splits)

lemma header_loop_error: "header_loop lines = Inl e \<Longrightarrow> e \<noteq> header_too_large"
  by (induction lines) (auto simp: Let_def dest: length_loop_error split: option.splits if_splits)

lemma next_frame_error_more:
  assumes "next_frame d = (Inl e, d')" and "e \<noteq> header_too_large"
  shows "next_frame (push_bytes d c) = (Inl e, push_bytes d' c)"
proof (cases "dec_body_len d")
  case None
  then obtain s where s: "find_sep (dec_buf d) = Some s"
    using assms by (auto simp: next_header split: option.splits if_splits)
  have "\<exists>r d''. take_body n buf = (Inr r, d'')" for n buf by (simp add: take_body_def)
  then have "take_body n buf \<noteq> (Inl e, d')" for n buf by (metis Inl_Inr_False Pair_inject)
  then show ?thesis using assms None find_sep_append [OF s] find_sep_Some [OF s]
    by (auto simp: next_header s split: sum.splits if_splits)
qed (use assms in \<open>auto simp: next_body take_body_def split: if_splits\<close>)

lemma drain_error_more:
  assumes "drain_frames d = (fs, Some e, d1)" and "e \<noteq> header_too_large"
  shows "drain_frames (push_bytes d c) = (fs, Some e, push_bytes d1 c)"
  using assms(1)
proof (induction d arbitrary: fs rule: drain_frames.induct)
  case (1 d)
  consider body d' where "next_frame d = (Inr (Some body), d')" | "next_frame d = (Inl e, d1)" "fs = []"
    using 1(2) by (subst (asm) drain_frames.simps) (auto split: prod.splits sum.splits option.splits)
  then show ?case
  proof cases
    case 1
    then obtain fs' where fs: "drain_frames d' = (fs', Some e, d1)" "fs = body # fs'"
      using "1.prems" by (subst (asm) drain_frames.simps) (auto split: prod.splits)
    then have "drain_frames (push_bytes d' c) = (fs', Some e, push_bytes d1 c)" using "1.IH" [OF 1 [symmetric] refl refl] by blast
    then show ?thesis using next_frame_more [OF 1] fs(2) by (subst drain_frames.simps) simp
  next
    case 2
    then show ?thesis using next_frame_error_more [OF 2(1) assms(2)] by (subst drain_frames.simps) simp
  qed
qed

lemma run_reads_whole:
  assumes "run_reads d cs = (fs, e, d')" and "cs \<noteq> []" and "e \<noteq> Some header_too_large"
  shows "\<exists>rest. drain_frames (push_bytes d (concat cs)) = (fs, e, push_bytes d' rest) \<and> (e = None \<longrightarrow> rest = [])"
  using assms
proof (induction cs arbitrary: d fs)
  case (Cons c cs)
  obtain f1 e1 d1 where first: "drain_frames (push_bytes d c) = (f1, e1, d1)" by (cases "drain_frames (push_bytes d c)") auto
  show ?case
  proof (cases e1)
    case None
    then obtain f2 where rest: "run_reads d1 cs = (f2, e, d')" "fs = f1 @ f2"
      using Cons.prems(1) first by (auto split: prod.splits)
    have more: "drain_frames (push_bytes d (c @ concat cs)) = (case drain_frames (push_bytes d1 (concat cs)) of (gs, e, d2) \<Rightarrow> (f1 @ gs, e, d2))"
      using drain_more [of "push_bytes d c" f1 d1 "concat cs"] first None by simp
    show ?thesis
    proof (cases "cs = []")
      case True
      then have "e = None" "d' = d1" "fs = f1" using rest by auto
      then show ?thesis using first None True by (intro exI [of _ "[]"]) (simp add: push_bytes_def)
    next
      case False
      then show ?thesis using Cons.IH [OF rest(1) False Cons.prems(3)] more rest(2) by auto
    qed
  next
    case (Some x)
    then have "fs = f1" "e = Some x" "d' = d1" using Cons.prems(1) first by auto
    then show ?thesis using drain_error_more [of "push_bytes d c" f1 x d1 "concat cs"] first Some Cons.prems(3) by auto
  qed
qed simp

section \<open>Encoded messages\<close>

lemma nth_ne: "x \<notin> set xs \<Longrightarrow> i < length xs \<Longrightarrow> xs ! i \<noteq> x"
  by (metis nth_mem)

lemma sep_none: "(\<And>j. i \<le> j \<Longrightarrow> j + 4 \<le> length buf \<Longrightarrow> buf ! j \<noteq> CR) \<Longrightarrow> sep_loop buf i = None"
proof (induction buf i rule: sep_loop.induct)
  case (1 buf i)
  show ?case
  proof (cases "i + 4 \<le> length buf")
    case True
    then have "buf ! i \<noteq> CR" using 1(2) by simp
    moreover have "sep_loop buf (i + 1) = None" using 1 True \<open>buf ! i \<noteq> CR\<close> by simp
    ultimately show ?thesis by (subst sep_loop.simps) simp
  qed (subst sep_loop.simps, simp)
qed

lemma sep_at:
  "i \<le> length h \<Longrightarrow> CR \<notin> set h \<Longrightarrow> sep_loop (h @ [CR, LF, CR, LF] @ r) i = Some (length h)"
proof (induction "length h - i" arbitrary: i)
  case 0
  then have "i = length h" by simp
  then show ?case by (subst sep_loop.simps) (simp add: nth_append)
next
  case (Suc k)
  then have "i < length h" by simp
  then have "(h @ [CR, LF, CR, LF] @ r) ! i \<noteq> CR" using nth_ne [OF Suc.prems(2)] by (simp add: nth_append)
  then show ?case using Suc \<open>i < length h\<close> by (subst sep_loop.simps) simp
qed

lemma find_sep_at: "CR \<notin> set h \<Longrightarrow> find_sep (h @ [CR, LF, CR, LF] @ r) = Some (length h)"
  using sep_at [of 0 h r] by (simp add: find_sep_def)

lemma find_sep_short: "CR \<notin> set h \<Longrightarrow> k < length h + 4 \<Longrightarrow> find_sep (take k (h @ [CR, LF, CR, LF])) = None"
proof -
  assume h: "CR \<notin> set h" "k < length h + 4"
  have "take k (h @ [CR, LF, CR, LF]) ! j \<noteq> CR" if "j + 4 \<le> length (take k (h @ [CR, LF, CR, LF]))" for j
    using that h(2) nth_ne [OF h(1), of j] by (auto simp: nth_append min_def split: if_splits)
  then show ?thesis unfolding find_sep_def using sep_none [of 0 "take k (h @ [CR, LF, CR, LF])"] by presburger
qed

lemma crlf_none: "CR \<notin> set b \<Longrightarrow> crlf_loop b i = None"
proof (induction b i rule: crlf_loop.induct)
  case (1 b i)
  show ?case
  proof (cases "i + 1 < length b")
    case True
    then have "b ! i \<noteq> CR" using nth_ne [OF 1(2), of i] by simp
    then show ?thesis using 1 True by (subst crlf_loop.simps) auto
  qed (subst crlf_loop.simps, simp)
qed

lemma split_crlf_one: "CR \<notin> set b \<Longrightarrow> b \<noteq> [] \<Longrightarrow> split_crlf b = [b]"
  by (subst split_crlf.simps) (simp add: crlf_none)

definition frame_header :: "string \<Rightarrow> string" where
  "frame_header body = ''Content-Length: '' @ show_nat (length body)"

lemma frame_encode_parts: "frame_encode body = frame_header body @ [CR, LF, CR, LF] @ body"
  by (simp add: frame_encode_def frame_header_def)

lemma digits_plain:
  "c \<in> set (show_nat n) \<Longrightarrow> is_ascii_digit c" "is_ascii_digit c \<Longrightarrow> c \<noteq> CR \<and> \<not> is_ascii_whitespace c \<and> c \<noteq> CHR '':''"
  using show_nat_decimal [of n] by (auto simp: list_all_iff is_ascii_digit_def is_ascii_whitespace_def CR_def)

lemma header_no_CR: "CR \<notin> set (frame_header body)"
  using digits_plain [of CR] by (auto simp: frame_header_def CR_def)

lemma frame_trim_plain: "list_all (\<lambda>c. \<not> is_ascii_whitespace c) b \<Longrightarrow> frame_trim b = b"
proof -
  assume b: "list_all (\<lambda>c. \<not> is_ascii_whitespace c) b"
  have "dropWhile is_ascii_whitespace xs = xs" if "\<forall>c\<in>set xs. \<not> is_ascii_whitespace c" for xs using that by (cases xs) auto
  from this [of b] this [of "rev b"] show ?thesis using b by (simp add: frame_trim_def list_all_iff)
qed

lemma length_loop_digits:
  "parse_digits 10 usize_limit acc s = Some n \<Longrightarrow> list_all is_ascii_digit s \<Longrightarrow> length_loop s acc = Inr n"
proof (induction s arbitrary: acc)
  case (Cons c s)
  then have "to_digit 10 c = Some (ord c - 48)" by (auto simp: to_digit_def is_ascii_digit_def Let_def)
  then show ?case using Cons by (auto simp: checked_mul_def checked_add_def split: if_splits)
qed simp

lemma parse_header:
  assumes "length body \<le> MAX_BODY_BYTES"
  shows "parse_content_length (frame_header body) = Inr (length body)"
proof -
  let ?n = "show_nat (length body)"
  have lim: "length body < usize_limit" using assms by (simp add: MAX_BODY_BYTES_def usize_limit_def)
  have plain: "list_all (\<lambda>c. \<not> is_ascii_whitespace c) ?n" using digits_plain by (auto simp: list_all_iff)
  have "dropWhile is_ascii_whitespace ('' '' @ ?n) = dropWhile is_ascii_whitespace ?n" by (simp add: is_ascii_whitespace_def)
  then have val: "frame_trim ('' '' @ ?n) = ?n" using frame_trim_plain [OF plain] by (simp add: frame_trim_def)
  have "parse_digits 10 usize_limit 0 ?n = Some (length body)" using parse_digits_of [of 10 "length body" usize_limit] lim by (simp add: show_nat_def)
  then have len: "length_loop ?n 0 = Inr (length body)" using length_loop_digits show_nat_decimal by blast
  have name: "eq_ignore_ascii_case (frame_trim ''Content-Length'') ''content-length''" by code_simp
  have "position (\<lambda>b. b = CHR '':'') (frame_header body) = Some 14" by (simp add: frame_header_def)
  then have "header_loop [frame_header body] = Inr (length body)"
    using name val len show_nat_decimal [of "length body"] by (simp add: frame_header_def)
  moreover have "split_crlf (frame_header body) = [frame_header body]"
    using header_no_CR by (intro split_crlf_one) (simp_all add: frame_header_def)
  ultimately show ?thesis by (simp add: parse_content_length_def)
qed

lemma header_short: "length body \<le> MAX_BODY_BYTES \<Longrightarrow> length (frame_header body) + 4 \<le> MAX_HEADER_BYTES"
  using show_nat_length [of "length body" 8] by (simp add: frame_header_def MAX_BODY_BYTES_def MAX_HEADER_BYTES_def)

text \<open>The bytes still to come complete what the decoder has buffered to the frames of these bodies.\<close>

definition expects :: "decoder \<Rightarrow> string list \<Rightarrow> string \<Rightarrow> bool" where
  "expects d bodies t \<longleftrightarrow> list_all (\<lambda>b. length b \<le> MAX_BODY_BYTES) bodies \<and>
     (case dec_body_len d of
        None \<Rightarrow> dec_buf d @ t = concat (map frame_encode bodies)
      | Some n \<Rightarrow> (case bodies of [] \<Rightarrow> False | b # bs \<Rightarrow> n = length b \<and> dec_buf d @ t = b @ concat (map frame_encode bs)))"

lemma expects_body:
  assumes "dec_body_len d = Some n" and "expects d bodies t"
  shows "(\<exists>b bs d'. next_frame d = (Inr (Some b), d') \<and> bodies = b # bs \<and> expects d' bs t) \<or> (next_frame d = (Inr None, d))"
proof -
  obtain b bs where b: "bodies = b # bs" "n = length b" "dec_buf d @ t = b @ concat (map frame_encode bs)"
    "list_all (\<lambda>b. length b \<le> MAX_BODY_BYTES) (b # bs)"
    using assms by (auto simp: expects_def split: list.splits)
  show ?thesis
  proof (cases "n \<le> length (dec_buf d)")
    case True
    then have "take n (dec_buf d) = b" "drop n (dec_buf d) @ t = concat (map frame_encode bs)"
      using b(2,3) by (auto simp: append_eq_append_conv_if split: if_splits)
    then show ?thesis using assms(1) b True by (auto simp: next_body take_body_def expects_def)
  next
    case False
    then show ?thesis using assms(1) by (cases d) (auto simp: next_body take_body_def)
  qed
qed

lemma append_long: "xs @ t = ys @ zs \<Longrightarrow> length ys \<le> length xs \<Longrightarrow> \<exists>r. xs = ys @ r \<and> r @ t = zs"
proof -
  assume eq: "xs @ t = ys @ zs" and le: "length ys \<le> length xs"
  have "take (length ys) xs = ys" using arg_cong [OF eq, of "take (length ys)"] le by simp
  moreover have "drop (length ys) xs @ t = zs" using arg_cong [OF eq, of "drop (length ys)"] le by simp
  ultimately show ?thesis by (metis append_take_drop_id)
qed

lemma expects_header:
  assumes "dec_body_len d = None" and "expects d bodies t"
  shows "(\<exists>d'. dec_body_len d' \<noteq> None \<and> next_frame d = next_frame d' \<and> expects d' bodies t) \<or> next_frame d = (Inr None, d)"
proof (cases bodies)
  case Nil
  then have "dec_buf d = []" using assms by (simp add: expects_def)
  then have "next_frame d = (Inr None, d)" using assms(1) by (simp add: next_header find_sep_def)
  then show ?thesis by blast
next
  case (Cons b bs)
  let ?h = "frame_header b @ [CR, LF, CR, LF]"
  have ok: "length b \<le> MAX_BODY_BYTES" and buf: "dec_buf d @ t = ?h @ b @ concat (map frame_encode bs)"
    using assms Cons by (simp_all add: expects_def frame_encode_parts)
  show ?thesis
  proof (cases "length ?h \<le> length (dec_buf d)")
    case True
    from append_long [OF buf this] obtain r where r: "dec_buf d = ?h @ r" "r @ t = b @ concat (map frame_encode bs)" by blast
    let ?d = "\<lparr>dec_buf = r, dec_body_len = Some (length b)\<rparr>"
    have "next_frame d = take_body (length b) r"
      using assms(1) r(1) find_sep_at [OF header_no_CR [of b], of r] parse_header [OF ok] ok by (simp add: next_header)
    moreover have "expects ?d bodies t" using assms(2) Cons r(2) by (simp add: expects_def)
    ultimately show ?thesis by (intro disjI1 exI [of _ ?d]) (simp add: next_body)
  next
    case False
    then have "dec_buf d = take (length (dec_buf d)) ?h"
      using arg_cong [OF buf, of "take (length (dec_buf d))"] by (simp only: take_append) simp
    then have "find_sep (dec_buf d) = None"
      using find_sep_short [OF header_no_CR [of b], of "length (dec_buf d)"] False by simp
    then show ?thesis using assms(1) False header_short [OF ok] by (simp add: next_header)
  qed
qed

lemma expects_step:
  assumes "expects d bodies t"
  shows "(\<exists>b bs d'. next_frame d = (Inr (Some b), d') \<and> bodies = b # bs \<and> expects d' bs t) \<or>
    (\<exists>d'. next_frame d = (Inr None, d') \<and> expects d' bodies t)"
proof (cases "dec_body_len d")
  case None
  from expects_header [OF this assms] show ?thesis
  proof
    assume "\<exists>d'. dec_body_len d' \<noteq> None \<and> next_frame d = next_frame d' \<and> expects d' bodies t"
    then show ?thesis using expects_body by force
  qed (use assms in blast)
next
  case (Some n)
  from expects_body [OF this assms] show ?thesis using assms by blast
qed

lemma expects_drain:
  assumes "expects d bodies t"
  shows "\<exists>fs bodies' d'. drain_frames d = (fs, None, d') \<and> expects d' bodies' t"
  using assms
proof (induction d arbitrary: bodies rule: drain_frames.induct)
  case (1 d)
  from expects_step [OF 1(2)] show ?case
  proof
    assume "\<exists>b bs d'. next_frame d = (Inr (Some b), d') \<and> bodies = b # bs \<and> expects d' bs t"
    then obtain b bs d' where s: "next_frame d = (Inr (Some b), d')" "expects d' bs t" by blast
    from "1.IH" [OF s(1) [symmetric] refl refl s(2)] show ?thesis using s(1)
      by (subst drain_frames.simps) (auto split: prod.splits)
  next
    assume "\<exists>d'. next_frame d = (Inr None, d') \<and> expects d' bodies t"
    then show ?thesis by (subst drain_frames.simps) auto
  qed
qed

lemma expects_run: "expects d bodies (concat cs) \<Longrightarrow> \<exists>fs d'. run_reads d cs = (fs, None, d')"
proof (induction cs arbitrary: d bodies)
  case (Cons c cs)
  then have "expects (push_bytes d c) bodies (concat cs)" by (cases "dec_body_len d") (simp_all add: expects_def split: list.splits)
  from expects_drain [OF this] obtain fs bodies' d' where "drain_frames (push_bytes d c) = (fs, None, d')" "expects d' bodies' (concat cs)" by blast
  then show ?case using Cons.IH [of d' bodies'] by auto
qed simp

lemma next_encoded:
  "length b \<le> MAX_BODY_BYTES \<Longrightarrow>
     next_frame \<lparr>dec_buf = frame_encode b @ r, dec_body_len = None\<rparr> = (Inr (Some b), \<lparr>dec_buf = r, dec_body_len = None\<rparr>)"
  using find_sep_at [OF header_no_CR [of b], of "b @ r"] parse_header [of b]
  by (simp add: next_header frame_encode_parts take_body_def)

lemma drain_encoded:
  "list_all (\<lambda>b. length b \<le> MAX_BODY_BYTES) bodies \<Longrightarrow>
     drain_frames \<lparr>dec_buf = concat (map frame_encode bodies), dec_body_len = None\<rparr> = (bodies, None, decoder_new)"
proof (induction bodies)
  case Nil
  then show ?case by (subst drain_frames.simps) (simp add: next_header find_sep_def decoder_new_def)
next
  case (Cons b bodies)
  then show ?case using next_encoded [of b "concat (map frame_encode bodies)"] by (subst drain_frames.simps) simp
qed

lemma run_reads_encoded:
  assumes "list_all (\<lambda>b. length b \<le> MAX_BODY_BYTES) bodies" and "concat cs = concat (map frame_encode bodies)"
  shows "run_reads decoder_new cs = (bodies, None, decoder_new)"
proof (cases "cs = []")
  case True
  then have "bodies = []" using assms(2) by (cases bodies) (simp_all add: frame_encode_parts)
  then show ?thesis using True by simp
next
  case False
  have "expects decoder_new bodies (concat cs)" using assms by (simp add: expects_def decoder_new_def)
  from expects_run [OF this] obtain fs d' where run: "run_reads decoder_new cs = (fs, None, d')" by blast
  have "drain_frames (push_bytes decoder_new (concat cs)) = (bodies, None, decoder_new)"
    using drain_encoded [OF assms(1)] assms(2) by (simp add: decoder_new_def)
  moreover obtain rest where "drain_frames (push_bytes decoder_new (concat cs)) = (fs, None, push_bytes d' rest)" "rest = []"
    using run_reads_whole [OF run False] by auto
  ultimately show ?thesis using run by (simp add: push_bytes_def)
qed

text \<open>A stream of encoded messages is decoded to the same messages in the same order however the transport cuts it into reads: no read
  raises an error, and the decoder is empty at the end.\<close>

theorem frames_round_trip:
  assumes "list_all (\<lambda>b. length b \<le> MAX_BODY_BYTES) bodies" and "concat cs = concat (map frame_encode bodies)"
  shows "run_reads decoder_new cs = (bodies, None, decoder_new)"
  using assms by (rule run_reads_encoded)

theorem frames_round_trip_witness:
  "run_reads decoder_new [''Content-Length: 2'' @ [CR], LF # CR # LF # ''hiCont'', ''ent-Length: 0'' @ [CR, LF, CR, LF]] = ([''hi'', []], None, decoder_new)"
proof -
  have "concat [''Content-Length: 2'' @ [CR], LF # CR # LF # ''hiCont'', ''ent-Length: 0'' @ [CR, LF, CR, LF]] =
      concat (map frame_encode [''hi'', []])" by code_simp
  moreover have "list_all (\<lambda>b. length b \<le> MAX_BODY_BYTES) [''hi'', []]" by (simp add: MAX_BODY_BYTES_def)
  ultimately show ?thesis using frames_round_trip by blast
qed

text \<open>C28. On any stream, well-formed or not, the reads of a connection deliver what one read of all its bytes would: the same messages and
  the same error. The one exception is the cap on an unfinished header block, which depends on where a read ends.\<close>

theorem frames_chunk_independent:
  assumes "run_reads d cs = (fs, e, d')" and "cs \<noteq> []" and "e \<noteq> Some (FrameError ''header block too large'')"
  shows "\<exists>rest. drain_frames (push_bytes d (concat cs)) = (fs, e, push_bytes d' rest) \<and> (e = None \<longrightarrow> rest = [])"
  using run_reads_whole [OF assms] .

theorem frames_chunk_independent_witness:
  "\<exists>rest. drain_frames (push_bytes decoder_new (concat [''x'' @ [CR, LF], [CR, LF], ''y''])) =
     ([], Some (FrameError ''missing content-length header''), push_bytes \<lparr>dec_buf = ''x'' @ [CR, LF, CR, LF], dec_body_len = None\<rparr> rest)"
proof -
  have "run_reads decoder_new [''x'' @ [CR, LF], [CR, LF], ''y''] =
      ([], Some (FrameError ''missing content-length header''), \<lparr>dec_buf = ''x'' @ [CR, LF, CR, LF], dec_body_len = None\<rparr>)" by code_simp
  from frames_chunk_independent [OF this] show ?thesis by auto
qed

section \<open>What a peer can make the decoder hold\<close>

definition waiting_ok :: "decoder \<Rightarrow> bool" where
  "waiting_ok d \<longleftrightarrow>
     (case dec_body_len d of
        None \<Rightarrow> length (dec_buf d) \<le> MAX_HEADER_BYTES \<and> find_sep (dec_buf d) = None
      | Some n \<Rightarrow> length (dec_buf d) < n \<and> n \<le> MAX_BODY_BYTES)"

definition len_ok :: "decoder \<Rightarrow> bool" where
  "len_ok d \<longleftrightarrow> (case dec_body_len d of None \<Rightarrow> True | Some n \<Rightarrow> n \<le> MAX_BODY_BYTES)"

lemma take_body_ok:
  "n \<le> MAX_BODY_BYTES \<Longrightarrow> take_body n buf = (r, d') \<Longrightarrow> len_ok d' \<and> (r = Inr None \<longrightarrow> waiting_ok d')"
  by (auto simp: take_body_def len_ok_def waiting_ok_def split: if_splits)

lemma next_frame_ok:
  assumes "len_ok d" and "next_frame d = (r, d')"
  shows "len_ok d' \<and> (r = Inr None \<longrightarrow> waiting_ok d')"
proof (cases "dec_body_len d")
  case None
  then consider n sep where "n \<le> MAX_BODY_BYTES" "take_body n (drop (sep + 4) (dec_buf d)) = (r, d')"
    | "d' = d" "r = Inr None" "find_sep (dec_buf d) = None" "length (dec_buf d) \<le> MAX_HEADER_BYTES" | e where "d' = d" "r = Inl e"
    using assms by (auto simp: next_header not_less split: option.splits sum.splits if_splits)
  then show ?thesis using assms None take_body_ok by cases (auto simp: waiting_ok_def)
next
  case (Some n)
  then have "n \<le> MAX_BODY_BYTES" using assms by (simp add: len_ok_def)
  then show ?thesis using assms(2) Some take_body_ok by (simp add: next_body)
qed

lemma drain_ok: "drain_frames d = (fs, e, d') \<Longrightarrow> len_ok d \<Longrightarrow> len_ok d' \<and> (e = None \<longrightarrow> waiting_ok d')"
proof (induction d arbitrary: fs rule: drain_frames.induct)
  case (1 d)
  consider body d1 fs' where "next_frame d = (Inr (Some body), d1)" "drain_frames d1 = (fs', e, d')"
    | "next_frame d = (Inr None, d')" "e = None" | x where "next_frame d = (Inl x, d')" "e = Some x"
    using 1(2) by (subst (asm) drain_frames.simps) (auto split: prod.splits sum.splits option.splits)
  then show ?case
  proof cases
    case 1
    then show ?thesis using "1.IH" [OF 1(1) [symmetric] refl refl 1(2)] next_frame_ok [OF "1.prems"(2) 1(1)] by blast
  qed (use next_frame_ok [OF "1.prems"(2)] in auto)
qed

lemma run_ok:
  "run_reads d cs = (fs, e, d') \<Longrightarrow> len_ok d \<Longrightarrow> cs \<noteq> [] \<Longrightarrow> e = None \<Longrightarrow> waiting_ok d'"
proof (induction cs arbitrary: d fs)
  case (Cons c cs)
  obtain f1 e1 d1 where first: "drain_frames (push_bytes d c) = (f1, e1, d1)" by (cases "drain_frames (push_bytes d c)") auto
  have ok: "len_ok (push_bytes d c)" using Cons.prems(2) by (simp add: len_ok_def)
  from drain_ok [OF first ok] show ?case using Cons first by (cases e1; cases "cs = []") (auto split: prod.splits)
qed simp

text \<open>C29. Between reads the decoder of a connection that has not failed holds an unfinished header block of at most 8 KiB, or less than the announced
  length of a body, which is at most 64 MiB: whatever the peer sends, what is kept is bounded.\<close>

theorem decoder_bounded:
  assumes "run_reads decoder_new cs = (fs, None, d)"
  shows "if dec_body_len d = None then length (dec_buf d) \<le> MAX_HEADER_BYTES
         else length (dec_buf d) < the (dec_body_len d) \<and> the (dec_body_len d) \<le> MAX_BODY_BYTES"
proof (cases "cs = []")
  case False
  have "len_ok decoder_new" by (simp add: len_ok_def decoder_new_def)
  from run_ok [OF assms this False refl] show ?thesis by (auto simp: waiting_ok_def split: option.splits)
qed (use assms in \<open>auto simp: decoder_new_def\<close>)

theorem decoder_bounded_witness:
  "run_reads decoder_new [''Content-Length: 5'' @ [CR, LF, CR, LF] @ ''ab''] = ([], None, \<lparr>dec_buf = ''ab'', dec_body_len = Some 5\<rparr>) \<and>
   (5 :: nat) \<le> MAX_BODY_BYTES"
proof -
  have run: "run_reads decoder_new [''Content-Length: 5'' @ [CR, LF, CR, LF] @ ''ab''] = ([], None, \<lparr>dec_buf = ''ab'', dec_body_len = Some 5\<rparr>)"
  proof -
    have hdr: "frame_header ''abcde'' = ''Content-Length: 5''" by code_simp
    have "next_frame (push_bytes decoder_new (''Content-Length: 5'' @ [CR, LF, CR, LF] @ ''ab'')) = (Inr None, \<lparr>dec_buf = ''ab'', dec_body_len = Some 5\<rparr>)"
      using find_sep_at [OF header_no_CR [of "''abcde''"], of "''ab''"] parse_header [of "''abcde''"]
      unfolding hdr by (simp add: next_header decoder_new_def take_body_def MAX_BODY_BYTES_def)
    then show ?thesis by (simp add: drain_frames.simps)
  qed
  from decoder_bounded [OF this] run show ?thesis by simp
qed

text \<open>The cap on the header block holds only while its end is missing: a block of any size passes when its blank line comes with the same
  read.\<close>

lemma long_header_accepted:
  "next_frame \<lparr>dec_buf = ''Content-Length: 0'' @ replicate k CHR '' '' @ [CR, LF, CR, LF], dec_body_len = None\<rparr> =
     (Inr (Some []), decoder_new)"
proof -
  let ?h = "''Content-Length: 0'' @ replicate k CHR '' ''"
  have h: "CR \<notin> set ?h" by (auto simp: CR_def)
  have "dropWhile is_ascii_whitespace (replicate k CHR '' '' @ ''0'') = ''0''" by (induction k) (simp_all add: is_ascii_whitespace_def)
  then have val: "frame_trim ('' 0'' @ replicate k CHR '' '') = ''0''" by (simp add: frame_trim_def is_ascii_whitespace_def)
  have name: "eq_ignore_ascii_case (frame_trim ''Content-Length'') ''content-length''" by code_simp
  have "header_loop [?h] = Inr 0" using val name by (simp add: is_ascii_digit_def checked_mul_def checked_add_def usize_limit_def)
  then have "parse_content_length ?h = Inr 0" using split_crlf_one [OF h] by (simp add: parse_content_length_def)
  then show ?thesis using find_sep_at [OF h, of "[]"] by (simp add: next_header take_body_def decoder_new_def)
qed

end
