(* ===== verification/Rust_Float.thy ===== *)
theory Rust_Float
  imports Rust_Text "HOL-Library.Log_Nat"
begin

text \<open>Numbers of the Rust core library as text: \<open>i64\<close> and \<open>f64\<close> with their \<open>to_string\<close> and \<open>parse\<close>, and the casts between them. An \<open>f64\<close> is its
  IEEE 754 bit pattern; reading rounds to the nearest number with ties to even, and writing gives the shortest decimal that reads back.\<close>

section \<open>Signed integers as text\<close>

type_synonym i64 = "64 word"

text \<open>\<open>to_string\<close> and \<open>parse\<close> of an \<open>i64\<close>: a number is held as its 64-bit word and read with \<open>sint\<close>.\<close>

definition show_i64 :: "i64 \<Rightarrow> string" where
  "show_i64 i = (if sint i < 0 then CHR ''-'' # show_nat (nat (- sint i)) else show_nat (nat (sint i)))"

definition parse_i64 :: "string \<Rightarrow> i64 option" where
  "parse_i64 s =
     (case s of
        [] \<Rightarrow> None
      | c # cs \<Rightarrow>
          if c = CHR ''-'' then
            (if cs = [] then None else map_option (\<lambda>n. - of_nat n) (parse_digits 10 (2 ^ 63 + 1) 0 cs))
          else map_option of_nat (from_str_radix 10 (2 ^ 63) s))"

section \<open>Binary floating point\<close>

text \<open>An \<open>f64\<close> is its bit pattern: a sign and the 63 bits of its magnitude. The magnitudes from \<open>F64_INF\<close> on are the infinity and the NaNs; the others stand for
  a multiple of \<open>2 ^ -F64_SUB\<close>, \<open>mag_scaled\<close>, and their order is that of the numbers.\<close>

type_synonym f64 = "64 word"

definition F64_INF :: nat where "F64_INF = 2047 * 2 ^ 52"
definition F64_SUB :: nat where "F64_SUB = 1074"

definition f64_negative :: "f64 \<Rightarrow> bool" where "f64_negative x \<longleftrightarrow> 2 ^ 63 \<le> unat x"
definition f64_mag :: "f64 \<Rightarrow> nat" where "f64_mag x = unat x mod 2 ^ 63"
definition is_finite :: "f64 \<Rightarrow> bool" where "is_finite x \<longleftrightarrow> f64_mag x < F64_INF"
definition is_nan :: "f64 \<Rightarrow> bool" where "is_nan x \<longleftrightarrow> F64_INF < f64_mag x"

definition f64_of :: "bool \<Rightarrow> nat \<Rightarrow> f64" where
  "f64_of neg g = of_nat ((if neg then 2 ^ 63 else 0) + g)"

definition mag_scaled :: "nat \<Rightarrow> nat" where
  "mag_scaled g = (if g < 2 ^ 52 then g else (2 ^ 52 + g mod 2 ^ 52) * 2 ^ (g div 2 ^ 52 - 1))"

text \<open>The magnitude nearest to a ratio; a ratio half way between two goes to the even one, and one that is too large to the infinity.\<close>

definition round_half_even :: "nat \<Rightarrow> nat \<Rightarrow> nat" where
  "round_half_even a b =
     (let q = a div b; r = a mod b
      in if 2 * r < b then q else if b < 2 * r then q + 1 else if even q then q else q + 1)"

definition round_mag :: "nat \<Rightarrow> nat \<Rightarrow> nat" where
  "round_mag n d =
     (let e = floorlog 2 (n * 2 ^ F64_SUB div d) - 53
      in min F64_INF (e * 2 ^ 52 + round_half_even (n * 2 ^ F64_SUB) (d * 2 ^ e)))"

text \<open>The casts \<open>as f64\<close> and \<open>as i64\<close>, and the comparison \<open>==\<close>.\<close>

definition i64_as_f64 :: "i64 \<Rightarrow> f64" where
  "i64_as_f64 i = f64_of (sint i < 0) (round_mag (nat (abs (sint i))) 1)"

definition f64_as_i64 :: "f64 \<Rightarrow> i64" where
  "f64_as_i64 x =
     (let t = mag_scaled (f64_mag x) div 2 ^ F64_SUB
      in if is_nan x then 0
         else if f64_negative x then (if 2 ^ 63 \<le> t then 2 ^ 63 else - of_nat t)
         else (if 2 ^ 63 \<le> t then 2 ^ 63 - 1 else of_nat t))"

definition f64_eq :: "f64 \<Rightarrow> f64 \<Rightarrow> bool" where
  "f64_eq x y \<longleftrightarrow> \<not> is_nan x \<and> \<not> is_nan y \<and> (x = y \<or> f64_mag x = 0 \<and> f64_mag y = 0)"

text \<open>\<open>parse::<f64>\<close> on decimal numbers; the words for infinity and NaN are left out.\<close>

definition digits_value :: "string \<Rightarrow> nat" where
  "digits_value s = foldl (\<lambda>n c. 10 * n + (ord c - 48)) 0 s"

definition decimal_mag :: "nat \<Rightarrow> int \<Rightarrow> nat" where
  "decimal_mag n k = round_mag (n * 10 ^ nat k) (10 ^ nat (- k))"

definition parse_exponent :: "string \<Rightarrow> int option" where
  "parse_exponent s =
     (case s of
        [] \<Rightarrow> Some 0
      | c # t \<Rightarrow>
          if c \<noteq> CHR ''e'' \<and> c \<noteq> CHR ''E'' then None
          else
            let neg = (t \<noteq> [] \<and> hd t = CHR ''-''); ds = (if t \<noteq> [] \<and> (hd t = CHR ''-'' \<or> hd t = CHR ''+'') then tl t else t)
            in if ds = [] \<or> \<not> list_all is_ascii_digit ds then None
               else Some (if neg then - int (digits_value ds) else int (digits_value ds)))"

definition parse_f64 :: "string \<Rightarrow> f64 option" where
  "parse_f64 s =
     (let neg = (s \<noteq> [] \<and> hd s = CHR ''-''); s1 = (if s \<noteq> [] \<and> (hd s = CHR ''-'' \<or> hd s = CHR ''+'') then tl s else s);
          ip = takeWhile is_ascii_digit s1; r1 = dropWhile is_ascii_digit s1;
          point = (r1 \<noteq> [] \<and> hd r1 = CHR ''.'');
          fp = (if point then takeWhile is_ascii_digit (tl r1) else []);
          r2 = (if point then dropWhile is_ascii_digit (tl r1) else r1)
      in if ip = [] \<and> fp = [] then None
         else map_option (\<lambda>x. f64_of neg (decimal_mag (digits_value (ip @ fp)) (x - int (length fp)))) (parse_exponent r2))"

text \<open>\<open>to_string\<close>: the shortest decimal that reads back as the number, the nearest of those, written without an exponent. \<open>pick_decimal\<close> looks at the two multiples
  of \<open>10 ^ k\<close> around a magnitude; at \<open>k = -F64_SUB\<close> the lower one is the magnitude itself.\<close>

definition pick_decimal :: "nat \<Rightarrow> int \<Rightarrow> nat option" where
  "pick_decimal g k =
     (let a = mag_scaled g * 10 ^ nat (- k); b = 2 ^ F64_SUB * 10 ^ nat k; lo = a div b; r = a mod b;
          down = (decimal_mag lo k = g); up = (decimal_mag (lo + 1) k = g)
      in if up \<and> (\<not> down \<or> b \<le> 2 * r) then Some (lo + 1) else if down then Some lo else None)"

definition exact_decimal :: "nat \<Rightarrow> nat \<times> int" where
  "exact_decimal g = (mag_scaled g * 5 ^ F64_SUB, - int F64_SUB)"

fun shortest_loop :: "nat \<Rightarrow> nat \<Rightarrow> int \<Rightarrow> nat \<times> int" where
  "shortest_loop g 0 k = exact_decimal g"
| "shortest_loop g (Suc n) k =
     (case pick_decimal g k of
        Some d \<Rightarrow> (d, k)
      | None \<Rightarrow> shortest_loop g n (k - 1))"

definition shortest_decimal :: "nat \<Rightarrow> nat \<times> int" where
  "shortest_decimal g = (if g = 0 then (0, 0) else shortest_loop g (F64_SUB + 309) 309)"

definition show_decimal :: "nat \<Rightarrow> int \<Rightarrow> string" where
  "show_decimal d k =
     (let ds = show_nat d; n = nat (- k)
      in if 0 \<le> k then ds @ replicate (nat k) CHR ''0''
         else if n < length ds then take (length ds - n) ds @ CHR ''.'' # drop (length ds - n) ds
         else ''0.'' @ replicate (n - length ds) CHR ''0'' @ ds)"

definition show_f64 :: "f64 \<Rightarrow> string" where
  "show_f64 x =
     (if is_nan x then ''NaN''
      else (if f64_negative x then ''-'' else []) @
           (if is_finite x then case shortest_decimal (f64_mag x) of (d, k) \<Rightarrow> show_decimal d k else ''inf''))"

section \<open>What is printed reads back\<close>

lemma parse_show_i64: "parse_i64 (show_i64 i) = Some i"
proof (cases "sint i < 0")
  case True
  have "- (2 ^ 63) \<le> sint i" using sint_ge [of i] by simp
  then have "nat (- sint i) < 2 ^ 63 + 1" by simp
  then have "parse_digits 10 (2 ^ 63 + 1) 0 (show_nat (nat (- sint i))) = Some (nat (- sint i))"
    by (simp add: show_nat_def parse_digits_of)
  moreover have "- word_of_int (- sint i) = i" by simp
  ultimately show ?thesis using True by (simp add: show_i64_def parse_i64_def)
next
  case False
  have "sint i < 2 ^ 63" using sint_lt [of i] by simp
  then have lim: "nat (sint i) < 2 ^ 63" using False by (simp add: nat_less_iff)
  obtain c cs where s: "show_nat (nat (sint i)) = c # cs" by (cases "show_nat (nat (sint i))") auto
  then have "c \<noteq> CHR ''-''" using show_nat_decimal [of "nat (sint i)"] by (auto simp: is_ascii_digit_def)
  moreover have "from_str_radix 10 (2 ^ 63) (c # cs) = Some (nat (sint i))" using from_show_nat [OF lim] s by simp
  ultimately show ?thesis using False s by (simp add: show_i64_def parse_i64_def)
qed

lemma floorlog_range: "2 ^ k \<le> q \<Longrightarrow> q < 2 ^ (k + 1) \<Longrightarrow> floorlog 2 q = k + 1"
proof -
  assume q: "2 ^ k \<le> q" "q < 2 ^ (k + 1)"
  have "floorlog 2 q \<le> k + 1" using q(2) floorlog_leI [of q 2 "k + 1"] by simp
  moreover have "k < floorlog 2 q" using q(1) floorlog_ge_SucI [of 2 k q] by simp
  ultimately show ?thesis by simp
qed

lemma round_exact: "0 < b \<Longrightarrow> round_half_even (m * b) b = m"
  by (simp add: round_half_even_def)

lemma scaled_parts:
  assumes "2 ^ 52 \<le> g"
  obtains e m where "g = e * 2 ^ 52 + m" "2 ^ 52 \<le> m" "m < 2 ^ 53" "mag_scaled g = m * 2 ^ e"
proof
  have "1 \<le> g div 2 ^ 52" using div_le_mono [OF assms, of "2 ^ 52"] by simp
  then show "g = (g div 2 ^ 52 - 1) * 2 ^ 52 + (2 ^ 52 + g mod 2 ^ 52)"
    using div_mult_mod_eq [of g "2 ^ 52"] by (simp add: diff_mult_distrib)
  show "2 ^ 52 \<le> 2 ^ 52 + g mod 2 ^ 52" "2 ^ 52 + g mod 2 ^ 52 < 2 ^ 53" by simp_all
  show "mag_scaled g = (2 ^ 52 + g mod 2 ^ 52) * 2 ^ (g div 2 ^ 52 - 1)" using assms by (simp add: mag_scaled_def)
qed

lemma round_mag_exact:
  assumes "n * 2 ^ F64_SUB = mag_scaled g * d" and "0 < d" and "g < F64_INF"
  shows "round_mag n d = g"
proof -
  have q: "n * 2 ^ F64_SUB div d = mag_scaled g" using assms by simp
  show ?thesis
  proof (cases "g < 2 ^ 52")
    case True
    then have "mag_scaled g = g" by (simp add: mag_scaled_def)
    moreover have "floorlog 2 g \<le> 53" using True floorlog_leI [of g 2 53] by simp
    ultimately show ?thesis using q assms round_exact [of d g] by (simp add: round_mag_def)
  next
    case False
    then obtain e m where p: "g = e * 2 ^ 52 + m" "2 ^ 52 \<le> m" "m < 2 ^ 53" "mag_scaled g = m * 2 ^ e" using scaled_parts by (metis not_less)
    have "2 ^ (52 + e) \<le> mag_scaled g" "mag_scaled g < 2 ^ (52 + e + 1)" using p by (simp_all add: power_add)
    then have "floorlog 2 (mag_scaled g) = 52 + e + 1" by (rule floorlog_range)
    moreover have "n * 2 ^ F64_SUB = m * (d * 2 ^ e)" using assms(1) p(4) by simp
    ultimately show ?thesis using q p(1) assms(2,3) round_exact [of "d * 2 ^ e" m] by (simp add: round_mag_def)
  qed
qed

lemma decimal_mag_exact:
  assumes "g < F64_INF" and "exact_decimal g = (d, k)"
  shows "decimal_mag d k = g"
proof -
  have "(5 :: nat) ^ F64_SUB * 2 ^ F64_SUB = 10 ^ F64_SUB" using power_mult_distrib [of "5 :: nat" 2 F64_SUB] by simp
  then have "mag_scaled g * 5 ^ F64_SUB * 2 ^ F64_SUB = mag_scaled g * 10 ^ F64_SUB" by simp
  from round_mag_exact [OF this _ assms(1)] show ?thesis using assms(2) by (auto simp: decimal_mag_def exact_decimal_def)
qed

lemma pick_decimal_reads: "pick_decimal g k = Some d \<Longrightarrow> decimal_mag d k = g"
  by (auto simp: pick_decimal_def Let_def split: if_splits)

lemma shortest_loop_reads: "g < F64_INF \<Longrightarrow> shortest_loop g n k = (d, j) \<Longrightarrow> decimal_mag d j = g"
proof (induction n arbitrary: k)
  case 0
  then show ?case using decimal_mag_exact [of g] by simp
qed (auto dest: pick_decimal_reads split: option.splits)

lemma decimal_zero: "decimal_mag 0 0 = 0"
  by (simp add: decimal_mag_def round_mag_def round_half_even_def floorlog_def)

lemma shortest_reads: "g < F64_INF \<Longrightarrow> shortest_decimal g = (d, k) \<Longrightarrow> decimal_mag d k = g"
  using shortest_loop_reads decimal_zero by (auto simp: shortest_decimal_def split: if_splits)

lemma digits_value_snoc: "digits_value (s @ [c]) = 10 * digits_value s + (ord c - 48)"
  by (simp add: digits_value_def)

lemma digits_value_show: "digits_value (show_nat n) = n"
proof -
  have "r = 10 \<Longrightarrow> digits_value (digits_of r n) = n" for r
  proof (induction r n rule: digits_of.induct)
    case (1 r n)
    have d: "ord (digit_char m) - 48 = m" if "m < 10" for m using that by (simp add: digit_char_def)
    have "n mod 10 < 10" by simp
    with 1 d show ?case by (subst digits_of.simps) (auto simp: digits_value_snoc, simp add: digits_value_def)
  qed
  then show ?thesis by (simp add: show_nat_def)
qed

lemma digits_value_zeros: "digits_value (s @ replicate k CHR ''0'') = digits_value s * 10 ^ k" "digits_value (replicate k CHR ''0'' @ s) = digits_value s"
proof -
  show "digits_value (s @ replicate k CHR ''0'') = digits_value s * 10 ^ k"
    by (induction k) (simp_all add: replicate_append_same [symmetric] digits_value_snoc flip: append_assoc)
  have "foldl (\<lambda>n c. 10 * n + (ord c - 48)) 0 (replicate k CHR ''0'') = (0 :: nat)" by (induction k) simp_all
  then show "digits_value (replicate k CHR ''0'' @ s) = digits_value s" by (simp add: digits_value_def)
qed

text \<open>The two shapes a decimal is written in: an integer, or digits on both sides of a point.\<close>

lemma show_decimal_int: "0 \<le> k \<Longrightarrow> show_decimal d k = show_nat d @ replicate (nat k) CHR ''0''"
  by (simp add: show_decimal_def)

lemma list_all_take_drop: "list_all P xs \<Longrightarrow> list_all P (take n xs) \<and> list_all P (drop n xs)"
  by (metis append_take_drop_id list_all_append)

lemma show_nat_head: "0 < n \<Longrightarrow> hd (show_nat n) \<noteq> CHR ''0''"
proof -
  have "r = 10 \<Longrightarrow> 0 < n \<Longrightarrow> hd (digits_of r n) \<noteq> CHR ''0''" for r
  proof (induction r n rule: digits_of.induct)
    case (1 r n)
    have d: "digit_char m \<noteq> CHR ''0''" if "0 < m" "m < 10" for m
    proof
      assume "digit_char m = CHR ''0''"
      then have "ord (digit_char m) = 48" by simp
      then show False using that by (simp add: digit_char_def)
    qed
    show ?case
    proof (cases "n < 10")
      case True
      then show ?thesis using 1 d by (subst digits_of.simps) simp
    next
      case False
      then have "0 < n div 10" by (simp add: div_greater_zero_iff)
      then show ?thesis using 1 False by (subst digits_of.simps) simp
    qed
  qed
  then show "0 < n \<Longrightarrow> ?thesis" by (simp add: show_nat_def)
qed

lemma show_decimal_point:
  assumes "k < 0" and "0 < d"
  obtains ip fp where "show_decimal d k = ip @ CHR ''.'' # fp" "list_all is_ascii_digit ip" "list_all is_ascii_digit fp" "ip \<noteq> []" "fp \<noteq> []"
    "digits_value (ip @ fp) = d" "int (length fp) = - k" "ip = ''0'' \<or> hd ip \<noteq> CHR ''0''"
proof (cases "nat (- k) < length (show_nat d)")
  case True
  let ?j = "length (show_nat d) - nat (- k)"
  have "hd (take ?j (show_nat d)) \<noteq> CHR ''0''" using True show_nat_head [OF assms(2)] by (simp add: hd_take)
  moreover have "list_all is_ascii_digit (take ?j (show_nat d))" "list_all is_ascii_digit (drop ?j (show_nat d))"
    using list_all_take_drop [OF show_nat_decimal] by blast+
  moreover have "take ?j (show_nat d) \<noteq> []" "drop ?j (show_nat d) \<noteq> []" "int (length (drop ?j (show_nat d))) = - k" using True assms by auto
  moreover have "show_decimal d k = take ?j (show_nat d) @ CHR ''.'' # drop ?j (show_nat d)" using True assms by (simp add: show_decimal_def Let_def)
  ultimately show ?thesis using that [of "take ?j (show_nat d)" "drop ?j (show_nat d)"] digits_value_show [of d] by simp
next
  case False
  let ?z = "replicate (nat (- k) - length (show_nat d)) CHR ''0''"
  have "digits_value (''0'' @ ?z @ show_nat d) = d"
    using digits_value_zeros(2) [of "Suc (nat (- k) - length (show_nat d))" "show_nat d"] digits_value_show by simp
  moreover have "list_all is_ascii_digit (?z @ show_nat d)" using show_nat_decimal [of d] by (auto simp: list_all_iff is_ascii_digit_def)
  moreover have "int (length (?z @ show_nat d)) = - k" using False assms by simp
  moreover have "show_decimal d k = ''0'' @ CHR ''.'' # ?z @ show_nat d" using False assms by (simp add: show_decimal_def Let_def)
  ultimately show ?thesis using that [of "''0''" "?z @ show_nat d"] by (simp add: is_ascii_digit_def)
qed

lemma shortest_pos: "0 < g \<Longrightarrow> g < F64_INF \<Longrightarrow> shortest_decimal g = (d, k) \<Longrightarrow> 0 < d"
proof -
  assume g: "0 < g" "g < F64_INF" "shortest_decimal g = (d, k)"
  have "decimal_mag 0 k = 0" by (simp add: decimal_mag_def round_mag_def round_half_even_def floorlog_def)
  then show "0 < d" using shortest_reads [OF g(2,3)] g(1) by (cases d) auto
qed

lemma parse_f64_text:
  assumes "list_all is_ascii_digit ip" and "ip \<noteq> []" and "list_all is_ascii_digit fp"
  shows "parse_f64 ((if neg then ''-'' else []) @ ip) = Some (f64_of neg (decimal_mag (digits_value ip) 0))"
    and "parse_f64 ((if neg then ''-'' else []) @ ip @ CHR ''.'' # fp) = Some (f64_of neg (decimal_mag (digits_value (ip @ fp)) (- int (length fp))))"
proof -
  have hd: "hd ip \<noteq> CHR ''-'' \<and> hd ip \<noteq> CHR ''+''" using assms(1,2) by (cases ip) (auto simp: is_ascii_digit_def)
  have dot: "\<not> is_ascii_digit CHR ''.''" by (simp add: is_ascii_digit_def)
  have all: "takeWhile is_ascii_digit ip = ip" "dropWhile is_ascii_digit ip = []" "takeWhile is_ascii_digit fp = fp" "dropWhile is_ascii_digit fp = []"
    using take_drop_all [OF assms(1), of "[]"] take_drop_all [OF assms(3), of "[]"] by simp_all
  have pt: "takeWhile is_ascii_digit (ip @ CHR ''.'' # fp) = ip" "dropWhile is_ascii_digit (ip @ CHR ''.'' # fp) = CHR ''.'' # fp"
    using take_drop_all [OF assms(1), of "CHR ''.'' # fp"] dot by simp_all
  show "parse_f64 ((if neg then ''-'' else []) @ ip) = Some (f64_of neg (decimal_mag (digits_value ip) 0))"
    using hd assms(2) by (cases neg) (simp_all add: all parse_f64_def parse_exponent_def Let_def)
  show "parse_f64 ((if neg then ''-'' else []) @ ip @ CHR ''.'' # fp) = Some (f64_of neg (decimal_mag (digits_value (ip @ fp)) (- int (length fp))))"
    using hd assms(2) by (cases neg) (simp_all add: all pt parse_f64_def parse_exponent_def Let_def)
qed

lemma f64_parts: "f64_of (f64_negative x) (f64_mag x) = x"
proof -
  have "unat x < 2 ^ 64" using unsigned_less [of x] by simp
  then have "(if f64_negative x then 2 ^ 63 else 0) + f64_mag x = unat x"
    by (auto simp: f64_negative_def f64_mag_def mod_if)
  then show ?thesis by (simp add: f64_of_def)
qed

text \<open>Reading the integer text of a decimal gives the same magnitude as its digits and exponent.\<close>

lemma decimal_mag_shift: "0 \<le> k \<Longrightarrow> decimal_mag (d * 10 ^ nat k) 0 = decimal_mag d k"
  by (simp add: decimal_mag_def)

lemma parse_show_f64:
  assumes "is_finite x"
  shows "parse_f64 (show_f64 x) = Some x"
proof -
  have nan: "\<not> is_nan x" using assms by (auto simp: is_finite_def is_nan_def)
  obtain d k where s: "shortest_decimal (f64_mag x) = (d, k)" by (cases "shortest_decimal (f64_mag x)") auto
  have r: "decimal_mag d k = f64_mag x" using shortest_reads s assms by (simp add: is_finite_def)
  have shown: "show_f64 x = (if f64_negative x then ''-'' else []) @ show_decimal d k" using s nan assms by (simp add: show_f64_def)
  show ?thesis
  proof (cases "0 \<le> k")
    case True
    have "list_all is_ascii_digit (show_decimal d k)" "show_decimal d k \<noteq> []"
      using True show_nat_decimal [of d] by (auto simp: show_decimal_int list_all_iff is_ascii_digit_def)
    from parse_f64_text(1) [OF this, of "[]" "f64_negative x"] show ?thesis
      using shown True r f64_parts [of x] by (simp add: show_decimal_int digits_value_zeros digits_value_show decimal_mag_shift)
  next
    case False
    then have "0 < d" using shortest_pos [of "f64_mag x" d k] s assms by (cases "f64_mag x") (auto simp: is_finite_def shortest_decimal_def)
    with False obtain ip fp where "show_decimal d k = ip @ CHR ''.'' # fp" "list_all is_ascii_digit ip" "list_all is_ascii_digit fp" "ip \<noteq> []"
      "digits_value (ip @ fp) = d" "int (length fp) = - k" using show_decimal_point [of k d] by (metis not_le)
    then show ?thesis using parse_f64_text(2) [of ip fp "f64_negative x"] shown r f64_parts [of x] by simp
  qed
qed

end
