(* ===== verification/Parley_Json.thy ===== *)
theory Parley_Json
  imports Rust_Float
begin

unbundle bit_operations_syntax

text \<open>The JSON codec of \<open>parley\<close> (\<open>src/usr/lib/parley/src/json.rs\<close>): the value type and its accessors, the parser as steps on its record, and the serializer.
  Bytes are characters. A step of the parser panics, fails or succeeds; the mutual recursion of \<open>parse_value\<close>, \<open>parse_array\<close> and \<open>parse_object\<close> goes through
  \<open>parse_task\<close> with a bound on the calls, and \<open>value_parse\<close> gives it twice the length of the input plus two, which is enough for every input
  (\<open>json_parse_total\<close>). The round trip is in \<open>Parley_Json_Text\<close>.\<close>

section \<open>Values\<close>

definition MAX_DEPTH :: nat where "MAX_DEPTH = 128"

datatype json =
    VNull
  | VBool bool
  | VInt i64
  | VFloat f64
  | VStr string
  | VArray "json list"
  | VObject "(string \<times> json) list"

definition value_get :: "json \<Rightarrow> string \<Rightarrow> json option" where
  "value_get v key =
     (case v of VObject kvs \<Rightarrow> map_option snd (find (\<lambda>(k, _). k = key) kvs) | _ \<Rightarrow> None)"

definition as_str :: "json \<Rightarrow> string option" where
  "as_str v = (case v of VStr s \<Rightarrow> Some s | _ \<Rightarrow> None)"

definition as_i64 :: "json \<Rightarrow> i64 option" where
  "as_i64 v =
     (case v of
        VInt i \<Rightarrow> Some i
      | VFloat f \<Rightarrow> let i = f64_as_i64 f in if f64_eq (i64_as_f64 i) f then Some i else None
      | _ \<Rightarrow> None)"

definition as_f64 :: "json \<Rightarrow> f64 option" where
  "as_f64 v = (case v of VInt i \<Rightarrow> Some (i64_as_f64 i) | VFloat f \<Rightarrow> Some f | _ \<Rightarrow> None)"

definition as_bool :: "json \<Rightarrow> bool option" where
  "as_bool v = (case v of VBool b \<Rightarrow> Some b | _ \<Rightarrow> None)"

definition as_array :: "json \<Rightarrow> json list option" where
  "as_array v = (case v of VArray a \<Rightarrow> Some a | _ \<Rightarrow> None)"

definition as_object :: "json \<Rightarrow> (string \<times> json) list option" where
  "as_object v = (case v of VObject kvs \<Rightarrow> Some kvs | _ \<Rightarrow> None)"

definition is_null :: "json \<Rightarrow> bool" where
  "is_null v = (case v of VNull \<Rightarrow> True | _ \<Rightarrow> False)"

section \<open>The parser\<close>

datatype json_error = Json_error nat string

record parser =
  ps_b :: string
  ps_i :: nat
  ps_depth :: nat

text \<open>A step of the parser panics (None), fails, or yields a value and the parser after it.\<close>

type_synonym 'a parsed = "(json_error + 'a \<times> parser) option"

definition p_ok :: "'a \<Rightarrow> parser \<Rightarrow> 'a parsed" where
  "p_ok a p = Some (Inr (a, p))"

definition p_err :: "parser \<Rightarrow> string \<Rightarrow> 'a parsed" where
  "p_err p msg = Some (Inl (Json_error (ps_i p) msg))"

definition p_then :: "'a parsed \<Rightarrow> ('a \<Rightarrow> parser \<Rightarrow> 'b parsed) \<Rightarrow> 'b parsed" where
  "p_then m f = (case m of None \<Rightarrow> None | Some (Inl e) \<Rightarrow> Some (Inl e) | Some (Inr (a, p)) \<Rightarrow> f a p)"

definition peek :: "parser \<Rightarrow> char option" where
  "peek p = (if ps_i p < length (ps_b p) then Some (ps_b p ! ps_i p) else None)"

definition advance :: "nat \<Rightarrow> parser \<Rightarrow> parser" where
  "advance n p = p\<lparr>ps_i := ps_i p + n\<rparr>"

text \<open>The slice of the input from one position to another.\<close>

definition slice :: "string \<Rightarrow> nat \<Rightarrow> nat \<Rightarrow> string option" where
  "slice b i j = (if i \<le> j \<and> j \<le> length b then Some (take (j - i) (drop i b)) else None)"

definition is_json_ws :: "char \<Rightarrow> bool" where
  "is_json_ws c \<longleftrightarrow> c = CHR '' '' \<or> c = CHR 0x09 \<or> c = CHR 0x0A \<or> c = CHR 0x0D"

text \<open>The loops that step over white space and over digits.\<close>

function skip_while :: "(char \<Rightarrow> bool) \<Rightarrow> parser \<Rightarrow> parser" where
  "skip_while f p =
     (case peek p of
        Some c \<Rightarrow> if f c then skip_while f (advance 1 p) else p
      | None \<Rightarrow> p)"
  by pat_completeness auto
termination by (relation "measure (\<lambda>(f, p). length (ps_b p) - ps_i p)") (auto simp: peek_def advance_def split: if_splits)
declare skip_while.simps [simp del]

definition skip_ws :: "parser \<Rightarrow> parser" where
  "skip_ws p = skip_while is_json_ws p"

definition expect_lit :: "string \<Rightarrow> json \<Rightarrow> parser \<Rightarrow> json parsed" where
  "expect_lit lit v p =
     (case slice (ps_b p) (ps_i p) (length (ps_b p)) of
        None \<Rightarrow> None
      | Some rest \<Rightarrow>
          if take (length lit) rest = lit then p_ok v (advance (length lit) p)
          else p_err p ''invalid literal'')"

definition parse_null :: "parser \<Rightarrow> json parsed" where
  "parse_null p = expect_lit ''null'' VNull p"

definition parse_bool :: "parser \<Rightarrow> json parsed" where
  "parse_bool p =
     (if peek p = Some CHR ''t'' then expect_lit ''true'' (VBool True) p
      else expect_lit ''false'' (VBool False) p)"

definition digit_next :: "parser \<Rightarrow> bool" where
  "digit_next p = (case peek p of Some c \<Rightarrow> is_ascii_digit c | None \<Rightarrow> False)"

definition skip_digits :: "parser \<Rightarrow> parser" where
  "skip_digits p = skip_while is_ascii_digit p"

text \<open>The four parts of \<open>parse_number\<close>, last first: the conversion, the exponent, the fraction and the integer part.\<close>

definition number_end :: "nat \<Rightarrow> bool \<Rightarrow> parser \<Rightarrow> json parsed" where
  "number_end start is_float p =
     (case slice (ps_b p) start (ps_i p) of
        None \<Rightarrow> None
      | Some s \<Rightarrow>
          if \<not> utf8_ok s then p_err p ''bad number''
          else
            let float = (case parse_f64 s of Some x \<Rightarrow> p_ok (VFloat x) p | None \<Rightarrow> p_err p ''number out of range'')
            in if is_float then float
               else case parse_i64 s of Some i \<Rightarrow> p_ok (VInt i) p | None \<Rightarrow> float)"

definition number_exp :: "nat \<Rightarrow> bool \<Rightarrow> parser \<Rightarrow> json parsed" where
  "number_exp start is_float p =
     (if peek p = Some CHR ''e'' \<or> peek p = Some CHR ''E'' then
        let p1 = advance 1 p;
            p2 = (if peek p1 = Some CHR ''+'' \<or> peek p1 = Some CHR ''-'' then advance 1 p1 else p1)
        in if \<not> digit_next p2 then p_err p2 ''digit expected in exponent''
           else number_end start True (skip_digits p2)
      else number_end start is_float p)"

definition number_frac :: "nat \<Rightarrow> parser \<Rightarrow> json parsed" where
  "number_frac start p =
     (if peek p = Some CHR ''.'' then
        let p1 = advance 1 p
        in if \<not> digit_next p1 then p_err p1 ''digit expected after decimal point''
           else number_exp start True (skip_digits p1)
      else number_exp start False p)"

definition parse_number :: "parser \<Rightarrow> json parsed" where
  "parse_number p =
     (let start = ps_i p;
          p1 = (if peek p = Some CHR ''-'' then advance 1 p else p)
      in case peek p1 of
           None \<Rightarrow> p_err p1 ''invalid number''
         | Some c \<Rightarrow>
             if c = CHR ''0'' then number_frac start (advance 1 p1)
             else if is_ascii_digit c then number_frac start (skip_digits p1)
             else p_err p1 ''invalid number'')"

definition hex_value :: "char \<Rightarrow> u32 option" where
  "hex_value d =
     (if 0x30 \<le> ord d \<and> ord d \<le> 0x39 then Some (of_nat (ord d - 0x30))
      else if 0x61 \<le> ord d \<and> ord d \<le> 0x66 then Some (of_nat (ord d - 0x61 + 10))
      else if 0x41 \<le> ord d \<and> ord d \<le> 0x46 then Some (of_nat (ord d - 0x41 + 10))
      else None)"

fun hex4_loop :: "nat \<Rightarrow> u32 \<Rightarrow> parser \<Rightarrow> u32 parsed" where
  "hex4_loop 0 v p = p_ok v p"
| "hex4_loop (Suc k) v p =
     (case peek p of
        None \<Rightarrow> None
      | Some d \<Rightarrow>
          (case hex_value d of
             None \<Rightarrow> p_err p (''invalid hex digit in '' @ [CHR 0x5C] @ ''u escape'')
           | Some n \<Rightarrow> hex4_loop k (push_bit 4 v OR n) (advance 1 p)))"

definition parse_hex4 :: "parser \<Rightarrow> u32 parsed" where
  "parse_hex4 p =
     (if ps_i p + 4 > length (ps_b p) then p_err p (''truncated '' @ [CHR 0x5C] @ ''u escape'')
      else hex4_loop 4 0 p)"

text \<open>\<open>char::from_u32\<close> and the bytes \<open>String::push\<close> appends for a character.\<close>

definition char_from_u32 :: "u32 \<Rightarrow> nat option" where
  "char_from_u32 v =
     (if unat v > 0x10FFFF \<or> 0xD800 \<le> unat v \<and> unat v \<le> 0xDFFF then None else Some (unat v))"

definition encode_utf8 :: "nat \<Rightarrow> string" where
  "encode_utf8 c =
     map char_of
       (if c < 0x80 then [c]
        else if c < 0x800 then [0xC0 + c div 64, 0x80 + c mod 64]
        else if c < 0x10000 then [0xE0 + c div 4096, 0x80 + c div 64 mod 64, 0x80 + c mod 64]
        else [0xF0 + c div 262144, 0x80 + c div 4096 mod 64, 0x80 + c div 64 mod 64, 0x80 + c mod 64])"

text \<open>The escape after a backslash: what it appends. \<open>parse_unicode\<close> is its branch for a code unit in hexadecimal.\<close>

definition parse_unicode :: "parser \<Rightarrow> string parsed" where
  "parse_unicode p =
     p_then (parse_hex4 p) (\<lambda>cp p1.
       if 0xD800 \<le> unat cp \<and> unat cp \<le> 0xDBFF then
         if peek p1 \<noteq> Some CHR 0x5C then p_err p1 ''lone high surrogate''
         else
           let p2 = advance 1 p1
           in if peek p2 \<noteq> Some CHR ''u'' then p_err p2 ''lone high surrogate''
              else
                p_then (parse_hex4 (advance 1 p2)) (\<lambda>lo p3.
                  if \<not> (0xDC00 \<le> unat lo \<and> unat lo \<le> 0xDFFF) then p_err p3 ''invalid low surrogate''
                  else
                    case char_from_u32 (0x10000 + push_bit 10 (cp - 0xD800) + (lo - 0xDC00)) of
                      Some ch \<Rightarrow> p_ok (encode_utf8 ch) p3
                    | None \<Rightarrow> p_err p3 ''invalid surrogate pair'')
       else if 0xDC00 \<le> unat cp \<and> unat cp \<le> 0xDFFF then p_err p1 ''lone low surrogate''
       else
         case char_from_u32 cp of
           Some ch \<Rightarrow> p_ok (encode_utf8 ch) p1
         | None \<Rightarrow> p_err p1 ''invalid unicode escape'')"

definition parse_escape :: "parser \<Rightarrow> string parsed" where
  "parse_escape p =
     (case peek p of
        None \<Rightarrow> p_err p ''unterminated escape''
      | Some e \<Rightarrow>
          let p1 = advance 1 p
          in if e = CHR 0x22 then p_ok [CHR 0x22] p1
             else if e = CHR 0x5C then p_ok [CHR 0x5C] p1
             else if e = CHR ''/'' then p_ok ''/'' p1
             else if e = CHR ''b'' then p_ok [CHR 0x08] p1
             else if e = CHR ''f'' then p_ok [CHR 0x0C] p1
             else if e = CHR ''n'' then p_ok [CHR 0x0A] p1
             else if e = CHR ''r'' then p_ok [CHR 0x0D] p1
             else if e = CHR ''t'' then p_ok [CHR 0x09] p1
             else if e = CHR ''u'' then parse_unicode p1
             else p_err p1 ''invalid escape'')"

definition utf8_len :: "char \<Rightarrow> nat" where
  "utf8_len b =
     (if ord b < 0x80 then 1
      else if ord b div 2 ^ 5 = 6 then 2
      else if ord b div 2 ^ 4 = 14 then 3
      else if ord b div 2 ^ 3 = 30 then 4
      else 1)"

text \<open>What a step promises: it does not panic, and when it succeeds its value and the parser after it satisfy a predicate.\<close>

definition yields :: "('a \<Rightarrow> parser \<Rightarrow> bool) \<Rightarrow> 'a parsed \<Rightarrow> bool" where
  "yields Q m = (case m of None \<Rightarrow> False | Some (Inl _) \<Rightarrow> True | Some (Inr (a, q)) \<Rightarrow> Q a q)"

text \<open>The parser has gone on in the same input, at the same depth.\<close>

definition after :: "parser \<Rightarrow> parser \<Rightarrow> bool" where
  "after p q \<longleftrightarrow> ps_b q = ps_b p \<and> ps_depth q = ps_depth p \<and> ps_i p \<le> ps_i q \<and> ps_i q \<le> length (ps_b p)"

lemma yields_simps [simp]:
  "yields Q (p_ok a p) = Q a p" "yields Q (p_err p msg)" "p_then (p_ok a p) f = f a p" "p_then (p_err p msg) f = p_err p msg"
  by (simp_all add: yields_def p_ok_def p_err_def p_then_def)

lemma yields_then: "yields Q m \<Longrightarrow> (\<And>a q. Q a q \<Longrightarrow> yields R (f a q)) \<Longrightarrow> yields R (p_then m f)"
  by (cases m) (auto simp: yields_def [of Q] p_then_def split: sum.splits, simp add: yields_def)

lemma yields_mono: "yields Q m \<Longrightarrow> (\<And>a q. Q a q \<Longrightarrow> R a q) \<Longrightarrow> yields R m"
  by (auto simp: yields_def split: option.splits sum.splits)

lemma yieldsD: "yields Q (Some (Inr (a, q))) \<Longrightarrow> Q a q" "yields Q m \<Longrightarrow> m \<noteq> None"
  by (auto simp: yields_def split: option.splits)

lemma mod_64_le: "(c :: nat) mod 64 \<le> 63"
  using mod_less_divisor [of 64 c] by linarith

lemma advance_sel [simp]:
  "ps_b (advance n p) = ps_b p" "ps_i (advance n p) = ps_i p + n" "ps_depth (advance n p) = ps_depth p"
  "advance m (advance n p) = advance (n + m) p" "advance 0 p = p"
  by (simp_all add: advance_def)

lemma peek_Some: "peek p = Some c \<longleftrightarrow> ps_i p < length (ps_b p) \<and> ps_b p ! ps_i p = c"
  by (auto simp: peek_def)

lemma after_peek: "peek p = Some c \<Longrightarrow> after p (advance 1 p)"
  by (simp add: after_def peek_Some)

lemma after_trans: "after p q \<Longrightarrow> after q r \<Longrightarrow> after p r"
  by (simp add: after_def)

lemma skip_while_after: "ps_i p \<le> length (ps_b p) \<Longrightarrow> after p (skip_while f p)"
proof (induction f p rule: skip_while.induct)
  case (1 f p)
  show ?case
  proof (cases "\<exists>c. peek p = Some c \<and> f c")
    case True
    then obtain c where c: "peek p = Some c" "f c" by blast
    then have "after (advance 1 p) (skip_while f (advance 1 p))" using 1(1) by (simp add: peek_Some)
    then show ?thesis using after_trans [OF after_peek [OF c(1)]] c by (subst skip_while.simps) simp
  next
    case False
    then show ?thesis using 1(2) by (subst skip_while.simps) (auto simp: after_def split: option.splits)
  qed
qed

lemmas skip_after = skip_while_after [of _ is_json_ws, folded skip_ws_def] skip_while_after [of _ is_ascii_digit, folded skip_digits_def]

lemma hex4_loop_yields:
  "ps_i p + k \<le> length (ps_b p) \<Longrightarrow> yields (\<lambda>v q. q = advance k p) (hex4_loop k v p)"
proof (induction k arbitrary: v p)
  case (Suc k)
  then obtain d where "peek p = Some d" by (simp add: peek_def)
  then show ?case using Suc.prems Suc.IH [of "advance 1 p"] by (cases "hex_value d") simp_all
qed simp

lemma parse_hex4_yields: "yields (\<lambda>v q. q = advance 4 p \<and> after p q) (parse_hex4 p)"
  using hex4_loop_yields [of p 4 0] by (auto simp: parse_hex4_def after_def elim!: yields_mono)

lemma ord_char_of_small: "n < 256 \<Longrightarrow> ord (char_of n) = (n :: nat)"
  by simp

lemma encode_utf8_ok:
  assumes "char_from_u32 v = Some c"
  shows "utf8_ok (encode_utf8 c)"
proof -
  have c: "c \<le> 0x10FFFF" "\<not> (0xD800 \<le> c \<and> c \<le> 0xDFFF)" using assms by (auto simp: char_from_u32_def split: if_splits)
  have m: "c mod 64 < 64" "c div 64 mod 64 < 64" "c div 4096 mod 64 < 64" by simp_all
  consider "c < 0x80" | "0x80 \<le> c" "c < 0x800" | "0x800 \<le> c" "c < 0x10000" | "0x10000 \<le> c" by linarith
  then show ?thesis
  proof cases
    case 1
    then show ?thesis by (simp add: encode_utf8_def utf8_ok_def)
  next
    case 2
    then have "2 \<le> c div 64" "c div 64 < 32" by (simp_all add: div_less_iff_less_mult less_eq_div_iff_mult_less_eq)
    then show ?thesis using 2 m by (simp add: encode_utf8_def utf8_ok_def is_cont_def mod_64_le)
  next
    case 3
    then have d: "c div 4096 < 16" by (simp add: div_less_iff_less_mult)
    have e: "c div 64 = c div 4096 * 64 + c div 64 mod 64" using div_mult2_eq [of c 64 64] by simp
    have f: "32 \<le> c div 64" using 3 by (simp add: less_eq_div_iff_mult_less_eq)
    have s: "c div 4096 = 13 \<longrightarrow> c div 64 mod 64 < 32"
    proof
      assume "c div 4096 = 13"
      then have "c = 4096 * 13 + c mod 4096" "c mod 4096 < 4096" using mult_div_mod_eq [of 4096 c] by simp_all
      then have "c < 0xD800" using c by linarith
      then have "c div 64 < 864" by (simp add: div_less_iff_less_mult)
      then show "c div 64 mod 64 < 32" using e \<open>c div 4096 = 13\<close> by linarith
    qed
    show ?thesis using 3 d e f s m by (auto simp: encode_utf8_def utf8_ok_def is_cont_def mod_64_le)
  next
    case 4
    then have d: "c div 262144 < 5" using c by (simp add: div_less_iff_less_mult)
    have e: "c div 4096 = c div 262144 * 64 + c div 4096 mod 64" using div_mult2_eq [of c 4096 64] by simp
    have f: "16 \<le> c div 4096" "c div 4096 < 272" using 4 c by (simp_all add: less_eq_div_iff_mult_less_eq div_less_iff_less_mult)
    show ?thesis using 4 d e f m by (auto simp: encode_utf8_def utf8_ok_def is_cont_def mod_64_le)
  qed
qed

lemma parse_unicode_yields: "yields (\<lambda>s q. after p q \<and> utf8_ok s) (parse_unicode p)"
  unfolding parse_unicode_def
proof (rule yields_then [OF parse_hex4_yields])
  fix cp q
  assume q: "q = advance 4 p \<and> after p q"
  have low: "yields (\<lambda>s r. after p r \<and> utf8_ok s)
      (p_then (parse_hex4 (advance 1 (advance 1 q))) (\<lambda>lo p3.
         if \<not> (0xDC00 \<le> unat lo \<and> unat lo \<le> 0xDFFF) then p_err p3 ''invalid low surrogate''
         else case char_from_u32 (0x10000 + push_bit 10 (cp - 0xD800) + (lo - 0xDC00)) of
                Some ch \<Rightarrow> p_ok (encode_utf8 ch) p3 | None \<Rightarrow> p_err p3 ''invalid surrogate pair''))"
  proof (rule yields_then [OF parse_hex4_yields])
    fix lo r
    assume "r = advance 4 (advance 1 (advance 1 q)) \<and> after (advance 1 (advance 1 q)) r"
    then have "after p r" using q by (auto simp: after_def)
    then show "yields (\<lambda>s r. after p r \<and> utf8_ok s)
        (if \<not> (0xDC00 \<le> unat lo \<and> unat lo \<le> 0xDFFF) then p_err r ''invalid low surrogate''
         else case char_from_u32 (0x10000 + push_bit 10 (cp - 0xD800) + (lo - 0xDC00)) of
                Some ch \<Rightarrow> p_ok (encode_utf8 ch) r | None \<Rightarrow> p_err r ''invalid surrogate pair'')"
      using encode_utf8_ok by (auto split: option.split)
  qed
  show "yields (\<lambda>s q. after p q \<and> utf8_ok s)
      (if 0xD800 \<le> unat cp \<and> unat cp \<le> 0xDBFF then
         if peek q \<noteq> Some CHR 0x5C then p_err q ''lone high surrogate''
         else let p2 = advance 1 q
              in if peek p2 \<noteq> Some CHR ''u'' then p_err p2 ''lone high surrogate''
                 else p_then (parse_hex4 (advance 1 p2)) (\<lambda>lo p3.
                        if \<not> (0xDC00 \<le> unat lo \<and> unat lo \<le> 0xDFFF) then p_err p3 ''invalid low surrogate''
                        else case char_from_u32 (0x10000 + push_bit 10 (cp - 0xD800) + (lo - 0xDC00)) of
                               Some ch \<Rightarrow> p_ok (encode_utf8 ch) p3 | None \<Rightarrow> p_err p3 ''invalid surrogate pair'')
       else if 0xDC00 \<le> unat cp \<and> unat cp \<le> 0xDFFF then p_err q ''lone low surrogate''
       else case char_from_u32 cp of Some ch \<Rightarrow> p_ok (encode_utf8 ch) q | None \<Rightarrow> p_err q ''invalid unicode escape'')"
    using low q encode_utf8_ok by (auto simp: Let_def split: option.split)
qed

lemma parse_escape_yields: "yields (\<lambda>s q. after p q \<and> ps_i p < ps_i q \<and> utf8_ok s) (parse_escape p)"
proof (cases "peek p")
  case (Some e)
  have "yields (\<lambda>s q. after p q \<and> ps_i p < ps_i q \<and> utf8_ok s) (parse_unicode (advance 1 p))"
    by (rule yields_mono [OF parse_unicode_yields]) (auto simp: after_def)
  then show ?thesis using after_peek [OF Some] by (auto simp: parse_escape_def Some Let_def utf8_ascii)
qed (simp add: parse_escape_def)

function string_loop :: "parser \<Rightarrow> string \<Rightarrow> string parsed" where
  "string_loop p out =
     (case peek p of
        None \<Rightarrow> p_err p ''unterminated string''
      | Some c \<Rightarrow>
          if c = CHR 0x22 then p_ok out (advance 1 p)
          else if c = CHR 0x5C then
            (case parse_escape (advance 1 p) of
               None \<Rightarrow> None
             | Some (Inl e) \<Rightarrow> Some (Inl e)
             | Some (Inr (s, q)) \<Rightarrow> string_loop q (out @ s))
          else if ord c \<le> 0x1F then p_err p ''unescaped control character''
          else if ps_i p + utf8_len c > length (ps_b p) then p_err p ''truncated utf-8''
          else
            (case slice (ps_b p) (ps_i p) (ps_i p + utf8_len c) of
               None \<Rightarrow> None
             | Some s \<Rightarrow>
                 if \<not> utf8_ok s then p_err p ''invalid utf-8''
                 else string_loop (advance (utf8_len c) p) (out @ s)))"
  by pat_completeness auto

termination
proof (relation "measure (\<lambda>(p, out). length (ps_b p) - ps_i p)", goal_cases)
  case (2 p out c x2 b s q)
  then have "yields (\<lambda>s q. after (advance 1 p) q \<and> ps_i (advance 1 p) < ps_i q \<and> utf8_ok s) (Some (Inr (s, q)))"
    using parse_escape_yields [of "advance 1 p"] by simp
  from yieldsD(1) [OF this] 2(1) show ?case by (auto simp: after_def peek_Some)
next
  case (3 p out c s)
  then show ?case by (auto simp: peek_Some utf8_len_def)
qed simp
declare string_loop.simps [simp del]

definition parse_string :: "parser \<Rightarrow> string parsed" where
  "parse_string p = string_loop (advance 1 p) []"

definition enter :: "parser \<Rightarrow> unit parsed" where
  "enter p =
     (let q = p\<lparr>ps_depth := ps_depth p + 1\<rparr>
      in if ps_depth q > MAX_DEPTH then p_err q ''maximum nesting depth exceeded'' else p_ok () q)"

text \<open>The return from a container: past its closing bracket and one level up.\<close>

definition leave_container :: "json \<Rightarrow> parser \<Rightarrow> json parsed" where
  "leave_container v p = (if ps_depth p = 0 then None else p_ok v (p\<lparr>ps_i := ps_i p + 1, ps_depth := ps_depth p - 1\<rparr>))"

text \<open>The calls the parser makes on itself: for a value, and for the rest of an array or of an object after the items read so far. Each body takes them as an
  argument, and \<open>parse_task\<close> ties the knot with a bound on their nesting.\<close>

datatype task = TValue | TArray "json list" | TObject "(string \<times> json) list"

definition parse_array :: "(task \<Rightarrow> parser \<Rightarrow> json parsed) \<Rightarrow> parser \<Rightarrow> json parsed" where
  "parse_array call p =
     p_then (enter p) (\<lambda>_ p1.
       let p2 = skip_ws (advance 1 p1)
       in if peek p2 = Some CHR '']'' then leave_container (VArray []) p2
          else call (TArray []) p2)"

definition array_loop :: "(task \<Rightarrow> parser \<Rightarrow> json parsed) \<Rightarrow> json list \<Rightarrow> parser \<Rightarrow> json parsed" where
  "array_loop call arr p =
     p_then (call TValue (skip_ws p)) (\<lambda>v p1.
       let p2 = skip_ws p1
       in if peek p2 = Some CHR '','' then call (TArray (arr @ [v])) (advance 1 p2)
          else if peek p2 = Some CHR '']'' then leave_container (VArray (arr @ [v])) p2
          else p_err p2 (''expected '' @ [CHR 0x27] @ '','' @ [CHR 0x27] @ '' or '' @ [CHR 0x27] @ '']'' @ [CHR 0x27] @ '' in array''))"

definition parse_object :: "(task \<Rightarrow> parser \<Rightarrow> json parsed) \<Rightarrow> parser \<Rightarrow> json parsed" where
  "parse_object call p =
     p_then (enter p) (\<lambda>_ p1.
       let p2 = skip_ws (advance 1 p1)
       in if peek p2 = Some CHR ''}'' then leave_container (VObject []) p2
          else call (TObject []) p2)"

definition object_loop :: "(task \<Rightarrow> parser \<Rightarrow> json parsed) \<Rightarrow> (string \<times> json) list \<Rightarrow> parser \<Rightarrow> json parsed" where
  "object_loop call obj p =
     (let p1 = skip_ws p
      in if peek p1 \<noteq> Some CHR 0x22 then p_err p1 ''expected string key in object''
         else
           p_then (parse_string p1) (\<lambda>key p2.
             let p3 = skip_ws p2
             in if peek p3 \<noteq> Some CHR '':'' then p_err p3 (''expected '' @ [CHR 0x27] @ '':'' @ [CHR 0x27] @ '' after key'')
                else
                  p_then (call TValue (skip_ws (advance 1 p3))) (\<lambda>val p4.
                    let p5 = skip_ws p4
                    in if peek p5 = Some CHR '','' then call (TObject (obj @ [(key, val)])) (advance 1 p5)
                       else if peek p5 = Some CHR ''}'' then leave_container (VObject (obj @ [(key, val)])) p5
                       else p_err p5 (''expected '' @ [CHR 0x27] @ '','' @ [CHR 0x27] @ '' or '' @ [CHR 0x27] @ ''}'' @ [CHR 0x27] @ '' in object''))))"

definition parse_value :: "(task \<Rightarrow> parser \<Rightarrow> json parsed) \<Rightarrow> parser \<Rightarrow> json parsed" where
  "parse_value call p =
     (case peek p of
        None \<Rightarrow> p_err p ''unexpected end of input''
      | Some c \<Rightarrow>
          if c = CHR ''{'' then parse_object call p
          else if c = CHR ''['' then parse_array call p
          else if c = CHR 0x22 then p_then (parse_string p) (\<lambda>s q. p_ok (VStr s) q)
          else if c = CHR ''t'' \<or> c = CHR ''f'' then parse_bool p
          else if c = CHR ''n'' then parse_null p
          else if c = CHR ''-'' \<or> is_ascii_digit c then parse_number p
          else p_err p ''unexpected character'')"

fun parse_task :: "nat \<Rightarrow> task \<Rightarrow> parser \<Rightarrow> json parsed" where
  "parse_task 0 t p = None"
| "parse_task (Suc n) t p =
     (case t of
        TValue \<Rightarrow> parse_value (parse_task n) p
      | TArray arr \<Rightarrow> array_loop (parse_task n) arr p
      | TObject obj \<Rightarrow> object_loop (parse_task n) obj p)"

definition value_parse :: "string \<Rightarrow> (json_error + json) option" where
  "value_parse input =
     (let p = skip_ws \<lparr>ps_b = input, ps_i = 0, ps_depth = 0\<rparr>
      in case parse_task (2 * length input + 2) TValue p of
           None \<Rightarrow> None
         | Some (Inl e) \<Rightarrow> Some (Inl e)
         | Some (Inr (v, q)) \<Rightarrow>
             let q = skip_ws q
             in Some (if ps_i q \<noteq> length (ps_b q) then Inl (Json_error (ps_i q) ''trailing bytes after value'') else Inr v))"

section \<open>Serialization\<close>

definition escape_char :: "char \<Rightarrow> string" where
  "escape_char c =
     (if c = CHR 0x22 then [CHR 0x5C, CHR 0x22]
      else if c = CHR 0x5C then [CHR 0x5C, CHR 0x5C]
      else if c = CHR 0x0A then CHR 0x5C # ''n''
      else if c = CHR 0x0D then CHR 0x5C # ''r''
      else if c = CHR 0x09 then CHR 0x5C # ''t''
      else if c = CHR 0x08 then CHR 0x5C # ''b''
      else if c = CHR 0x0C then CHR 0x5C # ''f''
      else if ord c < 0x20 then CHR 0x5C # ''u00'' @ [digit_char (ord c div 16), digit_char (ord c mod 16)]
      else [c])"

definition write_json_string :: "string \<Rightarrow> string" where
  "write_json_string s = [CHR 0x22] @ concat (map escape_char s) @ [CHR 0x22]"

fun value_show :: "json \<Rightarrow> string" where
  "value_show VNull = ''null''"
| "value_show (VBool True) = ''true''"
| "value_show (VBool False) = ''false''"
| "value_show (VInt i) = show_i64 i"
| "value_show (VFloat x) = (if is_finite x then show_f64 x else ''null'')"
| "value_show (VStr s) = write_json_string s"
| "value_show (VArray a) = ''['' @ join_with '','' (map value_show a) @ '']''"
| "value_show (VObject kvs) = ''{'' @ join_with '','' (map (\<lambda>(k, v). write_json_string k @ '':'' @ value_show v) kvs) @ ''}''"

section \<open>Every input is answered\<close>

text \<open>The strings of a value are well-formed UTF-8; the nesting of its containers.\<close>

fun value_ok :: "json \<Rightarrow> bool" where
  "value_ok (VStr s) = utf8_ok s"
| "value_ok (VArray a) = list_all value_ok a"
| "value_ok (VObject kvs) = list_all (\<lambda>(k, v). utf8_ok k \<and> value_ok v) kvs"
| "value_ok _ = True"

fun depth_le :: "nat \<Rightarrow> json \<Rightarrow> bool" where
  "depth_le d (VArray a) = (case d of 0 \<Rightarrow> False | Suc d' \<Rightarrow> list_all (depth_le d') a)"
| "depth_le d (VObject kvs) = (case d of 0 \<Rightarrow> False | Suc d' \<Rightarrow> list_all (\<lambda>(k, v). depth_le d' v) kvs)"
| "depth_le d _ = True"

definition value_fits :: "nat \<Rightarrow> json \<Rightarrow> bool" where
  "value_fits d v \<longleftrightarrow> value_ok v \<and> depth_le d v"

abbreviation "gone_on p q \<equiv> after p q \<and> ps_i p < ps_i q"

lemma string_loop_yields:
  "ps_i p \<le> length (ps_b p) \<Longrightarrow> utf8_ok out \<Longrightarrow> yields (\<lambda>s q. gone_on p q \<and> utf8_ok s) (string_loop p out)"
proof (induction p out rule: string_loop.induct)
  case (1 p out)
  show ?case
  proof (cases "peek p")
    case None
    then show ?thesis by (subst string_loop.simps) simp
  next
    case (Some c)
    consider "c = CHR 0x22" | "c = CHR 0x5C" | "c \<noteq> CHR 0x22" "c \<noteq> CHR 0x5C" "ord c \<le> 0x1F \<or> ps_i p + utf8_len c > length (ps_b p)"
      | "c \<noteq> CHR 0x22" "c \<noteq> CHR 0x5C" "\<not> ord c \<le> 0x1F" "\<not> ps_i p + utf8_len c > length (ps_b p)" by blast
    then show ?thesis
    proof cases
      case 1
      then show ?thesis using Some "1.prems" after_peek [OF Some] by (subst string_loop.simps) simp
    next
      case 2
      consider e where "parse_escape (advance 1 p) = Some (Inl e)" | s q where "parse_escape (advance 1 p) = Some (Inr (s, q))"
        using yieldsD(2) [OF parse_escape_yields [of "advance 1 p"]] by (cases "parse_escape (advance 1 p)") (auto split: sum.splits, metis sum.exhaust surj_pair)
      then show ?thesis
      proof cases
        case 1
        then show ?thesis using Some 2 by (subst string_loop.simps) (simp add: yields_def)
      next
        case (2 s q)
        then have q: "after (advance 1 p) q \<and> ps_i (advance 1 p) < ps_i q \<and> utf8_ok s"
          using yieldsD(1) parse_escape_yields [of "advance 1 p"] by simp
        then have in_q: "ps_i q \<le> length (ps_b q)" "utf8_ok s" by (auto simp: after_def)
        then have "yields (\<lambda>s' q'. gone_on q q' \<and> utf8_ok s') (string_loop q (out @ s))"
          using "1.IH"(1) [OF Some, of "Inr (s, q)" "(s, q)" s q] 2 \<open>c = CHR 0x5C\<close> in_q utf8_append [OF "1.prems"(2)] by simp
        then have "yields (\<lambda>s' q'. gone_on p q' \<and> utf8_ok s') (string_loop q (out @ s))"
          by (rule yields_mono) (use q in \<open>auto simp: after_def\<close>)
        then show ?thesis using Some 2 \<open>c = CHR 0x5C\<close> by (subst string_loop.simps) simp
      qed
    next
      case 3
      then show ?thesis using Some by (subst string_loop.simps) auto
    next
      case 4
      then obtain s where s: "slice (ps_b p) (ps_i p) (ps_i p + utf8_len c) = Some s" by (auto simp: slice_def)
      show ?thesis
      proof (cases "utf8_ok s")
        case True
        have "yields (\<lambda>s' q'. gone_on (advance (utf8_len c) p) q' \<and> utf8_ok s') (string_loop (advance (utf8_len c) p) (out @ s))"
          using "1.IH"(2) [OF Some 4(1,2,3,4) s] True "1.prems" 4 utf8_append by simp
        then have "yields (\<lambda>s' q'. gone_on p q' \<and> utf8_ok s') (string_loop (advance (utf8_len c) p) (out @ s))"
          by (rule yields_mono) (auto simp: after_def)
        then show ?thesis using Some 4 s True by (subst string_loop.simps) simp
      next
        case False
        then show ?thesis using Some 4 s by (subst string_loop.simps) simp
      qed
    qed
  qed
qed

lemma parse_string_yields: "peek p = Some c \<Longrightarrow> yields (\<lambda>s q. gone_on p q \<and> utf8_ok s) (parse_string p)"
  unfolding parse_string_def
  by (rule yields_mono [OF string_loop_yields]) (auto simp: after_def peek_Some utf8_ok_def)

lemma expect_lit_yields:
  assumes "ps_i p \<le> length (ps_b p)" and "lit \<noteq> []" and "value_fits d v"
  shows "yields (\<lambda>v q. gone_on p q \<and> value_fits d v) (expect_lit lit v p)"
proof -
  have "length lit \<le> length (ps_b p) - ps_i p" if "take (length lit) (drop (ps_i p) (ps_b p)) = lit"
    using arg_cong [OF that, of length] by simp
  then show ?thesis using assms by (auto simp: expect_lit_def slice_def after_def)
qed

lemma number_end_yields:
  "start \<le> ps_i p \<Longrightarrow> ps_i p \<le> length (ps_b p) \<Longrightarrow> yields (\<lambda>v q. q = p \<and> value_fits d v) (number_end start fl p)"
  by (auto simp: number_end_def slice_def Let_def value_fits_def split: option.split)

lemma digits_after: "digit_next p \<Longrightarrow> after p (skip_digits p)"
  by (rule skip_after(2)) (auto simp: digit_next_def peek_def split: if_splits)

lemma number_exp_yields:
  assumes "start \<le> ps_i p" and "ps_i p \<le> length (ps_b p)"
  shows "yields (\<lambda>v q. after p q \<and> value_fits d v) (number_exp start fl p)"
proof -
  have finish: "yields (\<lambda>v q. after p q \<and> value_fits d v) (number_end start f q)" if "after p q" for q f
    by (rule yields_mono [OF number_end_yields [of start q d f]]) (use that assms in \<open>auto simp: after_def\<close>)
  have "after p p" using assms by (simp add: after_def)
  moreover have "after p (skip_digits (advance k p))" if "digit_next (advance k p)" for k
    using digits_after [OF that] by (auto simp: after_def)
  ultimately show ?thesis using finish by (auto simp: number_exp_def Let_def)
qed

lemma number_frac_yields:
  assumes "start \<le> ps_i p" and "ps_i p \<le> length (ps_b p)"
  shows "yields (\<lambda>v q. after p q \<and> value_fits d v) (number_frac start p)"
proof -
  have "yields (\<lambda>v q. after p q \<and> value_fits d v) (number_exp start True (skip_digits (advance 1 p)))" if "digit_next (advance 1 p)"
    by (rule yields_mono [OF number_exp_yields]) (use digits_after [OF that] assms in \<open>auto simp: after_def\<close>)
  then show ?thesis using number_exp_yields [OF assms] by (auto simp: number_frac_def Let_def)
qed

lemma parse_number_yields: "peek p = Some c \<Longrightarrow> yields (\<lambda>v q. gone_on p q \<and> value_fits d v) (parse_number p)"
proof -
  assume c: "peek p = Some c"
  define p1 where "p1 = (if peek p = Some CHR ''-'' then advance 1 p else p)"
  have p1: "after p p1" using c after_peek [OF c] by (auto simp: p1_def after_def peek_Some)
  have go: "yields (\<lambda>v q. gone_on p q \<and> value_fits d v) (number_frac (ps_i p) q)" if "after p1 q" "ps_i p1 < ps_i q" for q
    by (rule yields_mono [OF number_frac_yields]) (use that p1 in \<open>auto simp: after_def\<close>)
  have one: "after p1 (advance 1 p1)" if "peek p1 = Some e" for e using after_peek [OF that] .
  have many: "after p1 (skip_digits p1)" "ps_i p1 < ps_i (skip_digits p1)" if "peek p1 = Some e" "is_ascii_digit e" for e
  proof -
    have "skip_digits p1 = skip_digits (advance 1 p1)" using that by (simp add: skip_digits_def skip_while.simps)
    moreover have "after (advance 1 p1) (skip_digits (advance 1 p1))" using that by (intro skip_after) (simp add: peek_Some)
    ultimately show "after p1 (skip_digits p1)" "ps_i p1 < ps_i (skip_digits p1)" by (auto simp: after_def)
  qed
  show ?thesis unfolding parse_number_def Let_def p1_def [symmetric]
    using go one many by (auto split: option.split)
qed

text \<open>What each call needs and what it promises; a container is left one level up.\<close>

definition task_pre :: "task \<Rightarrow> parser \<Rightarrow> bool" where
  "task_pre t p \<longleftrightarrow> ps_i p \<le> length (ps_b p) \<and> ps_depth p \<le> MAX_DEPTH \<and>
     (case t of
        TValue \<Rightarrow> True
      | TArray arr \<Rightarrow> 0 < ps_depth p \<and> list_all (value_fits (MAX_DEPTH - ps_depth p)) arr
      | TObject obj \<Rightarrow> 0 < ps_depth p \<and> list_all (\<lambda>(k, v). utf8_ok k \<and> value_fits (MAX_DEPTH - ps_depth p) v) obj)"

definition task_post :: "task \<Rightarrow> parser \<Rightarrow> json \<Rightarrow> parser \<Rightarrow> bool" where
  "task_post t p v q \<longleftrightarrow> ps_b q = ps_b p \<and> ps_i p < ps_i q \<and> ps_i q \<le> length (ps_b p) \<and>
     ps_depth q = ps_depth p - (if t = TValue then 0 else 1) \<and> value_fits (MAX_DEPTH - ps_depth q) v"

definition task_size :: "task \<Rightarrow> parser \<Rightarrow> nat" where
  "task_size t p = 2 * (length (ps_b p) - ps_i p) + (if t = TValue then 0 else 1)"

lemma value_post: "task_post TValue p v q \<longleftrightarrow> gone_on p q \<and> value_fits (MAX_DEPTH - ps_depth p) v"
  by (auto simp: task_post_def after_def)

lemma fits_containers:
  "list_all (value_fits d) arr \<Longrightarrow> value_fits (Suc d) (VArray arr)"
  "list_all (\<lambda>(k, v). utf8_ok k \<and> value_fits d v) obj \<Longrightarrow> value_fits (Suc d) (VObject obj)"
  by (auto simp: value_fits_def list_all_iff)

lemma leave_container_yields:
  assumes "task_pre t p" and "peek p = Some c" and "t \<noteq> TValue"
    and "v = (case t of TArray arr \<Rightarrow> VArray arr | TObject obj \<Rightarrow> VObject obj | TValue \<Rightarrow> VNull)"
  shows "yields (task_post t p) (leave_container v p)"
proof -
  have "MAX_DEPTH - (ps_depth p - 1) = Suc (MAX_DEPTH - ps_depth p)" "0 < ps_depth p"
    using assms(1,3) by (auto simp: task_pre_def split: task.splits)
  then have "value_fits (MAX_DEPTH - (ps_depth p - 1)) v"
    using assms(1,3,4) fits_containers by (auto simp: task_pre_def split: task.splits)
  then show ?thesis using assms(2,3) \<open>0 < ps_depth p\<close> by (simp add: leave_container_def task_post_def peek_Some)
qed

lemma post_trans: "after p q \<Longrightarrow> t \<noteq> TValue \<Longrightarrow> t' \<noteq> TValue \<Longrightarrow> task_post t' q v r \<Longrightarrow> task_post t p v r"
  by (auto simp: task_post_def after_def)

text \<open>The end of an item: the container goes on after a comma or is left at its bracket.\<close>

lemma item_end_yields:
  assumes call: "\<And>t q. task_pre t q \<Longrightarrow> task_size t q < task_size u p \<Longrightarrow> yields (task_post t q) (call t q)"
    and pre: "task_pre t r" and r: "gone_on p r" and t: "t \<noteq> TValue" "u \<noteq> TValue"
    and v: "v = (case t of TArray arr \<Rightarrow> VArray arr | TObject obj \<Rightarrow> VObject obj | TValue \<Rightarrow> VNull)"
  shows "yields (task_post u p)
      (if peek r = Some CHR '','' then call t (advance 1 r) else if peek r = Some c then leave_container v r else p_err r msg)"
proof -
  have "yields (task_post u p) (call t (advance 1 r))" if "peek r = Some c" for c
  proof (rule yields_mono)
    show "yields (task_post t (advance 1 r)) (call t (advance 1 r))"
      using that pre r t by (intro call) (auto simp: task_pre_def task_size_def peek_Some after_def split: task.splits)
  qed (use r that t in \<open>auto simp: task_post_def after_def\<close>)
  moreover have "yields (task_post u p) (leave_container v r)" if "peek r = Some c" for c
    by (rule yields_mono [OF leave_container_yields [OF pre that t(1) v]]) (use post_trans [OF conjunct1 [OF r] t(2,1)] in blast)
  ultimately show ?thesis by simp
qed

lemma array_loop_yields:
  assumes call: "\<And>t q. task_pre t q \<Longrightarrow> task_size t q < task_size (TArray arr) p \<Longrightarrow> yields (task_post t q) (call t q)"
    and pre: "task_pre (TArray arr) p"
  shows "yields (task_post (TArray arr) p) (array_loop call arr p)"
proof -
  have skip: "after p (skip_ws p)" using pre by (intro skip_after) (simp add: task_pre_def)
  have first: "yields (task_post TValue (skip_ws p)) (call TValue (skip_ws p))"
    using pre skip by (intro call) (auto simp: task_pre_def task_size_def after_def)
  show ?thesis unfolding array_loop_def Let_def
  proof (rule yields_then [OF first])
    fix v q
    assume post: "task_post TValue (skip_ws p) v q"
    have "after q (skip_ws q)" using post by (intro skip_after) (auto simp: task_post_def)
    then have r: "gone_on p (skip_ws q)" "value_fits (MAX_DEPTH - ps_depth (skip_ws q)) v" using post skip by (auto simp: value_post after_def)
    then have "task_pre (TArray (arr @ [v])) (skip_ws q)" using pre by (auto simp: task_pre_def after_def)
    from item_end_yields [OF call this r(1), of "TArray arr"]
    show "yields (task_post (TArray arr) p)
        (if peek (skip_ws q) = Some CHR '','' then call (TArray (arr @ [v])) (advance 1 (skip_ws q))
         else if peek (skip_ws q) = Some CHR '']'' then leave_container (VArray (arr @ [v])) (skip_ws q)
         else p_err (skip_ws q) (''expected '' @ [CHR 0x27] @ '','' @ [CHR 0x27] @ '' or '' @ [CHR 0x27] @ '']'' @ [CHR 0x27] @ '' in array''))"
      by simp
  qed
qed

lemma object_loop_yields:
  assumes call: "\<And>t q. task_pre t q \<Longrightarrow> task_size t q < task_size (TObject obj) p \<Longrightarrow> yields (task_post t q) (call t q)"
    and pre: "task_pre (TObject obj) p"
  shows "yields (task_post (TObject obj) p) (object_loop call obj p)"
proof (cases "peek (skip_ws p) = Some CHR 0x22")
  case True
  have skip: "after p (skip_ws p)" using pre by (intro skip_after) (simp add: task_pre_def)
  have item: "yields (task_post (TObject obj) p)
      (p_then (call TValue s) (\<lambda>val p4.
         if peek (skip_ws p4) = Some CHR '','' then call (TObject (obj @ [(key, val)])) (advance 1 (skip_ws p4))
         else if peek (skip_ws p4) = Some CHR ''}'' then leave_container (VObject (obj @ [(key, val)])) (skip_ws p4)
         else p_err (skip_ws p4) (''expected '' @ [CHR 0x27] @ '','' @ [CHR 0x27] @ '' or '' @ [CHR 0x27] @ ''}'' @ [CHR 0x27] @ '' in object'')))"
    if s: "gone_on p s" "utf8_ok key" for s key
  proof (rule yields_then)
    show "yields (task_post TValue s) (call TValue s)" using pre s by (intro call) (auto simp: task_pre_def task_size_def after_def)
    fix v q
    assume post: "task_post TValue s v q"
    have "after q (skip_ws q)" using post by (intro skip_after) (auto simp: task_post_def)
    then have r: "gone_on p (skip_ws q)" "value_fits (MAX_DEPTH - ps_depth (skip_ws q)) v" using post s by (auto simp: value_post after_def)
    then have "task_pre (TObject (obj @ [(key, v)])) (skip_ws q)" using pre s by (auto simp: task_pre_def after_def)
    from item_end_yields [OF call this r(1), of "TObject obj"]
    show "yields (task_post (TObject obj) p)
        (if peek (skip_ws q) = Some CHR '','' then call (TObject (obj @ [(key, v)])) (advance 1 (skip_ws q))
         else if peek (skip_ws q) = Some CHR ''}'' then leave_container (VObject (obj @ [(key, v)])) (skip_ws q)
         else p_err (skip_ws q) (''expected '' @ [CHR 0x27] @ '','' @ [CHR 0x27] @ '' or '' @ [CHR 0x27] @ ''}'' @ [CHR 0x27] @ '' in object''))"
      by simp
  qed
  have value_at: "gone_on p (skip_ws (advance 1 (skip_ws q)))" if "gone_on (skip_ws p) q" "peek (skip_ws q) = Some c" for q c
  proof -
    have "after q (skip_ws q)" using that by (intro skip_after) (auto simp: after_def)
    moreover have "after (advance 1 (skip_ws q)) (skip_ws (advance 1 (skip_ws q)))" using that(2) by (intro skip_after) (simp add: peek_Some)
    ultimately show ?thesis using that skip by (auto simp: after_def)
  qed
  show ?thesis unfolding object_loop_def Let_def
    by (simp add: True, rule yields_then [OF parse_string_yields [OF True]]) (use item value_at in auto)
qed (simp add: object_loop_def Let_def)

lemma enter_yields: "yields (\<lambda>_ q. q = p\<lparr>ps_depth := ps_depth p + 1\<rparr> \<and> ps_depth p < MAX_DEPTH) (enter p)"
  by (simp add: enter_def Let_def)

lemma container_yields:
  assumes call: "\<And>t q. task_pre t q \<Longrightarrow> task_size t q < task_size TValue p \<Longrightarrow> yields (task_post t q) (call t q)"
    and pre: "task_pre TValue p" and c: "peek p = Some c" and t: "t = TArray [] \<and> v = VArray [] \<or> t = TObject [] \<and> v = VObject []"
  shows "yields (task_post TValue p)
      (p_then (enter p) (\<lambda>_ p1.
         if peek (skip_ws (advance 1 p1)) = Some close then leave_container v (skip_ws (advance 1 p1)) else call t (skip_ws (advance 1 p1))))"
proof (rule yields_then [OF enter_yields])
  fix u q
  assume q: "q = p\<lparr>ps_depth := ps_depth p + 1\<rparr> \<and> ps_depth p < MAX_DEPTH"
  define r where "r = skip_ws (advance 1 q)"
  have "after (advance 1 q) r" unfolding r_def using q c by (intro skip_after) (auto simp: peek_Some)
  then have r: "ps_b r = ps_b p" "ps_depth r = ps_depth p + 1" "ps_i p < ps_i r" "ps_i r \<le> length (ps_b p)" using q by (auto simp: after_def)
  then have pre': "task_pre t r" using t q by (auto simp: task_pre_def)
  have up: "task_post t r w s \<Longrightarrow> task_post TValue p w s" for w s using r t by (auto simp: task_post_def)
  have "task_size t r < task_size TValue p" using r t by (auto simp: task_size_def)
  then have "yields (task_post TValue p) (call t r)" using call [OF pre'] yields_mono up by blast
  moreover have "yields (task_post TValue p) (leave_container v r)" if "peek r = Some d" for d
    by (rule yields_mono [OF leave_container_yields [OF pre' that]]) (use t up in auto)
  ultimately show "yields (task_post TValue p)
      (if peek (skip_ws (advance 1 q)) = Some close then leave_container v (skip_ws (advance 1 q)) else call t (skip_ws (advance 1 q)))"
    unfolding r_def [symmetric] by simp
qed

lemma parse_value_yields:
  assumes call: "\<And>t q. task_pre t q \<Longrightarrow> task_size t q < task_size TValue p \<Longrightarrow> yields (task_post t q) (call t q)"
    and pre: "task_pre TValue p"
  shows "yields (task_post TValue p) (parse_value call p)"
proof (cases "peek p")
  case None
  then show ?thesis by (simp add: parse_value_def)
next
  case (Some c)
  have p: "ps_i p \<le> length (ps_b p)" using pre by (simp add: task_pre_def)
  have arr: "yields (task_post TValue p) (parse_array call p)" "yields (task_post TValue p) (parse_object call p)"
    unfolding parse_array_def parse_object_def Let_def by (rule container_yields [OF call pre Some]; simp)+
  have str: "yields (task_post TValue p) (p_then (parse_string p) (\<lambda>s q. p_ok (VStr s) q))"
    by (rule yields_then [OF parse_string_yields [OF Some]]) (simp add: value_post value_fits_def)
  have lit: "yields (task_post TValue p) (expect_lit lit v p)" if "lit \<noteq> []" "\<And>d. value_fits d v" for lit v
    by (rule yields_mono [OF expect_lit_yields [OF p that(1) that(2)]]) (simp add: value_post)
  have num: "yields (task_post TValue p) (parse_number p)"
    by (rule yields_mono [OF parse_number_yields [OF Some]]) (simp add: value_post)
  show ?thesis using arr str lit num
    by (simp add: parse_value_def Some parse_null_def parse_bool_def value_fits_def)
qed

lemma parse_task_yields: "task_pre t p \<Longrightarrow> task_size t p < n \<Longrightarrow> yields (task_post t p) (parse_task n t p)"
proof (induction n arbitrary: t p)
  case (Suc n)
  have call: "yields (task_post u q) (parse_task n u q)" if "task_pre u q" "task_size u q < task_size t p" for u q
    using Suc.IH [OF that(1)] that(2) Suc.prems(2) by simp
  show ?case
  proof (cases t)
    case TValue
    then show ?thesis using parse_value_yields [of p "parse_task n"] call Suc.prems(1) by simp
  next
    case (TArray arr)
    then show ?thesis using array_loop_yields [of arr p "parse_task n"] call Suc.prems(1) by simp
  next
    case (TObject obj)
    then show ?thesis using object_loop_yields [of obj p "parse_task n"] call Suc.prems(1) by simp
  qed
qed simp

text \<open>C16. The parser answers every byte string: it never panics and never runs out of the nesting the model allows its calls, it gives an error or a value, and a
  value it gives has well-formed UTF-8 in every string and key and is nested at most 128 deep.\<close>

theorem json_parse_total:
  "case value_parse input of
     None \<Rightarrow> False
   | Some (Inl e) \<Rightarrow> True
   | Some (Inr v) \<Rightarrow> value_ok v \<and> depth_le MAX_DEPTH v"
proof -
  define p where "p = skip_ws \<lparr>ps_b = input, ps_i = 0, ps_depth = 0\<rparr>"
  have p: "after \<lparr>ps_b = input, ps_i = 0, ps_depth = 0\<rparr> p" unfolding p_def by (rule skip_after) simp
  have "yields (task_post TValue p) (parse_task (2 * length input + 2) TValue p)"
    by (rule parse_task_yields) (use p in \<open>auto simp: task_pre_def task_size_def after_def\<close>)
  then consider e where "parse_task (2 * length input + 2) TValue p = Some (Inl e)"
    | v q where "parse_task (2 * length input + 2) TValue p = Some (Inr (v, q))" "value_fits MAX_DEPTH v"
    using p by (auto simp: yields_def task_post_def after_def split: option.splits sum.splits)
  then show ?thesis by cases (auto simp: value_parse_def p_def [symmetric] value_fits_def Let_def)
qed

end
