(* ===== verification/Parley_Json_Text.thy ===== *)
theory Parley_Json_Text
  imports Parley_Json
begin

unbundle bit_operations_syntax

text \<open>What the serializer of \<open>Parley_Json\<close> prints, its parser reads back: the strings with their escapes, the numbers, and the values by induction. A parser is described by the input
  it faces (\<open>facing\<close>), and an answer is given for some bound on the calls (\<open>reads\<close>), which every larger bound keeps.\<close>

section \<open>What is printed is read back\<close>

text \<open>More nesting allowed never changes an answer.\<close>

definition extends :: "'a parsed \<Rightarrow> 'a parsed \<Rightarrow> bool" where
  "extends m m' \<longleftrightarrow> m = None \<or> m' = m"

lemma extends_refl [simp]: "extends m m"
  by (simp add: extends_def)

lemma extends_then: "extends m m' \<Longrightarrow> (\<And>a q. extends (f a q) (f' a q)) \<Longrightarrow> extends (p_then m f) (p_then m' f')"
  by (cases m) (auto simp: extends_def p_then_def split: sum.splits)

lemma bodies_extend:
  assumes "\<And>t q. extends (call t q) (call' t q)"
  shows "extends (parse_value call p) (parse_value call' p)" and "extends (array_loop call arr p) (array_loop call' arr p)"
    and "extends (object_loop call obj p) (object_loop call' obj p)"
proof -
  have "extends (parse_array call p) (parse_array call' p)" "extends (parse_object call p) (parse_object call' p)"
    unfolding parse_array_def parse_object_def Let_def by (rule extends_then; simp add: assms)+
  then show "extends (parse_value call p) (parse_value call' p)" by (simp add: parse_value_def split: option.split)
  show "extends (array_loop call arr p) (array_loop call' arr p)"
    unfolding array_loop_def Let_def by (rule extends_then) (simp_all add: assms)
  have "extends (p_then (call TValue s) (\<lambda>val p4. f (call (TObject (obj @ [(key, val)])) (advance 1 (skip_ws p4))) val p4))
      (p_then (call' TValue s) (\<lambda>val p4. f (call' (TObject (obj @ [(key, val)])) (advance 1 (skip_ws p4))) val p4))"
    if "\<And>a b val p4. extends a b \<Longrightarrow> extends (f a val p4) (f b val p4)" for s key f
    by (rule extends_then) (simp_all add: assms that)
  from this [of "\<lambda>a val p4. if peek (skip_ws p4) = Some CHR '','' then a
      else if peek (skip_ws p4) = Some CHR ''}'' then leave_container (VObject (obj @ [(_, val)])) (skip_ws p4) else p_err (skip_ws p4) _"]
  show "extends (object_loop call obj p) (object_loop call' obj p)"
    unfolding object_loop_def Let_def by (auto intro!: extends_then simp: assms)
qed

lemma parse_task_mono: "n \<le> m \<Longrightarrow> extends (parse_task n t p) (parse_task m t p)"
proof (induction n arbitrary: m t p)
  case (Suc n)
  then obtain k where m: "m = Suc k" "n \<le> k" by (cases m) auto
  show ?case using Suc.IH [OF m(2)] bodies_extend [of "parse_task n" "parse_task k"] by (cases t) (simp_all add: m(1))
qed (simp add: extends_def)

text \<open>Some nesting is enough for a call to give this answer.\<close>

definition reads :: "task \<Rightarrow> parser \<Rightarrow> json \<Rightarrow> parser \<Rightarrow> bool" where
  "reads t p v q \<longleftrightarrow> (\<exists>n. parse_task n t p = p_ok v q)"

lemma reads_at: "parse_task n t p = p_ok v q \<Longrightarrow> n \<le> m \<Longrightarrow> parse_task m t p = p_ok v q"
  using parse_task_mono [of n m t p] by (auto simp: extends_def p_ok_def)

lemma reads_value: "(\<And>call. parse_value call p = p_ok v q) \<Longrightarrow> reads TValue p v q"
  unfolding reads_def by (intro exI [of _ "Suc 0"]) simp

lemma reads_item:
  assumes "reads TValue (skip_ws p) v q"
  shows "peek (skip_ws q) = Some CHR '','' \<Longrightarrow> reads (TArray (arr @ [v])) (advance 1 (skip_ws q)) w r \<Longrightarrow> reads (TArray arr) p w r"
    and "peek (skip_ws q) = Some CHR '']'' \<Longrightarrow> leave_container (VArray (arr @ [v])) (skip_ws q) = p_ok w r \<Longrightarrow> reads (TArray arr) p w r"
proof -
  obtain n where n: "parse_task n TValue (skip_ws p) = p_ok v q" using assms by (auto simp: reads_def)
  show "reads (TArray arr) p w r" if a: "peek (skip_ws q) = Some CHR '',''" and b: "reads (TArray (arr @ [v])) (advance 1 (skip_ws q)) w r"
  proof -
    obtain m where m: "parse_task m (TArray (arr @ [v])) (advance 1 (skip_ws q)) = p_ok w r" using b by (auto simp: reads_def)
    show ?thesis unfolding reads_def
      using reads_at [OF n, of "max n m"] reads_at [OF m, of "max n m"] a
      by (intro exI [of _ "Suc (max n m)"]) (simp add: array_loop_def Let_def)
  qed
  show "reads (TArray arr) p w r" if "peek (skip_ws q) = Some CHR '']''" "leave_container (VArray (arr @ [v])) (skip_ws q) = p_ok w r"
    unfolding reads_def using n that by (intro exI [of _ "Suc n"]) (simp add: array_loop_def Let_def)
qed

lemma reads_member:
  assumes "peek (skip_ws p) = Some CHR 0x22" and "parse_string (skip_ws p) = p_ok key s" and "peek (skip_ws s) = Some CHR '':''"
    and "reads TValue (skip_ws (advance 1 (skip_ws s))) v q"
  shows "peek (skip_ws q) = Some CHR '','' \<Longrightarrow> reads (TObject (obj @ [(key, v)])) (advance 1 (skip_ws q)) w r \<Longrightarrow> reads (TObject obj) p w r"
    and "peek (skip_ws q) = Some CHR ''}'' \<Longrightarrow> leave_container (VObject (obj @ [(key, v)])) (skip_ws q) = p_ok w r \<Longrightarrow> reads (TObject obj) p w r"
proof -
  obtain n where n: "parse_task n TValue (skip_ws (advance 1 (skip_ws s))) = p_ok v q" using assms(4) by (auto simp: reads_def)
  show "reads (TObject obj) p w r" if a: "peek (skip_ws q) = Some CHR '',''" and b: "reads (TObject (obj @ [(key, v)])) (advance 1 (skip_ws q)) w r"
  proof -
    obtain m where m: "parse_task m (TObject (obj @ [(key, v)])) (advance 1 (skip_ws q)) = p_ok w r" using b by (auto simp: reads_def)
    show ?thesis unfolding reads_def
      using reads_at [OF n, of "max n m"] reads_at [OF m, of "max n m"] a assms(1-3)
      by (intro exI [of _ "Suc (max n m)"]) (simp add: object_loop_def Let_def)
  qed
  show "reads (TObject obj) p w r" if "peek (skip_ws q) = Some CHR ''}''" "leave_container (VObject (obj @ [(key, v)])) (skip_ws q) = p_ok w r"
    unfolding reads_def using n that assms(1-3) by (intro exI [of _ "Suc n"]) (simp add: object_loop_def Let_def)
qed

text \<open>The input the parser faces.\<close>

definition facing :: "parser \<Rightarrow> string \<Rightarrow> bool" where
  "facing p s \<longleftrightarrow> ps_i p \<le> length (ps_b p) \<and> drop (ps_i p) (ps_b p) = s"

lemma facing_advance:
  assumes "facing p (s @ t)"
  shows "facing (advance (length s) p) t"
proof -
  have d: "drop (ps_i p) (ps_b p) = s @ t" "ps_i p \<le> length (ps_b p)" using assms by (simp_all add: facing_def)
  have "drop (ps_i p + length s) (ps_b p) = t" using arg_cong [OF d(1), of "drop (length s)"] by (simp add: add.commute)
  moreover have "ps_i p + length s \<le> length (ps_b p)" using arg_cong [OF d(1), of length] d(2) by simp
  ultimately show ?thesis by (simp add: facing_def)
qed

lemma facing_Cons:
  assumes "facing p (c # s)"
  shows "peek p = Some c" and "facing (advance 1 p) s"
proof -
  have "drop (ps_i p) (ps_b p) = c # s" using assms by (simp add: facing_def)
  then show "peek p = Some c" by (auto simp: peek_def nth_via_drop dest: drop_eq_Nil2 [THEN iffD1] split: if_splits) (metis drop_all linorder_not_less list.distinct(1))
  show "facing (advance 1 p) s" using facing_advance [of p "[c]" s] assms by simp
qed

lemma facing_Nil: "facing p [] \<Longrightarrow> peek p = None"
  by (simp add: facing_def peek_def)

lemma facing_skip:
  assumes "facing p s" and "s = [] \<or> \<not> f (hd s)"
  shows "skip_while f p = p"
  using assms facing_Nil facing_Cons(1) by (subst skip_while.simps) (cases s; fastforce)

lemma facing_run:
  assumes "facing p (w @ s)" and "list_all f w" and "s = [] \<or> \<not> f (hd s)"
  shows "skip_while f p = advance (length w) p"
  using assms
proof (induction w arbitrary: p)
  case Nil
  then show ?case using facing_skip by simp
next
  case (Cons c w)
  then have "peek p = Some c" "facing (advance 1 p) (w @ s)" using facing_Cons [of p c "w @ s"] by simp_all
  then show ?case using Cons by (subst skip_while.simps) simp
qed

lemmas facing_ws = facing_skip [of _ _ is_json_ws, folded skip_ws_def]
  and facing_digits = facing_run [of _ _ _ is_ascii_digit, folded skip_digits_def]

lemma facing_slice: "facing p (w @ s) \<Longrightarrow> slice (ps_b p) (ps_i p) (ps_i p + length w) = Some w"
  using facing_advance [of p w s] by (auto simp: slice_def facing_def)

section \<open>Strings\<close>

lemma utf8_char_lead:
  assumes "utf8_char w"
  obtains c cs where "w = c # cs" "utf8_len c = length w" "ord c < 0x80 \<longrightarrow> cs = []" "128 \<le> ord c \<longrightarrow> (\<forall>x\<in>set w. 128 \<le> ord x)"
proof -
  obtain c cs where w: "w = c # cs" using utf8_char_ne [OF assms] by (cases w) auto
  have u: "utf8_unit (ord c # map of_char cs)" using assms by (simp add: utf8_char_def w)
  have "utf8_len c = length w \<and> (ord c < 0x80 \<longrightarrow> cs = []) \<and> (128 \<le> ord c \<longrightarrow> (\<forall>x\<in>set w. 128 \<le> ord x))"
    using u
  proof (cases rule: utf8_unit_cases)
    case (1 a)
    then show ?thesis by (simp add: w utf8_len_def)
  next
    case (2 a b)
    then have "ord c div 32 = 6" by (auto intro: div_nat_eqI)
    then show ?thesis using 2 u by (auto simp: w utf8_len_def utf8_unit_def is_cont_def)
  next
    case (3 a b d)
    then have "ord c div 16 = 14" "ord c div 32 = 7" by (auto intro: div_nat_eqI)
    then show ?thesis using 3 u by (auto simp: w utf8_len_def utf8_unit_def is_cont_def split: if_splits)
  next
    case (4 a b d e)
    then have "ord c div 8 = 30" "ord c div 16 = 15" "ord c div 32 = 7" by (auto intro: div_nat_eqI)
    then show ?thesis using 4 u by (auto simp: w utf8_len_def utf8_unit_def is_cont_def split: if_splits)
  qed
  then show ?thesis using that w by blast
qed

lemma escape_plain: "32 \<le> ord c \<Longrightarrow> c \<noteq> CHR 0x22 \<Longrightarrow> c \<noteq> CHR 0x5C \<Longrightarrow> escape_char c = [c]"
  by (auto simp: escape_char_def)

lemma escape_wide: "\<forall>x\<in>set w. 128 \<le> ord x \<Longrightarrow> concat (map escape_char w) = w"
proof (induction w)
  case (Cons x w)
  then have "x \<noteq> CHR 0x22" "x \<noteq> CHR 0x5C" by auto
  then show ?case using Cons escape_plain [of x] by simp
qed simp

text \<open>An escaped control character is read back.\<close>

lemma hex_digit: "k < 16 \<Longrightarrow> hex_value (digit_char k) = Some (of_nat k)"
  by (auto simp: hex_value_def digit_char_def)

lemma hex_pair: "n < 32 \<Longrightarrow> push_bit 4 (of_nat (n div 16)) OR of_nat (n mod 16) = (of_nat n :: u32)"
proof -
  have "\<forall>k\<in>set [0..<32]. push_bit 4 (of_nat (k div 16)) OR of_nat (k mod 16) = (of_nat k :: u32)" by code_simp
  then show "n < 32 \<Longrightarrow> ?thesis" by simp
qed

lemma parse_control:
  assumes "facing p (''00'' @ [digit_char (ord c div 16), digit_char (ord c mod 16)] @ s)" and "ord c < 32"
  shows "parse_unicode p = p_ok [c] (advance 4 p)"
proof -
  let ?d = "digit_char (ord c div 16)" and ?e = "digit_char (ord c mod 16)"
  have f: "facing p (CHR ''0'' # CHR ''0'' # ?d # ?e # s)" using assms(1) by simp
  note f1 = facing_Cons [OF f]
  note f2 = facing_Cons [OF f1(2)]
  note f3 = facing_Cons [OF f2(2)]
  note f4 = facing_Cons [OF f3(2)]
  have z: "hex_value CHR ''0'' = Some 0" by (simp add: hex_value_def)
  have v: "hex_value ?d = Some (of_nat (ord c div 16))" "hex_value ?e = Some (of_nat (ord c mod 16))" using assms(2) by (simp_all add: hex_digit)
  have "\<not> ps_i p + 4 > length (ps_b p)" using f4(2) by (simp add: facing_def)
  moreover have "hex4_loop (Suc (Suc (Suc (Suc 0)))) 0 p = p_ok (of_nat (ord c)) (advance (Suc (Suc (Suc (Suc 0)))) p)"
    using f1(1) f2(1) f3(1) f4(1) z v hex_pair [OF assms(2)] by simp
  moreover have four: "(4 :: nat) = Suc (Suc (Suc (Suc 0)))" by simp
  ultimately have hex: "parse_hex4 p = p_ok (of_nat (ord c)) (advance 4 p)" unfolding parse_hex4_def by metis
  have n: "unat (of_nat (ord c) :: u32) = ord c" using assms(2) by (simp add: unsigned_of_nat take_bit_nat_eq_self)
  show ?thesis using assms(2) by (simp add: parse_unicode_def hex n char_from_u32_def encode_utf8_def)
qed

lemma escape_backslash:
  assumes "facing p (escape_char c @ s)" and "ord c < 32 \<or> c = CHR 0x22 \<or> c = CHR 0x5C"
  shows "peek p = Some CHR 0x5C \<and> parse_escape (advance 1 p) = p_ok [c] (advance (length (escape_char c)) p)"
proof (cases "\<exists>e. escape_char c = [CHR 0x5C, e]")
  case True
  then obtain e where e: "escape_char c = [CHR 0x5C, e]" by blast
  have f: "facing p (CHR 0x5C # e # s)" using assms(1) e by simp
  note f1 = facing_Cons [OF f]
  show ?thesis using f1(1) facing_Cons(1) [OF f1(2)] e
    by (auto simp: parse_escape_def Let_def escape_char_def split: if_splits)
next
  case False
  then have c: "escape_char c = CHR 0x5C # ''u00'' @ [digit_char (ord c div 16), digit_char (ord c mod 16)]" "ord c < 32"
    using assms(2) by (auto simp: escape_char_def split: if_splits)
  have f: "facing p (CHR 0x5C # CHR ''u'' # ''00'' @ [digit_char (ord c div 16), digit_char (ord c mod 16)] @ s)" using assms(1) c(1) by simp
  note f1 = facing_Cons [OF f]
  note f2 = facing_Cons [OF f1(2)]
  have "length (escape_char c) = 6" by (simp add: c(1))
  then show ?thesis using f1(1) f2(1) parse_control [OF f2(2) c(2)] by (simp add: parse_escape_def)
qed

lemma string_loop_reads:
  "utf8_ok s \<Longrightarrow> facing p (concat (map escape_char s) @ CHR 0x22 # r) \<Longrightarrow>
     string_loop p out = p_ok (out @ s) (advance (length (concat (map escape_char s)) + 1) p)"
proof (induction s arbitrary: p out rule: utf8_induct)
  case Nil
  then have "peek p = Some CHR 0x22" using facing_Cons(1) by simp
  then show ?case by (subst string_loop.simps) simp
next
  case (char w s)
  obtain c cs where w: "w = c # cs" "utf8_len c = length w" "ord c < 0x80 \<longrightarrow> cs = []" "128 \<le> ord c \<longrightarrow> (\<forall>x\<in>set w. 128 \<le> ord x)"
    using utf8_char_lead [OF char(1)] by blast
  let ?t = "concat (map escape_char s) @ CHR 0x22 # r"
  show ?case
  proof (cases "ord c < 32 \<or> c = CHR 0x22 \<or> c = CHR 0x5C")
    case True
    then have "w = [c]" using w by auto
    then have f: "facing p (escape_char c @ ?t)" using char.prems by simp
    have "string_loop (advance (length (escape_char c)) p) (out @ [c]) = p_ok ((out @ [c]) @ s)
        (advance (length (concat (map escape_char s)) + 1) (advance (length (escape_char c)) p))"
      using char.IH [OF facing_advance [OF f]] .
    then show ?thesis using escape_backslash [OF f True] \<open>w = [c]\<close> by (subst string_loop.simps) (simp add: p_ok_def add.assoc)
  next
    case False
    then have e: "concat (map escape_char w) = w"
      using w escape_wide [of w] escape_plain [of c] by (cases "ord c < 0x80") auto
    then have f: "facing p (w @ ?t)" using char.prems by simp
    then have "peek p = Some c" using w(1) facing_Cons(1) by simp
    moreover have "slice (ps_b p) (ps_i p) (ps_i p + utf8_len c) = Some w" using facing_slice [OF f] w(2) by simp
    moreover have "\<not> ps_i p + utf8_len c > length (ps_b p)" using facing_advance [OF f] w(2) by (simp add: facing_def)
    moreover have "utf8_ok w" using utf8_char_append [OF char(1), of "[]"] by (simp add: utf8_ok_def)
    moreover have "string_loop (advance (length w) p) (out @ w) = p_ok ((out @ w) @ s) (advance (length (concat (map escape_char s)) + 1) (advance (length w) p))"
      using char.IH [OF facing_advance [OF f]] .
    ultimately show ?thesis using False w(2) e by (subst string_loop.simps) (simp add: add.assoc)
  qed
qed

lemma parse_string_reads:
  assumes "utf8_ok s" and "facing p (write_json_string s @ r)"
  shows "parse_string p = p_ok s (advance (length (write_json_string s)) p)"
proof -
  have "facing (advance 1 p) (concat (map escape_char s) @ CHR 0x22 # r)"
    using facing_Cons(2) [of p "CHR 0x22"] assms(2) by (simp add: write_json_string_def)
  from string_loop_reads [OF assms(1) this] show ?thesis by (simp add: parse_string_def write_json_string_def)
qed

section \<open>Numbers\<close>

abbreviation "int_part ip \<equiv> list_all is_ascii_digit ip \<and> ip \<noteq> [] \<and> (ip = ''0'' \<or> hd ip \<noteq> CHR ''0'')"

definition stops :: "string \<Rightarrow> bool" where
  "stops r \<longleftrightarrow> r = [] \<or> \<not> is_ascii_digit (hd r) \<and> hd r \<noteq> CHR ''.'' \<and> hd r \<noteq> CHR ''e'' \<and> hd r \<noteq> CHR ''E''"

lemma number_digits:
  assumes "facing p (sg @ ip @ t)" and "sg = [] \<or> sg = ''-''" and "int_part ip" and "t = [] \<or> \<not> is_ascii_digit (hd t)"
  shows "parse_number p = number_frac (ps_i p) (advance (length (sg @ ip)) p)"
proof -
  obtain c cs where ip: "ip = c # cs" using assms(3) by (cases ip) auto
  have c: "is_ascii_digit c" "c \<noteq> CHR ''-''" using assms(3) ip by (auto simp: is_ascii_digit_def)
  let ?q = "advance (length sg) p"
  have q: "facing ?q (ip @ t)" using facing_advance [OF assms(1)] .
  have pc: "peek ?q = Some c" using facing_Cons(1) [of ?q c "cs @ t"] q ip by simp
  have start: "(if peek p = Some CHR ''-'' then advance 1 p else p) = ?q"
    using assms(2)
  proof
    assume "sg = []"
    then show ?thesis using pc c(2) by simp
  next
    assume sg: "sg = ''-''"
    then have "peek p = Some CHR ''-''" using facing_Cons(1) [of p "CHR ''-''" "ip @ t"] assms(1) by simp
    then show ?thesis using sg by simp
  qed
  have "c = CHR ''0'' \<Longrightarrow> ip = [c]" using assms(3) ip by auto
  moreover have "skip_digits ?q = advance (length ip) ?q" using facing_digits [OF q] assms(3,4) by simp
  ultimately show ?thesis using pc c unfolding parse_number_def Let_def start by auto
qed

lemma peek_stops: "facing p r \<Longrightarrow> stops r \<Longrightarrow> c = CHR ''.'' \<or> c = CHR ''e'' \<or> c = CHR ''E'' \<Longrightarrow> peek p \<noteq> Some c"
  using facing_Nil [of p] facing_Cons(1) [of p "hd r" "tl r"] by (cases r) (auto simp: stops_def)

lemma number_int:
  assumes "facing p (sg @ ip @ r)" and "sg = [] \<or> sg = ''-''" and "int_part ip" and "stops r"
  shows "parse_number p = number_end (ps_i p) False (advance (length (sg @ ip)) p)"
proof -
  have "facing (advance (length (sg @ ip)) p) r" using facing_advance [of p "sg @ ip" r] assms(1) by simp
  then have "number_frac (ps_i p) (advance (length (sg @ ip)) p) = number_end (ps_i p) False (advance (length (sg @ ip)) p)"
    using peek_stops [OF _ assms(4)] by (simp add: number_frac_def number_exp_def)
  then show ?thesis using number_digits [OF assms(1-3)] assms(4) by (auto simp: stops_def)
qed

lemma number_point:
  assumes "facing p (sg @ ip @ CHR ''.'' # fp @ r)" and "sg = [] \<or> sg = ''-''" and "int_part ip"
    and "list_all is_ascii_digit fp" and "fp \<noteq> []" and "stops r"
  shows "parse_number p = number_end (ps_i p) True (advance (length (sg @ ip @ CHR ''.'' # fp)) p)"
proof -
  let ?q = "advance (length (sg @ ip)) p"
  have q: "facing ?q (CHR ''.'' # fp @ r)" using facing_advance [of p "sg @ ip" "CHR ''.'' # fp @ r"] assms(1) by simp
  note q1 = facing_Cons [OF q]
  have next_digit: "digit_next (advance 1 ?q)"
    using facing_Cons(1) [of "advance 1 ?q" "hd fp" "tl fp @ r"] q1(2) assms(4,5) by (cases fp) (auto simp: digit_next_def)
  have run: "skip_digits (advance 1 ?q) = advance (length fp) (advance 1 ?q)"
    using facing_digits [OF q1(2)] assms(4,6) by (auto simp: stops_def)
  have "facing (advance (length fp) (advance 1 ?q)) r" using facing_advance [OF q1(2)] .
  then have "number_exp (ps_i p) True (advance (length fp) (advance 1 ?q)) = number_end (ps_i p) True (advance (length fp) (advance 1 ?q))"
    using peek_stops [OF _ assms(6)] by (simp add: number_exp_def)
  moreover have "number_frac (ps_i p) ?q = number_exp (ps_i p) True (skip_digits (advance 1 ?q))"
    unfolding number_frac_def Let_def using q1(1) next_digit by simp
  moreover have "parse_number p = number_frac (ps_i p) ?q"
    using number_digits [OF assms(1-3)] by (simp add: is_ascii_digit_def)
  ultimately show ?thesis unfolding run by (simp add: add.assoc)
qed

lemma number_end_text:
  assumes "facing p (w @ r)" and "list_all (\<lambda>c. ord c < 128) w"
  shows "number_end (ps_i p) fl (advance (length w) p) =
    (let float = (case parse_f64 w of Some x \<Rightarrow> p_ok (VFloat x) (advance (length w) p) | None \<Rightarrow> p_err (advance (length w) p) ''number out of range'')
     in if fl then float else case parse_i64 w of Some i \<Rightarrow> p_ok (VInt i) (advance (length w) p) | None \<Rightarrow> float)"
  using facing_slice [OF assms(1)] utf8_ascii [OF assms(2)] by (simp add: number_end_def)

lemma show_i64_text:
  obtains sg ip where "show_i64 i = sg @ ip" "sg = [] \<or> sg = ''-''" "int_part ip" "list_all (\<lambda>c. ord c < 128) (sg @ ip)"
proof -
  have int: "int_part (show_nat n)" for n
  proof (cases "n = 0")
    case True
    have "show_nat 0 = ''0''" by code_simp
    then show ?thesis using True by (simp add: is_ascii_digit_def)
  qed (use show_nat_decimal show_nat_head in auto)
  have asc: "list_all (\<lambda>c. ord c < 128) (show_nat n)" for n using show_nat_decimal [of n] by (auto simp: list_all_iff is_ascii_digit_def)
  show ?thesis
  proof (cases "sint i < 0")
    case True
    then show ?thesis using that [of "''-''" "show_nat (nat (- sint i))"] int asc by (simp add: show_i64_def)
  next
    case False
    then show ?thesis using that [of "[]" "show_nat (nat (sint i))"] int asc by (simp add: show_i64_def)
  qed
qed

lemma parse_int_reads:
  assumes "facing p (show_i64 i @ r)" and "stops r"
  shows "parse_number p = p_ok (VInt i) (advance (length (show_i64 i)) p)"
proof -
  obtain sg ip where s: "show_i64 i = sg @ ip" "sg = [] \<or> sg = ''-''" "int_part ip" "list_all (\<lambda>c. ord c < 128) (sg @ ip)"
    by (rule show_i64_text)
  have "parse_number p = number_end (ps_i p) False (advance (length (sg @ ip)) p)" using number_int [of p sg ip r] assms s by simp
  then show ?thesis using number_end_text [of p "sg @ ip" r False] assms(1) s(4) parse_show_i64 [of i] by (simp add: s(1))
qed

text \<open>The value a float is read back as: null when it is not finite, an integer when its text has no point and fits, otherwise the float itself.\<close>

definition float_back :: "f64 \<Rightarrow> json" where
  "float_back x =
     (if \<not> is_finite x then VNull
      else case shortest_decimal (f64_mag x) of (d, k) \<Rightarrow>
        let n = d * 10 ^ nat k
        in if k < 0 then VFloat x
           else if f64_negative x then (if n \<le> 2 ^ 63 then VInt (- of_nat n) else VFloat x)
           else (if n < 2 ^ 63 then VInt (of_nat n) else VFloat x))"

lemma parse_digits_value:
  "list_all is_ascii_digit s \<Longrightarrow> acc < bd \<Longrightarrow>
     parse_digits 10 bd acc s = (let n = foldl (\<lambda>n c. 10 * n + (ord c - 48)) acc s in if n < bd then Some n else None)"
proof (induction s arbitrary: acc)
  case (Cons c s)
  have d: "to_digit 10 c = Some (ord c - 48)" using Cons.prems(1) by (auto simp: to_digit_def is_ascii_digit_def Let_def)
  have grow: "acc' \<le> foldl (\<lambda>n c. 10 * n + (ord c - 48)) acc' s" for acc' :: nat
  proof (induction s arbitrary: acc')
    case (Cons c s)
    show ?case using Cons [of "10 * acc' + (ord c - 48)"] by simp
  qed simp
  show ?case
  proof (cases "10 * acc + (ord c - 48) < bd")
    case True
    then show ?thesis using Cons d by (simp add: mult.commute Let_def)
  next
    case False
    then show ?thesis using d grow [of "10 * acc + (ord c - 48)"] by (simp add: mult.commute Let_def)
  qed
qed simp

lemma parse_i64_digits:
  assumes "int_part ip"
  shows "parse_i64 (CHR ''-'' # ip) = (if digits_value ip \<le> 2 ^ 63 then Some (- of_nat (digits_value ip)) else None)"
    and "parse_i64 ip = (if digits_value ip < 2 ^ 63 then Some (of_nat (digits_value ip)) else None)"
proof -
  have ds: "parse_digits 10 bd 0 ip = (if digits_value ip < bd then Some (digits_value ip) else None)" if "0 < bd" for bd
    using parse_digits_value [of ip 0 bd] assms that by (simp add: digits_value_def Let_def)
  obtain c cs where ip: "ip = c # cs" using assms by (cases ip) auto
  have "c \<noteq> CHR ''-'' \<and> c \<noteq> CHR ''+''" using assms ip by (auto simp: is_ascii_digit_def)
  then show "parse_i64 ip = (if digits_value ip < 2 ^ 63 then Some (of_nat (digits_value ip)) else None)"
    using ds [of "2 ^ 63"] by (simp add: parse_i64_def from_str_radix_def ip)
  show "parse_i64 (CHR ''-'' # ip) = (if digits_value ip \<le> 2 ^ 63 then Some (- of_nat (digits_value ip)) else None)"
    using ds [of "2 ^ 63 + 1"] assms by (simp add: parse_i64_def less_Suc_eq_le)
qed

lemma show_f64_text:
  assumes "is_finite x" and "shortest_decimal (f64_mag x) = (d, k)"
  shows "show_f64 x = (if f64_negative x then ''-'' else []) @ show_decimal d k" and "0 < d \<or> d = 0 \<and> k = 0"
proof -
  show "show_f64 x = (if f64_negative x then ''-'' else []) @ show_decimal d k"
    using assms by (auto simp: show_f64_def is_finite_def is_nan_def)
  show "0 < d \<or> d = 0 \<and> k = 0"
    using shortest_pos [of "f64_mag x" d k] assms by (cases "f64_mag x") (auto simp: is_finite_def shortest_decimal_def)
qed

lemma parse_float_reads:
  assumes "is_finite x" and "facing p (show_f64 x @ r)" and "stops r"
  shows "parse_number p = p_ok (float_back x) (advance (length (show_f64 x)) p)"
proof -
  obtain d k where s: "shortest_decimal (f64_mag x) = (d, k)" by (cases "shortest_decimal (f64_mag x)") auto
  let ?sg = "if f64_negative x then ''-'' else []"
  have sg: "?sg = [] \<or> ?sg = ''-''" by simp
  note t = show_f64_text [OF assms(1) s]
  show ?thesis
  proof (cases "0 \<le> k")
    case True
    define ip where "ip = show_decimal d k"
    have ip: "int_part ip" "digits_value ip = d * 10 ^ nat k"
    proof -
      have zero: "show_nat 0 = ''0''" by code_simp
      have e: "ip = show_nat d @ replicate (nat k) CHR ''0''" using True by (simp add: ip_def show_decimal_int)
      show "digits_value ip = d * 10 ^ nat k" by (simp add: e digits_value_zeros digits_value_show)
      have "hd ip \<noteq> CHR ''0''" if "0 < d" using that show_nat_head by (simp add: e)
      moreover have "ip = ''0''" if "d = 0" "k = 0" using that zero by (simp add: e)
      moreover have "list_all is_ascii_digit ip" using show_nat_decimal [of d] by (auto simp: e list_all_iff is_ascii_digit_def)
      ultimately show "int_part ip" using t(2) by (auto simp: e)
    qed
    have asc: "list_all (\<lambda>c. ord c < 128) (?sg @ ip)" using ip(1) by (auto simp: list_all_iff is_ascii_digit_def)
    have shown: "show_f64 x = ?sg @ ip" using t(1) by (simp add: ip_def)
    have "parse_number p = number_end (ps_i p) False (advance (length (?sg @ ip)) p)"
      using number_int [OF _ sg ip(1) assms(3)] assms(2) shown by simp
    moreover have "facing p ((?sg @ ip) @ r)" using assms(2) shown by simp
    moreover have "parse_f64 (?sg @ ip) = Some x" using parse_show_f64 [OF assms(1)] shown by simp
    ultimately show ?thesis using number_end_text [OF _ asc] parse_i64_digits [OF ip(1)] True ip(2)
      by (auto simp: shown float_back_def assms(1) s Let_def)
  next
    case False
    with t(2) obtain ip fp where u: "show_decimal d k = ip @ CHR ''.'' # fp" "list_all is_ascii_digit ip" "list_all is_ascii_digit fp"
      "ip \<noteq> []" "fp \<noteq> []" "ip = ''0'' \<or> hd ip \<noteq> CHR ''0''" using show_decimal_point [of k d] by (metis not_le order_refl)
    let ?w = "?sg @ ip @ CHR ''.'' # fp"
    have asc: "list_all (\<lambda>c. ord c < 128) ?w" using u by (auto simp: list_all_iff is_ascii_digit_def)
    have shown: "show_f64 x = ?w" using t(1) u(1) by simp
    have f: "facing p (?w @ r)" using assms(2) shown by simp
    have "parse_number p = number_end (ps_i p) True (advance (length ?w) p)"
      using number_point [of p ?sg ip fp r] f sg u assms(3) by simp
    moreover have "parse_f64 ?w = Some x" using parse_show_f64 [OF assms(1)] shown by simp
    ultimately show ?thesis using number_end_text [OF f asc] False by (simp add: shown float_back_def assms(1) s)
  qed
qed

section \<open>Values\<close>

fun read_back :: "json \<Rightarrow> json" where
  "read_back (VFloat x) = float_back x"
| "read_back (VArray a) = VArray (map read_back a)"
| "read_back (VObject kvs) = VObject (map (\<lambda>(k, v). (k, read_back v)) kvs)"
| "read_back v = v"

text \<open>The parser at the end of a printed value, and at the end of a container, which is one level up.\<close>

definition reads_shown :: "json \<Rightarrow> bool" where
  "reads_shown v \<longleftrightarrow> (\<forall>p r. facing p (value_show v @ r) \<longrightarrow> stops r \<longrightarrow> ps_depth p \<le> MAX_DEPTH \<longrightarrow>
     depth_le (MAX_DEPTH - ps_depth p) v \<longrightarrow> reads TValue p (read_back v) (advance (length (value_show v)) p))"

definition up :: "nat \<Rightarrow> parser \<Rightarrow> parser" where
  "up n p = p\<lparr>ps_i := ps_i p + n, ps_depth := ps_depth p - 1\<rparr>"

lemma up_advance: "up m (advance n p) = up (n + m) p"
  by (simp add: up_def advance_def)

lemma leave_up: "0 < ps_depth p \<Longrightarrow> leave_container v p = p_ok v (up 1 p)"
  by (simp add: leave_container_def up_def)

lemma stops_marks [simp]: "stops (CHR '','' # r)" "stops (CHR '']'' # r)" "stops (CHR ''}'' # r)" "stops []"
  by (simp_all add: stops_def is_ascii_digit_def)

definition value_start :: "char \<Rightarrow> bool" where
  "value_start c \<longleftrightarrow> c \<in> {CHR ''{'', CHR ''['', CHR 0x22, CHR ''t'', CHR ''f'', CHR ''n'', CHR ''-''} \<or> is_ascii_digit c"

lemma number_starts:
  "\<exists>c s. show_i64 i = c # s \<and> (c = CHR ''-'' \<or> is_ascii_digit c)"
  "is_finite x \<Longrightarrow> \<exists>c s. show_f64 x = c # s \<and> (c = CHR ''-'' \<or> is_ascii_digit c)"
proof -
  have nat: "\<exists>c s. show_nat n @ t = c # s \<and> is_ascii_digit c" for n t
    using show_nat_decimal [of n] by (cases "show_nat n") auto
  show "\<exists>c s. show_i64 i = c # s \<and> (c = CHR ''-'' \<or> is_ascii_digit c)"
    using nat [of "nat (sint i)" "[]"] by (auto simp: show_i64_def)
  assume x: "is_finite x"
  obtain d k where s: "shortest_decimal (f64_mag x) = (d, k)" by (cases "shortest_decimal (f64_mag x)") auto
  have "\<exists>c s. show_decimal d k = c # s \<and> is_ascii_digit c"
  proof (cases "0 \<le> k")
    case True
    then show ?thesis using nat by (simp add: show_decimal_int)
  next
    case False
    then obtain ip fp where "show_decimal d k = ip @ CHR ''.'' # fp" "list_all is_ascii_digit ip" "ip \<noteq> []"
      using show_decimal_point [of k d] show_f64_text(2) [OF x s] by (metis not_le order_refl)
    then show ?thesis by (cases ip) auto
  qed
  then show "\<exists>c s. show_f64 x = c # s \<and> (c = CHR ''-'' \<or> is_ascii_digit c)"
    using show_f64_text(1) [OF x s] by auto
qed

lemma value_starts: "\<exists>c s. value_show v = c # s \<and> value_start c"
proof (cases v)
  case (VBool b)
  then show ?thesis by (cases b) (simp_all add: value_start_def)
next
  case (VInt i)
  then show ?thesis using number_starts(1) [of i] by (auto simp: value_start_def)
next
  case (VFloat x)
  then show ?thesis using number_starts(2) [of x] by (auto simp: value_start_def)
qed (simp_all add: value_start_def write_json_string_def)

lemma start_plain: "value_start c \<Longrightarrow> \<not> is_json_ws c \<and> c \<noteq> CHR '']''"
  by (auto simp: value_start_def is_json_ws_def is_ascii_digit_def)

lemma marks_plain [simp]:
  "\<not> is_json_ws CHR '',''" "\<not> is_json_ws CHR '']''" "\<not> is_json_ws CHR ''}''" "\<not> is_json_ws CHR '':''" "\<not> is_json_ws CHR 0x22"
  by (simp_all add: is_json_ws_def)

lemma facing_value: "facing p (value_show v @ r) \<Longrightarrow> skip_ws p = p \<and> (\<exists>c. peek p = Some c \<and> value_start c)"
proof -
  assume f: "facing p (value_show v @ r)"
  obtain c s where v: "value_show v = c # s" "value_start c" using value_starts by blast
  have "facing p (c # s @ r)" using f v(1) by simp
  from facing_ws [OF this] facing_Cons(1) [OF this] show ?thesis using start_plain [OF v(2)] v(2) by simp
qed

lemma number_value: "peek p = Some c \<Longrightarrow> c = CHR ''-'' \<or> is_ascii_digit c \<Longrightarrow> parse_value call p = parse_number p"
proof -
  assume p: "peek p = Some c" and c: "c = CHR ''-'' \<or> is_ascii_digit c"
  then have "ord c \<le> 57" "ord c \<noteq> 34" by (auto simp: is_ascii_digit_def)
  then have "c \<notin> {CHR ''{'', CHR ''['', CHR 0x22, CHR ''t'', CHR ''f'', CHR ''n''}" by auto
  then show ?thesis using c by (simp add: parse_value_def p)
qed

lemma slice_all: "i \<le> length b \<Longrightarrow> slice b i (length b) = Some (drop i b)"
  by (simp add: slice_def)

lemma lit_reads: "facing p (lit @ r) \<Longrightarrow> expect_lit lit v p = p_ok v (advance (length lit) p)"
proof -
  assume f: "facing p (lit @ r)"
  have "slice (ps_b p) (ps_i p) (length (ps_b p)) = Some (drop (ps_i p) (ps_b p))" using f unfolding facing_def by (intro slice_all) blast
  then have "slice (ps_b p) (ps_i p) (length (ps_b p)) = Some (lit @ r)" using f by (simp add: facing_def)
  then show ?thesis by (simp add: expect_lit_def)
qed

lemma scalar_shown:
  "reads_shown VNull" "reads_shown (VBool b)" "reads_shown (VInt i)" "reads_shown (VFloat x)" "utf8_ok s \<Longrightarrow> reads_shown (VStr s)"
proof -
  have null: "parse_value call p = p_ok VNull (advance (length ''null'') p)" if "facing p (''null'' @ r)" for call p r
    using lit_reads [OF that, of VNull] facing_Cons(1) [of p "CHR ''n''"] that by (simp add: parse_value_def parse_null_def is_ascii_digit_def)
  then show "reads_shown VNull" by (auto simp: reads_shown_def intro!: reads_value)
  have true: "parse_value call p = p_ok (VBool True) (advance (length ''true'') p)" if "facing p (''true'' @ r)" for call p r
    using lit_reads [OF that, of "VBool True"] facing_Cons(1) [of p "CHR ''t''"] that by (simp add: parse_value_def parse_bool_def)
  have false: "parse_value call p = p_ok (VBool False) (advance (length ''false'') p)" if "facing p (''false'' @ r)" for call p r
    using lit_reads [OF that, of "VBool False"] facing_Cons(1) [of p "CHR ''f''"] that by (simp add: parse_value_def parse_bool_def)
  show "reads_shown (VBool b)" using true false by (cases b) (auto simp: reads_shown_def intro!: reads_value)
  show "reads_shown (VInt i)"
    unfolding reads_shown_def
  proof (intro allI impI reads_value)
    fix p r call
    assume f: "facing p (value_show (VInt i) @ r)" "stops r"
    obtain c s where c: "show_i64 i = c # s" "c = CHR ''-'' \<or> is_ascii_digit c" using number_starts(1) by blast
    have "peek p = Some c" using facing_Cons(1) [of p c "s @ r"] f(1) c(1) by simp
    then show "parse_value call p = p_ok (read_back (VInt i)) (advance (length (value_show (VInt i))) p)"
      using number_value [OF _ c(2)] parse_int_reads [of p i r] f by simp
  qed
  show "reads_shown (VFloat x)"
  proof (cases "is_finite x")
    case True
    show ?thesis unfolding reads_shown_def
    proof (intro allI impI reads_value)
      fix p r call
      assume f: "facing p (value_show (VFloat x) @ r)" "stops r"
      obtain c s where c: "show_f64 x = c # s" "c = CHR ''-'' \<or> is_ascii_digit c" using number_starts(2) [OF True] by blast
      have "peek p = Some c" using facing_Cons(1) [of p c "s @ r"] f(1) c(1) True by simp
      then show "parse_value call p = p_ok (read_back (VFloat x)) (advance (length (value_show (VFloat x))) p)"
        using number_value [OF _ c(2)] parse_float_reads [OF True, of p r] f True by simp
    qed
  next
    case False
    then show ?thesis using null by (auto simp: reads_shown_def float_back_def intro!: reads_value)
  qed
  show "reads_shown (VStr s)" if "utf8_ok s"
    unfolding reads_shown_def
  proof (intro allI impI reads_value)
    fix p r call
    assume f: "facing p (value_show (VStr s) @ r)"
    have "peek p = Some CHR 0x22" using facing_Cons(1) [of p "CHR 0x22"] f by (simp add: write_json_string_def)
    then show "parse_value call p = p_ok (read_back (VStr s)) (advance (length (value_show (VStr s))) p)"
      using parse_string_reads [OF that, of p r] f by (simp add: parse_value_def)
  qed
qed

section \<open>Containers\<close>

lemma reads_container:
  assumes "peek p = Some c" and "ps_depth p < MAX_DEPTH" and "skip_ws (advance 1 (p\<lparr>ps_depth := ps_depth p + 1\<rparr>)) = q"
  shows "c = CHR ''['' \<Longrightarrow> peek q \<noteq> Some CHR '']'' \<Longrightarrow> reads (TArray []) q v r \<Longrightarrow> reads TValue p v r"
    and "c = CHR ''{'' \<Longrightarrow> peek q \<noteq> Some CHR ''}'' \<Longrightarrow> reads (TObject []) q v r \<Longrightarrow> reads TValue p v r"
    and "c = CHR ''['' \<Longrightarrow> peek q = Some CHR '']'' \<Longrightarrow> leave_container (VArray []) q = p_ok v r \<Longrightarrow> reads TValue p v r"
    and "c = CHR ''{'' \<Longrightarrow> peek q = Some CHR ''}'' \<Longrightarrow> leave_container (VObject []) q = p_ok v r \<Longrightarrow> reads TValue p v r"
proof -
  have e: "enter p = p_ok () (p\<lparr>ps_depth := ps_depth p + 1\<rparr>)" using assms(2) by (simp add: enter_def Let_def)
  show "reads TValue p v r" if "c = CHR ''[''" "peek q \<noteq> Some CHR '']''" and t: "reads (TArray []) q v r"
  proof -
    obtain n where "parse_task n (TArray []) q = p_ok v r" using t by (auto simp: reads_def)
    then show ?thesis unfolding reads_def using assms(1,3) that e
      by (intro exI [of _ "Suc n"]) (simp add: parse_value_def parse_array_def Let_def)
  qed
  show "reads TValue p v r" if "c = CHR ''{''" "peek q \<noteq> Some CHR ''}''" and t: "reads (TObject []) q v r"
  proof -
    obtain n where "parse_task n (TObject []) q = p_ok v r" using t by (auto simp: reads_def)
    then show ?thesis unfolding reads_def using assms(1,3) that e
      by (intro exI [of _ "Suc n"]) (simp add: parse_value_def parse_object_def Let_def)
  qed
  show "reads TValue p v r" if "c = CHR ''[''" "peek q = Some CHR '']''" "leave_container (VArray []) q = p_ok v r"
    using assms(1,3) that e by (intro reads_value) (simp add: parse_value_def parse_array_def Let_def)
  show "reads TValue p v r" if "c = CHR ''{''" "peek q = Some CHR ''}''" "leave_container (VObject []) q = p_ok v r"
    using assms(1,3) that e by (intro reads_value) (simp add: parse_value_def parse_object_def Let_def)
qed

text \<open>A printed value followed by a comma or a bracket: where the parser stands after it.\<close>

lemma shown_then:
  assumes "reads_shown v" and "facing p (value_show v @ c # r)" and "stops (c # r)" and "\<not> is_json_ws c"
    and "ps_depth p \<le> MAX_DEPTH" and "depth_le (MAX_DEPTH - ps_depth p) v"
  shows "reads TValue (skip_ws p) (read_back v) (advance (length (value_show v)) p)"
    and "skip_ws (advance (length (value_show v)) p) = advance (length (value_show v)) p"
    and "peek (advance (length (value_show v)) p) = Some c"
    and "facing (advance (length (value_show v) + 1) p) r"
proof -
  have s: "skip_ws p = p" using facing_value [OF assms(2)] by blast
  have f: "facing (advance (length (value_show v)) p) (c # r)" using facing_advance [OF assms(2)] .
  show "reads TValue (skip_ws p) (read_back v) (advance (length (value_show v)) p)"
    using assms s by (auto simp: reads_shown_def)
  show "skip_ws (advance (length (value_show v)) p) = advance (length (value_show v)) p" using facing_ws [OF f] assms(4) by simp
  show "peek (advance (length (value_show v)) p) = Some c" using facing_Cons(1) [OF f] .
  show "facing (advance (length (value_show v) + 1) p) r" using facing_Cons(2) [OF f] by simp
qed

lemma array_shown:
  assumes "vs \<noteq> []" and "list_all reads_shown vs" and "facing p (join_with '','' (map value_show vs) @ '']'' @ r)"
    and "0 < ps_depth p" and "ps_depth p \<le> MAX_DEPTH" and "list_all (depth_le (MAX_DEPTH - ps_depth p)) vs"
  shows "reads (TArray arr) p (VArray (arr @ map read_back vs)) (up (length (join_with '','' (map value_show vs)) + 1) p)"
  using assms
proof (induction vs arbitrary: arr p)
  case (Cons v vs)
  have d: "depth_le (MAX_DEPTH - ps_depth p) v" and v: "reads_shown v" using Cons.prems by simp_all
  let ?q = "advance (length (value_show v)) p"
  show ?case
  proof (cases "vs = []")
    case True
    then have f: "facing p (value_show v @ CHR '']'' # r)" using Cons.prems(3) by simp
    note t = shown_then [OF v f _ _ Cons.prems(5) d, simplified]
    have "leave_container (VArray (arr @ [read_back v])) (skip_ws ?q) = p_ok (VArray (arr @ [read_back v])) (up 1 ?q)"
      using t(2) Cons.prems(4) by (simp add: leave_up)
    then show ?thesis using reads_item(2) [OF t(1)] t(2,3) True by (simp add: up_advance)
  next
    case False
    then obtain w ws where vs: "vs = w # ws" by (cases vs) auto
    have f: "facing p (value_show v @ CHR '','' # join_with '','' (map value_show vs) @ '']'' @ r)" using Cons.prems(3) by (simp add: vs)
    note t = shown_then [OF v f _ _ Cons.prems(5) d, simplified]
    have "reads (TArray (arr @ [read_back v])) (advance 1 ?q)
        (VArray ((arr @ [read_back v]) @ map read_back vs)) (up (length (join_with '','' (map value_show vs)) + 1) (advance 1 ?q))"
      by (rule Cons.IH) (use Cons.prems False t(4) in \<open>simp_all\<close>)
    then show ?thesis using reads_item(1) [OF t(1)] t(2,3) by (simp add: up_advance vs ac_simps)
  qed
qed simp

definition member_show :: "string \<times> json \<Rightarrow> string" where
  "member_show m = write_json_string (fst m) @ '':'' @ value_show (snd m)"

lemma member_parts:
  assumes "utf8_ok k" and "facing p (member_show (k, v) @ r)"
  obtains s where "peek (skip_ws p) = Some CHR 0x22" "parse_string (skip_ws p) = p_ok k s" "peek (skip_ws s) = Some CHR '':''"
    "skip_ws (advance 1 (skip_ws s)) = advance (length (write_json_string k) + 1) p"
    "facing (advance (length (write_json_string k) + 1) p) (value_show v @ r)"
proof -
  let ?s = "advance (length (write_json_string k)) p"
  have f: "facing p (write_json_string k @ CHR '':'' # value_show v @ r)" using assms(2) by (simp add: member_show_def)
  then have q: "facing p (CHR 0x22 # concat (map escape_char k) @ CHR 0x22 # CHR '':'' # value_show v @ r)" by (simp add: write_json_string_def)
  have ws: "skip_ws p = p" using facing_ws [OF q] by simp
  note c = facing_Cons [OF facing_advance [OF f]]
  have colon: "skip_ws ?s = ?s" using facing_ws [OF facing_advance [OF f]] by simp
  have fv: "facing (advance (length (write_json_string k) + 1) p) (value_show v @ r)" using c(2) by simp
  have "skip_ws (advance 1 (skip_ws ?s)) = advance (length (write_json_string k) + 1) p"
    using facing_value [OF fv] colon by simp
  then show ?thesis using that [of ?s] ws facing_Cons(1) [OF q] parse_string_reads [OF assms(1) f] colon c(1) fv by simp
qed

lemma object_shown:
  assumes "kvs \<noteq> []" and "list_all (\<lambda>(k, v). utf8_ok k \<and> reads_shown v) kvs"
    and "facing p (join_with '','' (map member_show kvs) @ ''}'' @ r)"
    and "0 < ps_depth p" and "ps_depth p \<le> MAX_DEPTH" and "list_all (\<lambda>(k, v). depth_le (MAX_DEPTH - ps_depth p) v) kvs"
  shows "reads (TObject obj) p (VObject (obj @ map (\<lambda>(k, v). (k, read_back v)) kvs)) (up (length (join_with '','' (map member_show kvs)) + 1) p)"
  using assms
proof (induction kvs arbitrary: obj p)
  case (Cons kv kvs)
  obtain k v where kv: "kv = (k, v)" by force
  have d: "depth_le (MAX_DEPTH - ps_depth p) v" and v: "reads_shown v" and k: "utf8_ok k" using Cons.prems kv by simp_all
  let ?m = "advance (length (write_json_string k) + 1) p"
  let ?q = "advance (length (value_show v)) ?m"
  show ?case
  proof (cases "kvs = []")
    case True
    then have f: "facing p (member_show (k, v) @ CHR ''}'' # r)" using Cons.prems(3) kv by simp
    from member_parts [OF k f] obtain s where s: "peek (skip_ws p) = Some CHR 0x22" "parse_string (skip_ws p) = p_ok k s"
      "peek (skip_ws s) = Some CHR '':''" "skip_ws (advance 1 (skip_ws s)) = ?m" "facing ?m (value_show v @ CHR ''}'' # r)" by blast
    have t: "reads TValue ?m (read_back v) ?q" "skip_ws ?q = ?q" "peek ?q = Some CHR ''}''"
      using shown_then [OF v s(5)] facing_value [OF s(5)] Cons.prems(5) d by simp_all
    have "reads TValue (skip_ws (advance 1 (skip_ws s))) (read_back v) ?q" using t(1) s(4) by simp
    note m = reads_member(2) [OF s(1-3) this]
    have "leave_container (VObject (obj @ [(k, read_back v)])) (skip_ws ?q) = p_ok (VObject (obj @ [(k, read_back v)])) (up 1 ?q)"
      using t(2) Cons.prems(4) by (simp add: leave_up)
    then show ?thesis using m t(2,3) True kv by (simp add: up_advance member_show_def ac_simps)
  next
    case False
    then obtain w ws where kvs: "kvs = w # ws" by (cases kvs) auto
    let ?r = "join_with '','' (map member_show kvs) @ ''}'' @ r"
    have f: "facing p (member_show (k, v) @ CHR '','' # ?r)" using Cons.prems(3) by (simp add: kvs kv)
    from member_parts [OF k f] obtain s where s: "peek (skip_ws p) = Some CHR 0x22" "parse_string (skip_ws p) = p_ok k s"
      "peek (skip_ws s) = Some CHR '':''" "skip_ws (advance 1 (skip_ws s)) = ?m" "facing ?m (value_show v @ CHR '','' # ?r)" by blast
    have t: "reads TValue ?m (read_back v) ?q" "skip_ws ?q = ?q" "peek ?q = Some CHR '',''" "facing (advance 1 ?q) ?r"
      using shown_then [OF v s(5)] facing_value [OF s(5)] Cons.prems(5) d by (simp_all add: ac_simps)
    have "reads TValue (skip_ws (advance 1 (skip_ws s))) (read_back v) ?q" using t(1) s(4) by simp
    note m = reads_member(1) [OF s(1-3) this]
    have "reads (TObject (obj @ [(k, read_back v)])) (advance 1 ?q) (VObject ((obj @ [(k, read_back v)]) @ map (\<lambda>(k, v). (k, read_back v)) kvs))
        (up (length (join_with '','' (map member_show kvs)) + 1) (advance 1 ?q))"
      by (rule Cons.IH) (use Cons.prems False t(4) in \<open>simp_all\<close>)
    moreover have "length (join_with '','' (map member_show (kv # kvs))) = length (write_json_string k) + 1 + length (value_show v) + 1 +
        length (join_with '','' (map member_show kvs))" by (simp add: kvs kv member_show_def)
    ultimately show ?thesis using m t(2,3) kv by (simp add: up_advance ac_simps)
  qed
qed simp

lemma array_value:
  assumes all: "list_all reads_shown a"
  shows "reads_shown (VArray a)"
proof -
  show ?thesis unfolding reads_shown_def
  proof (intro allI impI)
    fix p r
    assume f: "facing p (value_show (VArray a) @ r)" and d: "depth_le (MAX_DEPTH - ps_depth p) (VArray a)"
    then obtain d' where d': "MAX_DEPTH - ps_depth p = Suc d'" "list_all (depth_le d') a" by (auto split: nat.splits)
    define q where "q = advance 1 (p\<lparr>ps_depth := ps_depth p + 1\<rparr>)"
    have f': "facing p (CHR ''['' # join_with '','' (map value_show a) @ '']'' @ r)" using f by simp
    note f1 = facing_Cons [OF f']
    have q: "facing q (join_with '','' (map value_show a) @ '']'' @ r)" "ps_depth q = ps_depth p + 1"
      using f1(2) by (simp_all add: q_def facing_def)
    have dq: "ps_depth q \<le> MAX_DEPTH" "MAX_DEPTH - ps_depth q = d'" "ps_depth p < MAX_DEPTH" using d'(1) q(2) by simp_all
    have at_end: "up n q = advance (n + 1) p" for n by (simp add: q_def up_def advance_def)
    show "reads TValue p (read_back (VArray a)) (advance (length (value_show (VArray a))) p)"
    proof (cases "a = []")
      case True
      then have e: "facing q (CHR '']'' # r)" using q(1) by simp
      have "skip_ws q = q" using facing_ws [OF e] by simp
      then show ?thesis using reads_container(3) [OF f1(1) dq(3), folded q_def, OF refl refl] facing_Cons(1) [OF e] q(2) True
        by (simp add: leave_up at_end)
    next
      case False
      then obtain v vs where a: "a = v # vs" by (cases a) auto
      have "\<exists>t. join_with '','' (map value_show a) = value_show v @ t" using a by (cases vs) auto
      then obtain t where "facing q (value_show v @ t)" using q(1) by auto
      from facing_value [OF this] have "skip_ws q = q" "peek q \<noteq> Some CHR '']''" using start_plain [of "CHR '']''"] by auto
      moreover have "reads (TArray []) q (VArray ([] @ map read_back a)) (up (length (join_with '','' (map value_show a)) + 1) q)"
        by (rule array_shown) (use all False q dq d'(2) in simp_all)
      ultimately show ?thesis using reads_container(1) [OF f1(1) dq(3), folded q_def, OF refl refl] by (simp add: at_end)
    qed
  qed
qed

lemma object_value:
  assumes all: "list_all (\<lambda>(k, v). utf8_ok k \<and> reads_shown v) kvs"
  shows "reads_shown (VObject kvs)"
proof -
  have shape: "value_show (VObject kvs) = ''{'' @ join_with '','' (map member_show kvs) @ ''}''"
    by (simp add: member_show_def [abs_def] case_prod_unfold)
  show ?thesis unfolding reads_shown_def shape
  proof (intro allI impI)
    fix p r
    assume f: "facing p ((''{'' @ join_with '','' (map member_show kvs) @ ''}'') @ r)" and d: "depth_le (MAX_DEPTH - ps_depth p) (VObject kvs)"
    then obtain d' where d': "MAX_DEPTH - ps_depth p = Suc d'" "list_all (\<lambda>(k, v). depth_le d' v) kvs" by (auto split: nat.splits)
    define q where "q = advance 1 (p\<lparr>ps_depth := ps_depth p + 1\<rparr>)"
    have f': "facing p (CHR ''{'' # join_with '','' (map member_show kvs) @ ''}'' @ r)" using f by simp
    note f1 = facing_Cons [OF f']
    have q: "facing q (join_with '','' (map member_show kvs) @ ''}'' @ r)" "ps_depth q = ps_depth p + 1"
      using f1(2) by (simp_all add: q_def facing_def)
    have dq: "ps_depth q \<le> MAX_DEPTH" "MAX_DEPTH - ps_depth q = d'" "ps_depth p < MAX_DEPTH" using d'(1) q(2) by simp_all
    have at_end: "up n q = advance (n + 1) p" for n by (simp add: q_def up_def advance_def)
    show "reads TValue p (read_back (VObject kvs)) (advance (length (''{'' @ join_with '','' (map member_show kvs) @ ''}'')) p)"
    proof (cases "kvs = []")
      case True
      then have e: "facing q (CHR ''}'' # r)" using q(1) by simp
      have "skip_ws q = q" using facing_ws [OF e] by simp
      then show ?thesis using reads_container(4) [OF f1(1) dq(3), folded q_def, OF refl refl] facing_Cons(1) [OF e] q(2) True
        by (simp add: leave_up at_end)
    next
      case False
      then obtain m ms where kvs: "kvs = m # ms" by (cases kvs) auto
      have "\<exists>t. join_with '','' (map member_show kvs) = CHR 0x22 # t" using kvs by (cases ms) (simp_all add: member_show_def write_json_string_def)
      then obtain t where t: "facing q (CHR 0x22 # t)" using q(1) by auto
      have "skip_ws q = q" "peek q \<noteq> Some CHR ''}''" using facing_ws [OF t] facing_Cons(1) [OF t] by simp_all
      moreover have "reads (TObject []) q (VObject ([] @ map (\<lambda>(k, v). (k, read_back v)) kvs)) (up (length (join_with '','' (map member_show kvs)) + 1) q)"
        by (rule object_shown) (use all False q dq d'(2) in simp_all)
      ultimately show ?thesis using reads_container(2) [OF f1(1) dq(3), folded q_def, OF refl refl] by (simp add: at_end)
    qed
  qed
qed

lemma value_shown: "value_ok v \<Longrightarrow> reads_shown v"
proof (induction v)
  case (VArray a)
  then show ?case by (intro array_value) (simp add: list_all_iff)
next
  case (VObject kvs)
  then show ?case by (intro object_value) (fastforce simp: list_all_iff)
qed (simp_all add: scalar_shown)

lemma reads_enough: "reads t p v q \<Longrightarrow> parse_task n t p \<noteq> None \<Longrightarrow> parse_task n t p = p_ok v q"
proof -
  assume r: "reads t p v q" and n: "parse_task n t p \<noteq> None"
  obtain m where m: "parse_task m t p = p_ok v q" using r by (auto simp: reads_def)
  have "parse_task (max n m) t p = p_ok v q" using reads_at [OF m] by simp
  then show ?thesis using parse_task_mono [of n "max n m" t p] n by (auto simp: extends_def)
qed

lemma parse_value_show:
  assumes "value_ok v" and "depth_le MAX_DEPTH v"
  shows "value_parse (value_show v) = Some (Inr (read_back v))"
proof -
  define p where "p = \<lparr>ps_b = value_show v, ps_i = 0, ps_depth = 0\<rparr>"
  have f: "facing p (value_show v @ [])" by (simp add: p_def facing_def)
  have s: "skip_ws p = p" using facing_value [OF f] by blast
  have "reads TValue p (read_back v) (advance (length (value_show v)) p)"
    using value_shown [OF assms(1), unfolded reads_shown_def, rule_format, OF f] assms(2) by (simp add: p_def)
  moreover have "parse_task (2 * length (value_show v) + 2) TValue p \<noteq> None"
    by (rule yieldsD(2) [OF parse_task_yields]) (simp_all add: p_def task_pre_def task_size_def)
  ultimately have "parse_task (2 * length (value_show v) + 2) TValue p = p_ok (read_back v) (advance (length (value_show v)) p)"
    by (rule reads_enough)
  moreover have "skip_ws (advance (length (value_show v)) p) = advance (length (value_show v)) p"
    using facing_ws [OF facing_advance [OF f]] by simp
  ultimately show ?thesis using s by (simp add: value_parse_def p_def [symmetric] p_ok_def) (simp add: p_def)
qed

section \<open>The value read back\<close>

text \<open>A value agrees with another when they are equal up to the form of numbers: a finite float agrees with a number that compares equal to it, a float that is
  not finite with null.\<close>

fun agrees :: "json \<Rightarrow> json \<Rightarrow> bool" where
  "agrees (VFloat x) w = (if is_finite x then (case as_f64 w of Some y \<Rightarrow> f64_eq y x | None \<Rightarrow> False) else w = VNull)"
| "agrees (VArray a) w = (case w of VArray b \<Rightarrow> list_all2 agrees a b | _ \<Rightarrow> False)"
| "agrees (VObject kvs) w =
     (case w of VObject kws \<Rightarrow> list_all2 (\<lambda>(k, v) (l, u). l = k \<and> agrees v u) kvs kws | _ \<Rightarrow> False)"
| "agrees v w = (w = v)"

lemma sint_nat: "n < 2 ^ 63 \<Longrightarrow> sint (of_nat n :: i64) = int n"
  by (simp add: signed_of_nat signed_take_bit_int_eq_self)

lemma sint_neg: "n \<le> 2 ^ 63 \<Longrightarrow> sint (- of_nat n :: i64) = - int n"
proof -
  assume "n \<le> 2 ^ 63"
  then have "sint (word_of_int (- int n) :: i64) = - int n" by (subst sint_sbintrunc', subst signed_take_bit_int_eq_self) simp_all
  then show ?thesis by simp
qed

lemma decimal_mag_int: "0 \<le> k \<Longrightarrow> decimal_mag d k = round_mag (d * 10 ^ nat k) 1"
  by (simp add: decimal_mag_def)

lemma f64_eq_refl: "is_finite x \<Longrightarrow> f64_eq x x"
  by (simp add: f64_eq_def is_finite_def is_nan_def)

lemma float_back_int:
  assumes "is_finite x" and "round_mag n 1 = f64_mag x" and "if f64_negative x then n \<le> 2 ^ 63 else n < 2 ^ 63"
  shows "f64_eq (i64_as_f64 (if f64_negative x then - of_nat n else of_nat n)) x"
proof (cases "f64_negative x \<and> n = 0")
  case True
  have "round_mag 0 1 = 0" by (simp add: round_mag_def round_half_even_def floorlog_def)
  then have "f64_mag x = 0" "i64_as_f64 0 = 0" using assms(2) True by (simp_all add: i64_as_f64_def f64_of_def)
  then show ?thesis using True by (simp add: f64_eq_def is_nan_def f64_mag_def)
next
  case False
  have "sint (if f64_negative x then - of_nat n else of_nat n :: i64) = (if f64_negative x then - int n else int n)"
    using assms(3) sint_nat [of n] sint_neg [of n] by (simp split: if_splits)
  then have "i64_as_f64 (if f64_negative x then - of_nat n else of_nat n) = f64_of (f64_negative x) (f64_mag x)"
    using False assms(2) by (auto simp: i64_as_f64_def)
  then show ?thesis using f64_eq_refl [OF assms(1)] by (simp add: f64_parts)
qed

lemma float_back_agrees: "agrees (VFloat x) (float_back x)"
proof (cases "is_finite x")
  case True
  obtain d k where s: "shortest_decimal (f64_mag x) = (d, k)" by (cases "shortest_decimal (f64_mag x)") auto
  have r: "decimal_mag d k = f64_mag x" using shortest_reads [OF _ s] True by (simp add: is_finite_def)
  show ?thesis
  proof (cases "k < 0")
    case False
    then have "round_mag (d * 10 ^ nat k) 1 = f64_mag x" using r decimal_mag_int [of k d] by simp
    from float_back_int [OF True this] show ?thesis using True False f64_eq_refl [OF True]
      by (auto simp: float_back_def s as_f64_def Let_def split: if_splits)
  qed (use True f64_eq_refl s in \<open>simp add: float_back_def as_f64_def\<close>)
qed (simp add: float_back_def)

lemma read_back_agrees: "agrees v (read_back v)"
proof (induction v)
  case (VFloat x)
  then show ?case using float_back_agrees by simp
next
  case (VArray a)
  then show ?case by (simp add: list_all2_conv_all_nth)
next
  case (VObject kvs)
  have "case kvs ! i of (k, v) \<Rightarrow> agrees v (read_back v)" if "i < length kvs" for i
    using VObject [of "kvs ! i" "snd (kvs ! i)"] nth_mem [OF that] by (cases "kvs ! i") auto
  then show ?case by (auto simp: list_all2_conv_all_nth case_prod_unfold)
qed simp_all

text \<open>C15. Printing a value and parsing the text gives the value back: a value whose strings are well-formed and whose nesting is at most 128
  prints to a text the parser accepts, and what it reads agrees with the value, members in order. Integers come back exactly; a finite float
  comes back as a number equal to it (an integer when its shortest decimal has no point), one that is not finite as null.\<close>

theorem json_round_trip:
  assumes "value_ok v" and "depth_le MAX_DEPTH v"
  shows "\<exists>w. value_parse (value_show v) = Some (Inr w) \<and> agrees v w"
  using parse_value_show [OF assms] read_back_agrees by blast

theorem json_round_trip_witness:
  "\<exists>w. value_parse (value_show (VObject [(''id'', VInt 7), (''p'', VArray [VFloat 0x3FE0000000000000, VStr [CHR 0x22, CHR 0x0A], VNull])])) = Some (Inr w) \<and>
     agrees (VObject [(''id'', VInt 7), (''p'', VArray [VFloat 0x3FE0000000000000, VStr [CHR 0x22, CHR 0x0A], VNull])]) w"
proof -
  let ?v = "VObject [(''id'', VInt 7), (''p'', VArray [VFloat 0x3FE0000000000000, VStr [CHR 0x22, CHR 0x0A], VNull])]"
  have "value_ok ?v" by (simp add: utf8_ok_def)
  moreover have "depth_le MAX_DEPTH ?v" by (simp add: MAX_DEPTH_def)
  ultimately show ?thesis using json_round_trip by blast
qed

end
