(* ===== verification/Parley_Rpc.thy ===== *)
theory Parley_Rpc
  imports Parley_Frame Parley_Json_Text
begin

text \<open>The message layers of \<open>parley\<close>: JSON-RPC (\<open>src/usr/lib/parley/src/jsonrpc.rs\<close>) and the debug protocol (\<open>src/usr/lib/parley/src/dap.rs\<close>), what \<open>Server::send\<close>
  writes (\<open>transport.rs\<close>) and how the hosts of the editor \<open>nora\<close> take a frame apart (\<open>dispatch\<close> of \<open>lsp_host.rs\<close> and \<open>dap_host.rs\<close>). The locale
  \<open>message_grammar\<close> is what the two layers promise, and the exchange of messages is proved in it once.\<close>

section \<open>The message layer of JSON-RPC\<close>

definition obj :: "(string \<times> json) list \<Rightarrow> json" where
  "obj pairs = VObject pairs"

definition rpc_request :: "i64 \<Rightarrow> string \<Rightarrow> json \<Rightarrow> json" where
  "rpc_request mid method params =
     obj [(''jsonrpc'', VStr ''2.0''), (''id'', VInt mid), (''method'', VStr method), (''params'', params)]"

definition rpc_notification :: "string \<Rightarrow> json \<Rightarrow> json" where
  "rpc_notification method params =
     obj [(''jsonrpc'', VStr ''2.0''), (''method'', VStr method), (''params'', params)]"

definition rpc_response :: "json \<Rightarrow> json \<Rightarrow> json" where
  "rpc_response mid result = obj [(''jsonrpc'', VStr ''2.0''), (''id'', mid), (''result'', result)]"

definition rpc_error_response :: "json \<Rightarrow> i64 \<Rightarrow> string \<Rightarrow> json" where
  "rpc_error_response mid code message =
     (let err = obj [(''code'', VInt code), (''message'', VStr message)]
      in obj [(''jsonrpc'', VStr ''2.0''), (''id'', mid), (''error'', err)])"

record rpc_error =
  re_code :: i64
  re_message :: string
  re_data :: "json option"

datatype rpc_incoming =
    RpcResponse i64 "rpc_error + json"
  | RpcRequest json string json
  | RpcNotification string json

text \<open>\<open>take\<close>: the value at a key and the pairs left without it.\<close>

definition take_member :: "(string \<times> json) list \<Rightarrow> string \<Rightarrow> json option \<times> (string \<times> json) list" where
  "take_member kvs key =
     (case position (\<lambda>(k, _). k = key) kvs of
        None \<Rightarrow> (None, kvs)
      | Some i \<Rightarrow> (Some (snd (kvs ! i)), take i kvs @ drop (i + 1) kvs))"

definition take_str :: "(string \<times> json) list \<Rightarrow> string \<Rightarrow> string option \<times> (string \<times> json) list" where
  "take_str kvs key = (case take_member kvs key of (Some (VStr s), r) \<Rightarrow> (Some s, r) | (_, r) \<Rightarrow> (None, r))"

definition value_or :: "'a \<Rightarrow> 'a option \<Rightarrow> 'a" where
  "value_or d x = (case x of Some a \<Rightarrow> a | None \<Rightarrow> d)"

definition rpc_parse_error :: "json \<Rightarrow> rpc_error" where
  "rpc_parse_error v =
     \<lparr>re_code = value_or 0 (Option.bind (value_get v ''code'') as_i64),
      re_message = value_or [] (Option.bind (value_get v ''message'') as_str),
      re_data = value_get v ''data''\<rparr>"

definition rpc_classify :: "json \<Rightarrow> string + rpc_incoming" where
  "rpc_classify v =
     (case v of
        VObject kvs \<Rightarrow>
          (case take_str kvs ''method'' of (method, kvs) \<Rightarrow>
           case take_member kvs ''id'' of (mid, kvs) \<Rightarrow>
             (case (method, mid) of
                (Some m, Some i) \<Rightarrow> Inr (RpcRequest i m (value_or VNull (fst (take_member kvs ''params''))))
              | (Some m, None) \<Rightarrow> Inr (RpcNotification m (value_or VNull (fst (take_member kvs ''params''))))
              | (None, Some i) \<Rightarrow>
                  andthen (ok_or ''response id is not an integer'' (as_i64 i)) (\<lambda>mid.
                    case take_member kvs ''error'' of
                      (Some err, _) \<Rightarrow> Inr (RpcResponse mid (Inl (rpc_parse_error err)))
                    | (None, kvs) \<Rightarrow>
                        (case take_member kvs ''result'' of
                           (Some res, _) \<Rightarrow> Inr (RpcResponse mid (Inr res))
                         | (None, _) \<Rightarrow> Inl ''response has neither result nor error''))
              | (None, None) \<Rightarrow> Inl ''message has neither method nor id''))
      | _ \<Rightarrow> Inl ''message is not a JSON object'')"

section \<open>The message layer of the debug protocol\<close>

definition dap_request :: "i64 \<Rightarrow> string \<Rightarrow> json \<Rightarrow> json" where
  "dap_request seq command arguments =
     obj [(''seq'', VInt seq), (''type'', VStr ''request''), (''command'', VStr command), (''arguments'', arguments)]"

definition dap_response :: "i64 \<Rightarrow> i64 \<Rightarrow> string \<Rightarrow> json \<Rightarrow> json" where
  "dap_response seq request_seq command body =
     obj [(''seq'', VInt seq), (''type'', VStr ''response''), (''request_seq'', VInt request_seq),
          (''success'', VBool True), (''command'', VStr command), (''body'', body)]"

definition dap_error_response :: "i64 \<Rightarrow> i64 \<Rightarrow> string \<Rightarrow> string \<Rightarrow> json" where
  "dap_error_response seq request_seq command message =
     obj [(''seq'', VInt seq), (''type'', VStr ''response''), (''request_seq'', VInt request_seq),
          (''success'', VBool False), (''command'', VStr command), (''message'', VStr message)]"

record dap_reply =
  dr_request_seq :: i64
  dr_command :: string
  dr_success :: bool
  dr_message :: "string option"
  dr_body :: json

datatype dap_incoming =
    DapResponse dap_reply
  | DapEvent string json
  | DapRequest i64 string json

definition take_i64 :: "(string \<times> json) list \<Rightarrow> string \<Rightarrow> i64 option \<times> (string \<times> json) list" where
  "take_i64 kvs key = (case take_member kvs key of (v, r) \<Rightarrow> (Option.bind v as_i64, r))"

definition take_bool :: "(string \<times> json) list \<Rightarrow> string \<Rightarrow> bool option \<times> (string \<times> json) list" where
  "take_bool kvs key = (case take_member kvs key of (v, r) \<Rightarrow> (Option.bind v as_bool, r))"

definition dap_classify :: "json \<Rightarrow> string + dap_incoming" where
  "dap_classify v =
     (case v of
        VObject kvs \<Rightarrow>
          (case take_str kvs ''type'' of
             (None, _) \<Rightarrow> Inl ''message has no type''
           | (Some ty, kvs) \<Rightarrow>
               if ty = ''response'' then
                 (case take_i64 kvs ''request_seq'' of (rseq, kvs) \<Rightarrow>
                    andthen (ok_or ''response missing request_seq'' rseq) (\<lambda>request_seq.
                      case take_str kvs ''command'' of (command, kvs) \<Rightarrow>
                      case take_bool kvs ''success'' of (success, kvs) \<Rightarrow>
                      case take_str kvs ''message'' of (message, kvs) \<Rightarrow>
                        Inr (DapResponse \<lparr>dr_request_seq = request_seq, dr_command = value_or [] command,
                          dr_success = value_or False success, dr_message = message,
                          dr_body = value_or VNull (fst (take_member kvs ''body''))\<rparr>)))
               else if ty = ''event'' then
                 (case take_str kvs ''event'' of (ev, kvs) \<Rightarrow>
                    andthen (ok_or ''event missing event name'' ev) (\<lambda>event.
                      Inr (DapEvent event (value_or VNull (fst (take_member kvs ''body''))))))
               else if ty = ''request'' then
                 (case take_i64 kvs ''seq'' of (sq, kvs) \<Rightarrow>
                    andthen (ok_or ''reverse-request missing seq'' sq) (\<lambda>seq.
                      case take_str kvs ''command'' of (cmd, kvs) \<Rightarrow>
                        andthen (ok_or ''request missing command'' cmd) (\<lambda>command.
                          Inr (DapRequest seq command (value_or VNull (fst (take_member kvs ''arguments'')))))))
               else Inl ''unknown message type'')
      | _ \<Rightarrow> Inl ''message is not a JSON object'')"

section \<open>Sending and receiving\<close>

text \<open>The bytes \<open>Server::send\<close> writes for a message, and the first half of a host's \<open>dispatch\<close>: the message of a frame, None if it is skipped. A panic of the parser
  would be None outside.\<close>

definition wire_message :: "json \<Rightarrow> string" where
  "wire_message msg = frame_encode (value_show msg)"

definition dispatch_body :: "(json \<Rightarrow> string + 'm) \<Rightarrow> string \<Rightarrow> 'm option option" where
  "dispatch_body classify body =
     (case value_parse body of
        None \<Rightarrow> None
      | Some (Inl _) \<Rightarrow> Some None
      | Some (Inr v) \<Rightarrow> (case classify v of Inr m \<Rightarrow> Some (Some m) | Inl _ \<Rightarrow> Some None))"

text \<open>What a client receives over the reads of a connection: the messages of its frames, and the error that ended the stream.\<close>

definition receive :: "(json \<Rightarrow> string + 'm) \<Rightarrow> string list \<Rightarrow> 'm option option list \<times> frame_error option" where
  "receive classify chunks = (case run_reads decoder_new chunks of (bodies, e, _) \<Rightarrow> (map (dispatch_body classify) bodies, e))"

section \<open>The receiver gets what was sent\<close>

text \<open>A message grammar: how a message is built, and how what is read back of it is classified.\<close>

locale message_grammar =
  fixes build :: "'o \<Rightarrow> json" and classify :: "json \<Rightarrow> string + 'm"
    and sendable :: "'o \<Rightarrow> bool" and means :: "'o \<Rightarrow> 'm \<Rightarrow> bool"
  assumes fits: "sendable m \<Longrightarrow> value_ok (build m) \<and> depth_le MAX_DEPTH (build m) \<and> length (value_show (build m)) \<le> MAX_BODY_BYTES"
    and understood: "sendable m \<Longrightarrow> \<exists>i. classify (read_back (build m)) = Inr i \<and> means m i"
begin

lemma dispatch_sent: "sendable m \<Longrightarrow> \<exists>i. dispatch_body classify (value_show (build m)) = Some (Some i) \<and> means m i"
  using fits understood parse_value_show by (force simp: dispatch_body_def)

lemma dispatch_all:
  "list_all sendable ms \<Longrightarrow>
     \<exists>ins. map (dispatch_body classify) (map (value_show \<circ> build) ms) = map (Some \<circ> Some) ins \<and> list_all2 means ms ins"
proof (induction ms)
  case (Cons m ms)
  obtain i where "dispatch_body classify (value_show (build m)) = Some (Some i)" "means m i"
    using dispatch_sent [of m] Cons.prems by auto
  moreover obtain ins where "map (dispatch_body classify) (map (value_show \<circ> build) ms) = map (Some \<circ> Some) ins" "list_all2 means ms ins"
    using Cons.IH Cons.prems by fastforce
  ultimately show ?case by (intro exI [of _ "i # ins"]) (simp add: comp_def)
qed simp

lemma exchange:
  assumes "list_all sendable ms" and "concat chunks = concat (map (wire_message \<circ> build) ms)"
  shows "\<exists>ins. receive classify chunks = (map (Some \<circ> Some) ins, None) \<and> list_all2 means ms ins"
proof -
  let ?bodies = "map (value_show \<circ> build) ms"
  have "list_all (\<lambda>b. length b \<le> MAX_BODY_BYTES) ?bodies" using assms(1) fits by (auto simp: list_all_iff)
  moreover have "concat chunks = concat (map frame_encode ?bodies)" using assms(2) by (simp add: wire_message_def comp_def)
  ultimately have "run_reads decoder_new chunks = (?bodies, None, decoder_new)" by (rule run_reads_encoded)
  then show ?thesis using dispatch_all [OF assms(1)] by (simp add: receive_def)
qed

end

subsection \<open>JSON-RPC\<close>

datatype rpc_message =
    SendRequest i64 string json
  | SendNotification string json
  | SendResponse i64 json
  | SendError i64 i64 string

fun rpc_build :: "rpc_message \<Rightarrow> json" where
  "rpc_build (SendRequest n method params) = rpc_request n method params"
| "rpc_build (SendNotification method params) = rpc_notification method params"
| "rpc_build (SendResponse n result) = rpc_response (VInt n) result"
| "rpc_build (SendError n code message) = rpc_error_response (VInt n) code message"

text \<open>A message fits when its parts are well-formed and leave room for the object around them.\<close>

fun rpc_parts_ok :: "rpc_message \<Rightarrow> bool" where
  "rpc_parts_ok (SendRequest n method params) = (utf8_ok method \<and> value_ok params \<and> depth_le (MAX_DEPTH - 1) params)"
| "rpc_parts_ok (SendNotification method params) = (utf8_ok method \<and> value_ok params \<and> depth_le (MAX_DEPTH - 1) params)"
| "rpc_parts_ok (SendResponse n result) = (value_ok result \<and> depth_le (MAX_DEPTH - 1) result)"
| "rpc_parts_ok (SendError n code message) = utf8_ok message"

definition rpc_sendable :: "rpc_message \<Rightarrow> bool" where
  "rpc_sendable m \<longleftrightarrow> rpc_parts_ok m \<and> length (value_show (rpc_build m)) \<le> MAX_BODY_BYTES"

fun rpc_means :: "rpc_message \<Rightarrow> rpc_incoming \<Rightarrow> bool" where
  "rpc_means (SendRequest n method params) i = (case i of RpcRequest k m p \<Rightarrow> k = VInt n \<and> m = method \<and> agrees params p | _ \<Rightarrow> False)"
| "rpc_means (SendNotification method params) i = (case i of RpcNotification m p \<Rightarrow> m = method \<and> agrees params p | _ \<Rightarrow> False)"
| "rpc_means (SendResponse n result) i = (case i of RpcResponse k (Inr r) \<Rightarrow> k = n \<and> agrees result r | _ \<Rightarrow> False)"
| "rpc_means (SendError n code message) i =
     (case i of RpcResponse k (Inl e) \<Rightarrow> k = n \<and> e = \<lparr>re_code = code, re_message = message, re_data = None\<rparr> | _ \<Rightarrow> False)"

lemma ascii_ok [simp]:
  "utf8_ok ''jsonrpc''" "utf8_ok ''id''" "utf8_ok ''method''" "utf8_ok ''params''" "utf8_ok ''result''" "utf8_ok ''error''" "utf8_ok ''code''"
  "utf8_ok ''message''" "utf8_ok ''2.0''" "utf8_ok ''seq''" "utf8_ok ''type''" "utf8_ok ''request''" "utf8_ok ''response''" "utf8_ok ''command''"
  "utf8_ok ''arguments''" "utf8_ok ''request_seq''" "utf8_ok ''success''" "utf8_ok ''body''"
  by (simp_all add: utf8_ascii)

lemmas build_defs = rpc_request_def rpc_notification_def rpc_response_def rpc_error_response_def obj_def Let_def
  and take_defs = take_str_def take_member_def value_or_def take_i64_def take_bool_def

lemma rpc_fits: "rpc_parts_ok m \<Longrightarrow> value_ok (rpc_build m) \<and> depth_le MAX_DEPTH (rpc_build m)"
  by (cases m) (simp_all add: build_defs MAX_DEPTH_def)

lemma rpc_understood: "\<exists>i. rpc_classify (read_back (rpc_build m)) = Inr i \<and> rpc_means m i"
  using read_back_agrees
  by (cases m) (simp_all add: build_defs rpc_classify_def take_defs rpc_parse_error_def value_get_def as_i64_def as_str_def)

interpretation rpc: message_grammar rpc_build rpc_classify rpc_sendable rpc_means
  by unfold_locales (use rpc_fits rpc_understood in \<open>auto simp: rpc_sendable_def\<close>)

subsection \<open>The debug protocol\<close>

datatype dap_message =
    DapSendRequest i64 string json
  | DapSendResponse i64 i64 string json
  | DapSendError i64 i64 string string

fun dap_build :: "dap_message \<Rightarrow> json" where
  "dap_build (DapSendRequest seq command arguments) = dap_request seq command arguments"
| "dap_build (DapSendResponse seq rseq command body) = dap_response seq rseq command body"
| "dap_build (DapSendError seq rseq command message) = dap_error_response seq rseq command message"

fun dap_parts_ok :: "dap_message \<Rightarrow> bool" where
  "dap_parts_ok (DapSendRequest seq command arguments) = (utf8_ok command \<and> value_ok arguments \<and> depth_le (MAX_DEPTH - 1) arguments)"
| "dap_parts_ok (DapSendResponse seq rseq command body) = (utf8_ok command \<and> value_ok body \<and> depth_le (MAX_DEPTH - 1) body)"
| "dap_parts_ok (DapSendError seq rseq command message) = (utf8_ok command \<and> utf8_ok message)"

definition dap_sendable :: "dap_message \<Rightarrow> bool" where
  "dap_sendable m \<longleftrightarrow> dap_parts_ok m \<and> length (value_show (dap_build m)) \<le> MAX_BODY_BYTES"

fun dap_means :: "dap_message \<Rightarrow> dap_incoming \<Rightarrow> bool" where
  "dap_means (DapSendRequest seq command arguments) i =
     (case i of DapRequest s c a \<Rightarrow> s = seq \<and> c = command \<and> agrees arguments a | _ \<Rightarrow> False)"
| "dap_means (DapSendResponse seq rseq command body) i =
     (case i of DapResponse r \<Rightarrow> dr_request_seq r = rseq \<and> dr_command r = command \<and> dr_success r \<and> dr_message r = None \<and> agrees body (dr_body r)
      | _ \<Rightarrow> False)"
| "dap_means (DapSendError seq rseq command message) i =
     (case i of DapResponse r \<Rightarrow> r = \<lparr>dr_request_seq = rseq, dr_command = command, dr_success = False, dr_message = Some message, dr_body = VNull\<rparr>
      | _ \<Rightarrow> False)"

lemmas dap_defs = dap_request_def dap_response_def dap_error_response_def obj_def

lemma dap_fits: "dap_parts_ok m \<Longrightarrow> value_ok (dap_build m) \<and> depth_le MAX_DEPTH (dap_build m)"
  by (cases m) (simp_all add: dap_defs MAX_DEPTH_def)

lemma dap_understood: "\<exists>i. dap_classify (read_back (dap_build m)) = Inr i \<and> dap_means m i"
  using read_back_agrees
  by (cases m) (simp_all add: dap_defs dap_classify_def take_defs as_i64_def as_bool_def)

interpretation dap: message_grammar dap_build dap_classify dap_sendable dap_means
  by unfold_locales (use dap_fits dap_understood in \<open>auto simp: dap_sendable_def\<close>)

text \<open>C12. The framing, the codec and the message layer compose: the JSON-RPC messages one side builds and sends arrive at the other, however the pipe
  cuts the bytes, as the same requests, notifications, results and errors in the same order, with the same ids and methods and with parameters and results that
  agree; none is skipped, and the stream has no error.\<close>

theorem rpc_messages_arrive:
  assumes "list_all rpc_sendable ms" and "concat chunks = concat (map (wire_message \<circ> rpc_build) ms)"
  shows "\<exists>ins. receive rpc_classify chunks = (map (Some \<circ> Some) ins, None) \<and> list_all2 rpc_means ms ins"
  using assms by (rule rpc.exchange)

theorem rpc_messages_arrive_witness:
  "\<exists>ins. receive rpc_classify (map (\<lambda>c. [c]) (wire_message (rpc_request 1 ''initialize'' VNull))) = (map (Some \<circ> Some) ins, None) \<and>
     list_all2 rpc_means [SendRequest 1 ''initialize'' VNull] ins"
proof -
  have "length (value_show (rpc_build (SendRequest 1 ''initialize'' VNull))) \<le> 100" by code_simp
  then have "list_all rpc_sendable [SendRequest 1 ''initialize'' VNull]"
    by (simp add: rpc_sendable_def MAX_BODY_BYTES_def utf8_ascii)
  from rpc_messages_arrive [OF this] show ?thesis by simp
qed

text \<open>The same for the debug protocol: requests, successful responses and refusals arrive as such, in order, with their sequence numbers, and a response is taken
  for a success exactly when it was built as one.\<close>

theorem dap_messages_arrive:
  assumes "list_all dap_sendable ms" and "concat chunks = concat (map (wire_message \<circ> dap_build) ms)"
  shows "\<exists>ins. receive dap_classify chunks = (map (Some \<circ> Some) ins, None) \<and> list_all2 dap_means ms ins"
  using assms by (rule dap.exchange)

theorem dap_messages_arrive_witness:
  "\<exists>ins. receive dap_classify [wire_message (dap_error_response 2 7 ''run'' ''no'')] = (map (Some \<circ> Some) ins, None) \<and>
     list_all2 dap_means [DapSendError 2 7 ''run'' ''no''] ins"
proof -
  have "length (value_show (dap_build (DapSendError 2 7 ''run'' ''no''))) \<le> 200" by code_simp
  then have "list_all dap_sendable [DapSendError 2 7 ''run'' ''no'']"
    by (simp add: dap_sendable_def MAX_BODY_BYTES_def utf8_ascii)
  from dap_messages_arrive [OF this] show ?thesis by simp
qed

end
