(* ===== verification/Parley_Lsp.thy ===== *)
theory Parley_Lsp
  imports Parley_Rpc
begin

text \<open>The language client of \<open>parley\<close> (\<open>src/usr/lib/parley/src/lsp.rs\<close>): the client record with its pending requests and diagnostics, the messages it builds, the
  results it reads and the actions it takes, the conversion of positions and the file URIs. The counter of the ids panics (None) at the end of its range. A session
  is a sequence of questions and incoming messages, and the lemmas relate what is done with a reply to the log of the session.\<close>

section \<open>The client\<close>

record lsp_position =
  lp_line :: u32
  lp_character :: u32

definition position_default :: lsp_position where
  "position_default = \<lparr>lp_line = 0, lp_character = 0\<rparr>"

record lsp_range =
  lr_start :: lsp_position
  lr_end :: lsp_position

definition range_default :: lsp_range where
  "range_default = \<lparr>lr_start = position_default, lr_end = position_default\<rparr>"

datatype severity = SevError | SevWarning | SevInformation | SevHint

record diagnostic =
  dg_range :: lsp_range
  dg_severity :: severity
  dg_message :: string
  dg_source :: "string option"

record lsp_location =
  lo_uri :: string
  lo_range :: lsp_range

record completion_item =
  ci_label :: string
  ci_detail :: "string option"
  ci_insert_text :: string

datatype position_encoding = Utf8 | Utf16 | Utf32

datatype pending = PInitialize | PDefinition | PHover | PCompletion | PShutdown

definition supersedes :: "pending \<Rightarrow> bool" where
  "supersedes k \<longleftrightarrow> k = PDefinition \<or> k = PHover \<or> k = PCompletion"

datatype lsp_action =
    ActSend json
  | ActReady
  | ActDiagnostics string
  | ActDefinition "lsp_location option"
  | ActHover "string option"
  | ActCompletion "completion_item list"
  | ActLog string
  | ActFailed string
  | ActIgnored

record lsp_client =
  lc_next_id :: i64
  lc_pending :: "(i64 \<times> pending) list"
  lc_diagnostics :: "(string \<times> diagnostic list) list"
  lc_encoding :: position_encoding
  lc_ready :: bool

definition lsp_new :: lsp_client where
  "lsp_new = \<lparr>lc_next_id = 1, lc_pending = [], lc_diagnostics = [], lc_encoding = Utf16, lc_ready = False\<rparr>"

definition diagnostics_for :: "lsp_client \<Rightarrow> string \<Rightarrow> diagnostic list" where
  "diagnostics_for c uri = value_or [] (map_option snd (find (\<lambda>(u, _). u = uri) (lc_diagnostics c)))"

definition lsp_forget :: "lsp_client \<Rightarrow> string \<Rightarrow> lsp_client" where
  "lsp_forget c uri = c\<lparr>lc_diagnostics := filter (\<lambda>(u, _). u \<noteq> uri) (lc_diagnostics c)\<rparr>"

text \<open>The counter of the ids is an \<open>i64\<close>; passing its end is a panic.\<close>

definition lsp_mint :: "lsp_client \<Rightarrow> pending \<Rightarrow> (i64 \<times> lsp_client) option" where
  "lsp_mint c kind =
     (let p = (if supersedes kind then filter (\<lambda>(_, k). k \<noteq> kind) (lc_pending c) else lc_pending c);
          n = lc_next_id c
      in if sint n = 2 ^ 63 - 1 then None
         else Some (n, c\<lparr>lc_pending := p @ [(n, kind)], lc_next_id := n + 1\<rparr>))"

definition lsp_take_pending :: "lsp_client \<Rightarrow> i64 \<Rightarrow> pending option \<times> lsp_client" where
  "lsp_take_pending c n =
     (case position (\<lambda>(i, _). i = n) (lc_pending c) of
        None \<Rightarrow> (None, c)
      | Some ix \<Rightarrow> (Some (snd (lc_pending c ! ix)),
          c\<lparr>lc_pending := take ix (lc_pending c) @ drop (ix + 1) (lc_pending c)\<rparr>))"

section \<open>Outgoing messages\<close>

definition initialize_params :: "string \<Rightarrow> json" where
  "initialize_params root_uri =
     (let caps = obj
        [(''general'', obj [(''positionEncodings'', VArray [VStr ''utf-8'', VStr ''utf-16''])]),
         (''textDocument'', obj
           [(''synchronization'', obj [(''didSave'', VBool True)]),
            (''publishDiagnostics'', obj []),
            (''hover'', obj [(''contentFormat'', VArray [VStr ''plaintext'', VStr ''markdown''])]),
            (''definition'', obj []),
            (''completion'', obj [(''completionItem'', obj [(''snippetSupport'', VBool False)])])])]
      in obj [(''processId'', VNull),
              (''clientInfo'', obj [(''name'', VStr ''nora'')]),
              (''rootUri'', VStr root_uri),
              (''capabilities'', caps),
              (''workspaceFolders'', VArray [obj [(''uri'', VStr root_uri), (''name'', VStr ''workspace'')]])])"

definition lsp_initialize :: "lsp_client \<Rightarrow> string \<Rightarrow> (json \<times> lsp_client) option" where
  "lsp_initialize c root_uri =
     map_option (\<lambda>(n, c). (rpc_request n ''initialize'' (initialize_params root_uri), c)) (lsp_mint c PInitialize)"

definition lsp_initialized :: json where
  "lsp_initialized = rpc_notification ''initialized'' (obj [])"

definition lsp_shutdown :: "lsp_client \<Rightarrow> (json \<times> lsp_client) option" where
  "lsp_shutdown c = map_option (\<lambda>(n, c). (rpc_request n ''shutdown'' VNull, c)) (lsp_mint c PShutdown)"

definition lsp_exit :: json where
  "lsp_exit = rpc_notification ''exit'' VNull"

definition did_open :: "string \<Rightarrow> string \<Rightarrow> i64 \<Rightarrow> string \<Rightarrow> json" where
  "did_open uri language_id version doc =
     rpc_notification ''textDocument/didOpen''
       (obj [(''textDocument'', obj [(''uri'', VStr uri), (''languageId'', VStr language_id),
          (''version'', VInt version), (''text'', VStr doc)])])"

definition did_change_full :: "string \<Rightarrow> i64 \<Rightarrow> string \<Rightarrow> json" where
  "did_change_full uri version doc =
     rpc_notification ''textDocument/didChange''
       (obj [(''textDocument'', obj [(''uri'', VStr uri), (''version'', VInt version)]),
             (''contentChanges'', VArray [obj [(''text'', VStr doc)]])])"

definition did_save :: "string \<Rightarrow> string \<Rightarrow> json" where
  "did_save uri doc =
     rpc_notification ''textDocument/didSave'' (obj [(''textDocument'', obj [(''uri'', VStr uri)]), (''text'', VStr doc)])"

definition did_close :: "string \<Rightarrow> json" where
  "did_close uri = rpc_notification ''textDocument/didClose'' (obj [(''textDocument'', obj [(''uri'', VStr uri)])])"

definition text_document_position :: "string \<Rightarrow> lsp_position \<Rightarrow> json" where
  "text_document_position uri pos =
     obj [(''textDocument'', obj [(''uri'', VStr uri)]),
          (''position'', obj [(''line'', VInt (ucast (lp_line pos))), (''character'', VInt (ucast (lp_character pos)))])]"

definition lsp_definition :: "lsp_client \<Rightarrow> string \<Rightarrow> lsp_position \<Rightarrow> (json \<times> lsp_client) option" where
  "lsp_definition c uri pos =
     map_option (\<lambda>(n, c). (rpc_request n ''textDocument/definition'' (text_document_position uri pos), c)) (lsp_mint c PDefinition)"

definition lsp_hover :: "lsp_client \<Rightarrow> string \<Rightarrow> lsp_position \<Rightarrow> (json \<times> lsp_client) option" where
  "lsp_hover c uri pos =
     map_option (\<lambda>(n, c). (rpc_request n ''textDocument/hover'' (text_document_position uri pos), c)) (lsp_mint c PHover)"

definition lsp_completion :: "lsp_client \<Rightarrow> string \<Rightarrow> lsp_position \<Rightarrow> (json \<times> lsp_client) option" where
  "lsp_completion c uri pos =
     map_option (\<lambda>(n, c). (rpc_request n ''textDocument/completion'' (text_document_position uri pos), c)) (lsp_mint c PCompletion)"

section \<open>Reading results\<close>

definition parse_encoding :: "json \<Rightarrow> position_encoding" where
  "parse_encoding init_result =
     (case Option.bind (Option.bind (value_get init_result ''capabilities'') (\<lambda>c. value_get c ''positionEncoding'')) as_str of
        Some s \<Rightarrow> if s = ''utf-8'' then Utf8 else if s = ''utf-32'' then Utf32 else Utf16
      | None \<Rightarrow> Utf16)"

text \<open>\<open>max(0) as u32\<close> of an \<open>i64\<close>.\<close>

definition max0_u32 :: "i64 \<Rightarrow> u32" where
  "max0_u32 i = (if sint i < 0 then 0 else ucast i)"

definition parse_position :: "json \<Rightarrow> lsp_position" where
  "parse_position v =
     \<lparr>lp_line = max0_u32 (value_or 0 (Option.bind (value_get v ''line'') as_i64)),
      lp_character = max0_u32 (value_or 0 (Option.bind (value_get v ''character'') as_i64))\<rparr>"

definition parse_range :: "json \<Rightarrow> lsp_range" where
  "parse_range v =
     \<lparr>lr_start = value_or position_default (map_option parse_position (value_get v ''start'')),
      lr_end = value_or position_default (map_option parse_position (value_get v ''end''))\<rparr>"

definition parse_severity :: "json option \<Rightarrow> severity" where
  "parse_severity v =
     (case Option.bind v as_i64 of
        Some n \<Rightarrow> if n = 2 then SevWarning else if n = 3 then SevInformation else if n = 4 then SevHint else SevError
      | None \<Rightarrow> SevError)"

definition parse_diagnostics :: "json \<Rightarrow> diagnostic list" where
  "parse_diagnostics params =
     (case Option.bind (value_get params ''diagnostics'') as_array of
        None \<Rightarrow> []
      | Some arr \<Rightarrow>
          map (\<lambda>d. \<lparr>dg_range = value_or range_default (map_option parse_range (value_get d ''range'')),
                   dg_severity = parse_severity (value_get d ''severity''),
                   dg_message = value_or [] (Option.bind (value_get d ''message'') as_str),
                   dg_source = Option.bind (value_get d ''source'') as_str\<rparr>) arr)"

definition or_else :: "'a option \<Rightarrow> 'a option \<Rightarrow> 'a option" where
  "or_else a b = (case a of Some x \<Rightarrow> Some x | None \<Rightarrow> b)"

definition one_location :: "json \<Rightarrow> lsp_location option" where
  "one_location v =
     (case Option.bind (value_get v ''targetUri'') as_str of
        Some uri \<Rightarrow>
          Some \<lparr>lo_uri = uri,
            lo_range = value_or range_default
              (map_option parse_range (or_else (value_get v ''targetSelectionRange'') (value_get v ''targetRange'')))\<rparr>
      | None \<Rightarrow>
          map_option (\<lambda>uri. \<lparr>lo_uri = uri, lo_range = value_or range_default (map_option parse_range (value_get v ''range''))\<rparr>)
            (Option.bind (value_get v ''uri'') as_str))"

definition parse_definition :: "json \<Rightarrow> lsp_location option" where
  "parse_definition v =
     (case v of
        VArray items \<Rightarrow> (case items of [] \<Rightarrow> None | x # _ \<Rightarrow> one_location x)
      | VNull \<Rightarrow> None
      | _ \<Rightarrow> one_location v)"

definition marked_text :: "json \<Rightarrow> string option" where
  "marked_text v = (case v of VStr s \<Rightarrow> Some s | _ \<Rightarrow> Option.bind (value_get v ''value'') as_str)"

definition parse_hover :: "json \<Rightarrow> string option" where
  "parse_hover v = do {
     contents \<leftarrow> value_get v ''contents'';
     doc \<leftarrow> (case contents of
               VArray items \<Rightarrow>
                 let parts = List.map_filter marked_text items
                 in if parts = [] then None else Some (join_with [CHR 0x0A] parts)
             | _ \<Rightarrow> marked_text contents);
     if trim doc = [] then None else Some doc
   }"

definition completion_of :: "json \<Rightarrow> completion_item option" where
  "completion_of it = do {
     label \<leftarrow> Option.bind (value_get it ''label'') as_str;
     let insert = value_or label (or_else (Option.bind (value_get it ''insertText'') as_str)
           (Option.bind (Option.bind (value_get it ''textEdit'') (\<lambda>e. value_get e ''newText'')) as_str));
     Some \<lparr>ci_label = label, ci_detail = Option.bind (value_get it ''detail'') as_str, ci_insert_text = insert\<rparr>
   }"

definition parse_completion :: "json \<Rightarrow> completion_item list" where
  "parse_completion v =
     (case v of
        VArray a \<Rightarrow> List.map_filter completion_of a
      | _ \<Rightarrow> (case Option.bind (value_get v ''items'') as_array of
                Some a \<Rightarrow> List.map_filter completion_of a
              | None \<Rightarrow> []))"

section \<open>Incoming messages\<close>

definition lsp_on_response :: "lsp_client \<Rightarrow> i64 \<Rightarrow> rpc_error + json \<Rightarrow> lsp_action \<times> lsp_client" where
  "lsp_on_response c n result =
     (case lsp_take_pending c n of
        (None, c) \<Rightarrow> (ActIgnored, c)
      | (Some kind, c) \<Rightarrow>
          (case result of
             Inl e \<Rightarrow>
               ((case kind of
                   PHover \<Rightarrow> ActHover None
                 | PDefinition \<Rightarrow> ActDefinition None
                 | PCompletion \<Rightarrow> ActCompletion []
                 | _ \<Rightarrow> ActFailed (re_message e)), c)
           | Inr v \<Rightarrow>
               (case kind of
                  PInitialize \<Rightarrow> (ActReady, c\<lparr>lc_encoding := parse_encoding v, lc_ready := True\<rparr>)
                | PDefinition \<Rightarrow> (ActDefinition (parse_definition v), c)
                | PHover \<Rightarrow> (ActHover (parse_hover v), c)
                | PCompletion \<Rightarrow> (ActCompletion (parse_completion v), c)
                | PShutdown \<Rightarrow> (ActIgnored, c))))"

text \<open>The store of \<open>publishDiagnostics\<close>: the entry of a file is replaced in place, or added at the end.\<close>

definition store_diagnostics :: "(string \<times> diagnostic list) list \<Rightarrow> string \<Rightarrow> diagnostic list \<Rightarrow> (string \<times> diagnostic list) list" where
  "store_diagnostics ds uri l =
     (case position (\<lambda>(u, _). u = uri) ds of
        Some i \<Rightarrow> ds[i := (fst (ds ! i), l)]
      | None \<Rightarrow> ds @ [(uri, l)])"

definition lsp_on_notification :: "lsp_client \<Rightarrow> string \<Rightarrow> json \<Rightarrow> lsp_action \<times> lsp_client" where
  "lsp_on_notification c method params =
     (if method = ''textDocument/publishDiagnostics'' then
        (case Option.bind (value_get params ''uri'') as_str of
           None \<Rightarrow> (ActIgnored, c)
         | Some uri \<Rightarrow>
             (ActDiagnostics uri, c\<lparr>lc_diagnostics := store_diagnostics (lc_diagnostics c) uri (parse_diagnostics params)\<rparr>))
      else if method = ''window/logMessage'' \<or> method = ''window/showMessage'' then
        (case Option.bind (value_get params ''message'') as_str of
           Some m \<Rightarrow> (ActLog m, c)
         | None \<Rightarrow> (ActIgnored, c))
      else (ActIgnored, c))"

definition lsp_on_server_request :: "json \<Rightarrow> string \<Rightarrow> json \<Rightarrow> lsp_action" where
  "lsp_on_server_request mid method params =
     (if method = ''workspace/configuration'' then
        let n = value_or 0 (map_option length (Option.bind (value_get params ''items'') as_array))
        in ActSend (rpc_response mid (VArray (replicate n (obj []))))
      else if method \<in> {''client/registerCapability'', ''client/unregisterCapability'', ''window/workDoneProgress/create'',
                        ''workspace/semanticTokens/refresh'', ''workspace/codeLens/refresh'', ''workspace/diagnostic/refresh''} then
        ActSend (rpc_response mid VNull)
      else ActSend (rpc_error_response mid (- 32601) ''method not found''))"

definition lsp_handle :: "lsp_client \<Rightarrow> rpc_incoming \<Rightarrow> lsp_action \<times> lsp_client" where
  "lsp_handle c msg =
     (case msg of
        RpcResponse n result \<Rightarrow> lsp_on_response c n result
      | RpcNotification method params \<Rightarrow> lsp_on_notification c method params
      | RpcRequest mid method params \<Rightarrow> (lsp_on_server_request mid method params, c))"

section \<open>A session\<close>

text \<open>A session is a sequence of questions, incoming messages and forgotten files. Its hist has the ids of the questions and what was done with each reply.\<close>

datatype lsp_op = Ask pending string lsp_position | Hear rpc_incoming | Forget string

datatype lsp_event = Asked i64 pending | Heard i64 lsp_action

definition lsp_ask :: "lsp_client \<Rightarrow> pending \<Rightarrow> string \<Rightarrow> lsp_position \<Rightarrow> (json \<times> lsp_client) option" where
  "lsp_ask c kind uri pos =
     (case kind of
        PInitialize \<Rightarrow> lsp_initialize c uri
      | PDefinition \<Rightarrow> lsp_definition c uri pos
      | PHover \<Rightarrow> lsp_hover c uri pos
      | PCompletion \<Rightarrow> lsp_completion c uri pos
      | PShutdown \<Rightarrow> lsp_shutdown c)"

definition lsp_step :: "lsp_client \<Rightarrow> lsp_op \<Rightarrow> (lsp_event list \<times> lsp_client) option" where
  "lsp_step c op =
     (case op of
        Ask kind uri pos \<Rightarrow> do {
          (msg, c') \<leftarrow> lsp_ask c kind uri pos;
          n \<leftarrow> Option.bind (value_get msg ''id'') as_i64;
          Some ([Asked n kind], c')
        }
      | Hear msg \<Rightarrow>
          (case lsp_handle c msg of (a, c') \<Rightarrow>
             Some (case msg of RpcResponse n _ \<Rightarrow> [Heard n a] | _ \<Rightarrow> [], c'))
      | Forget uri \<Rightarrow> Some ([], lsp_forget c uri))"

fun lsp_run :: "lsp_client \<Rightarrow> lsp_event list \<Rightarrow> lsp_op list \<Rightarrow> (lsp_client \<times> lsp_event list) option" where
  "lsp_run c hist [] = Some (c, hist)"
| "lsp_run c hist (op # ops) =
     (case lsp_step c op of
        None \<Rightarrow> None
      | Some (es, c') \<Rightarrow> lsp_run c' (hist @ es) ops)"

text \<open>A question is awaited when it has been asked, no reply to it has been heard since, and, if it follows the cursor, no question of its kind has been
  asked since. \<open>action_of\<close> are the actions a reply to a question of a kind can give.\<close>

definition awaited :: "lsp_event list \<Rightarrow> i64 \<Rightarrow> pending \<Rightarrow> bool" where
  "awaited hist n k \<longleftrightarrow>
     (\<exists>l1 l2. hist = l1 @ Asked n k # l2 \<and> (\<forall>a. Heard n a \<notin> set l2) \<and> (supersedes k \<longrightarrow> (\<forall>m. Asked m k \<notin> set l2)))"

fun action_of :: "pending \<Rightarrow> lsp_action \<Rightarrow> bool" where
  "action_of PInitialize a = (case a of ActReady \<Rightarrow> True | ActFailed _ \<Rightarrow> True | _ \<Rightarrow> False)"
| "action_of PDefinition a = (case a of ActDefinition _ \<Rightarrow> True | _ \<Rightarrow> False)"
| "action_of PHover a = (case a of ActHover _ \<Rightarrow> True | _ \<Rightarrow> False)"
| "action_of PCompletion a = (case a of ActCompletion _ \<Rightarrow> True | _ \<Rightarrow> False)"
| "action_of PShutdown a = (case a of ActIgnored \<Rightarrow> True | ActFailed _ \<Rightarrow> True | _ \<Rightarrow> False)"

definition reply_right :: "lsp_event list \<Rightarrow> i64 \<Rightarrow> lsp_action \<Rightarrow> bool" where
  "reply_right hist n a \<longleftrightarrow> (\<exists>k. awaited hist n k \<and> action_of k a) \<or> (\<nexists>k. awaited hist n k) \<and> a = ActIgnored"

definition log_right :: "lsp_event list \<Rightarrow> bool" where
  "log_right hist \<longleftrightarrow> (\<forall>l1 n a l2. hist = l1 @ Heard n a # l2 \<longrightarrow> reply_right l1 n a)"

lemma snoc_split: "xs @ [e] = l1 @ x # l2 \<longleftrightarrow> l2 = [] \<and> l1 = xs \<and> x = e \<or> (\<exists>l3. l2 = l3 @ [e] \<and> xs = l1 @ x # l3)"
  by (cases l2 rule: rev_cases) auto

lemma split_snoc: "(\<exists>l1 l2. xs @ [e] = l1 @ x # l2 \<and> R l2) \<longleftrightarrow> x = e \<and> R [] \<or> (\<exists>l1 l2. xs = l1 @ x # l2 \<and> R (l2 @ [e]))"
  unfolding snoc_split by metis

lemma awaited_asked:
  "awaited (hist @ [Asked m j]) n k \<longleftrightarrow> n = m \<and> k = j \<or> awaited hist n k \<and> \<not> (supersedes k \<and> k = j)"
  unfolding awaited_def split_snoc by simp blast

lemma awaited_heard: "awaited (hist @ [Heard m a]) n k \<longleftrightarrow> awaited hist n k \<and> n \<noteq> m"
  unfolding awaited_def split_snoc by simp blast

lemma awaited_Nil [simp]: "\<not> awaited [] n k"
  by (simp add: awaited_def)

lemma log_right_simps [simp]:
  "log_right []" "log_right (hist @ [Asked n k]) \<longleftrightarrow> log_right hist"
  "log_right (hist @ [Heard n a]) \<longleftrightarrow> log_right hist \<and> reply_right hist n a"
  unfolding log_right_def snoc_split by auto

text \<open>The pending list holds the awaited questions, under distinct ids below the next one.\<close>

definition client_inv :: "lsp_client \<Rightarrow> lsp_event list \<Rightarrow> bool" where
  "client_inv c hist \<longleftrightarrow> (\<forall>n k. (n, k) \<in> set (lc_pending c) \<longleftrightarrow> awaited hist n k) \<and> distinct (map fst (lc_pending c)) \<and>
     (\<forall>n\<in>fst ` set (lc_pending c). sint n < sint (lc_next_id c)) \<and> log_right hist"

lemma sint_Suc: "sint (n :: i64) \<noteq> 2 ^ 63 - 1 \<Longrightarrow> sint (n + 1) = sint n + 1"
proof -
  assume n: "sint n \<noteq> 2 ^ 63 - 1"
  have "- (2 ^ 63) \<le> sint n" "sint n < 2 ^ 63" using sint_ge [of n] sint_lt [of n] by simp_all
  then have "sint (word_of_int (sint n + 1) :: i64) = sint n + 1"
    using n by (subst sint_sbintrunc', subst signed_take_bit_int_eq_self) simp_all
  then show ?thesis by simp
qed

lemma ask_mint:
  assumes "lsp_mint c kind = Some (n, c')"
  shows "\<exists>msg. lsp_ask c kind uri pos = Some (msg, c') \<and> Option.bind (value_get msg ''id'') as_i64 = Some n"
  using assms
  by (cases kind) (simp_all add: lsp_ask_def lsp_initialize_def lsp_definition_def lsp_hover_def lsp_completion_def lsp_shutdown_def
      rpc_request_def obj_def value_get_def as_i64_def)

lemma mint_inv:
  assumes "client_inv c hist" and "sint (lc_next_id c) \<noteq> 2 ^ 63 - 1"
  shows "\<exists>c'. lsp_mint c kind = Some (lc_next_id c, c') \<and> client_inv c' (hist @ [Asked (lc_next_id c) kind]) \<and>
    sint (lc_next_id c') = sint (lc_next_id c) + 1"
proof -
  let ?p = "if supersedes kind then filter (\<lambda>(_, k). k \<noteq> kind) (lc_pending c) else lc_pending c"
  let ?c = "c\<lparr>lc_pending := ?p @ [(lc_next_id c, kind)], lc_next_id := lc_next_id c + 1\<rparr>"
  have up: "sint (lc_next_id c + 1) = sint (lc_next_id c) + 1" using sint_Suc [OF assms(2)] .
  have below: "sint n < sint (lc_next_id c)" if "n \<in> fst ` set (lc_pending c)" for n using assms(1) that by (auto simp: client_inv_def)
  have sub: "fst ` set ?p \<subseteq> fst ` set (lc_pending c)" by auto
  then have "lc_next_id c \<notin> fst ` set ?p" using below by blast
  moreover have "distinct (map fst ?p)" using assms(1) by (auto simp: client_inv_def intro: distinct_map_filter)
  ultimately have "distinct (map fst (lc_pending ?c))" by simp
  moreover have "sint n < sint (lc_next_id ?c)" if "n \<in> fst ` set (lc_pending ?c)" for n
  proof -
    from that have "n = lc_next_id c \<or> n \<in> fst ` set (lc_pending c)" using sub by fastforce
    then show ?thesis
    proof
      assume "n \<in> fst ` set (lc_pending c)"
      from below [OF this] show ?thesis using up by simp
    qed (use up in simp)
  qed
  moreover have "(n, k) \<in> set (lc_pending ?c) \<longleftrightarrow> awaited (hist @ [Asked (lc_next_id c) kind]) n k" for n k
    using assms(1) by (auto simp: client_inv_def awaited_asked)
  ultimately have "client_inv ?c (hist @ [Asked (lc_next_id c) kind])" using assms(1) by (simp add: client_inv_def)
  then show ?thesis using assms(2) up by (simp add: lsp_mint_def Let_def)
qed

lemma take_pending_cases:
  assumes "client_inv c hist"
  obtains "lsp_take_pending c n = (None, c)" "\<nexists>k. awaited hist n k"
  | k p where "lsp_take_pending c n = (Some k, c\<lparr>lc_pending := p\<rparr>)" "awaited hist n k"
      "\<And>m j. (m, j) \<in> set p \<longleftrightarrow> awaited hist m j \<and> m \<noteq> n" "distinct (map fst p)" "set p \<subseteq> set (lc_pending c)"
proof (cases "position (\<lambda>(i, _). i = n) (lc_pending c)")
  case None
  then have "(n, k) \<notin> set (lc_pending c)" for k by (auto simp: position_None list_ex_iff)
  then show ?thesis using that(1) None assms by (simp add: lsp_take_pending_def client_inv_def)
next
  case (Some ix)
  define p where "p = take ix (lc_pending c) @ drop (ix + 1) (lc_pending c)"
  obtain k where k: "lc_pending c ! ix = (n, k)" "lc_pending c = take ix (lc_pending c) @ (n, k) # drop (ix + 1) (lc_pending c)"
    using position_Some [OF Some] by (cases "lc_pending c ! ix") auto
  have inv: "distinct (map fst (lc_pending c))" "\<And>m j. (m, j) \<in> set (lc_pending c) \<longleftrightarrow> awaited hist m j" using assms by (simp_all add: client_inv_def)
  have set: "set (lc_pending c) = insert (n, k) (set p)" by (subst k(2)) (auto simp: p_def)
  have "distinct (map fst (take ix (lc_pending c) @ (n, k) # drop (ix + 1) (lc_pending c)))" using inv(1) k(2) by simp
  then have d: "distinct (map fst p)" "n \<notin> fst ` set p" by (auto simp: p_def)
  have "(m, j) \<in> set p \<longleftrightarrow> awaited hist m j \<and> m \<noteq> n" for m j
    using d(2) inv(2) [of m j] set by force
  moreover have "lsp_take_pending c n = (Some k, c\<lparr>lc_pending := p\<rparr>)" using Some k(1) by (simp add: lsp_take_pending_def p_def)
  ultimately show ?thesis using that(2) [of k p] d(1) inv(2) [of n k] set by auto
qed

lemma respond_inv:
  assumes "client_inv c hist" and "lsp_on_response c n result = (a, c')"
  shows "client_inv c' (hist @ [Heard n a]) \<and> lc_next_id c' = lc_next_id c"
  using assms(1)
proof (cases rule: take_pending_cases [where n = n])
  case 1
  then have "a = ActIgnored" "c' = c" using assms(2) by (auto simp: lsp_on_response_def)
  then show ?thesis using assms(1) 1(2) by (auto simp: client_inv_def awaited_heard reply_right_def)
next
  case (2 k p)
  have a: "action_of k a" "lc_pending c' = p" "lc_next_id c' = lc_next_id c"
    using assms(2) 2(1) by (auto simp: lsp_on_response_def split: sum.splits pending.splits)
  have "reply_right hist n a" using 2(2) a(1) by (auto simp: reply_right_def)
  moreover have "\<forall>m\<in>fst ` set p. sint m < sint (lc_next_id c)" using 2(5) assms(1) by (auto simp: client_inv_def)
  ultimately show ?thesis using 2(3,4) a assms(1) by (simp add: client_inv_def awaited_heard)
qed

lemma inv_same: "client_inv c hist \<Longrightarrow> lc_pending c' = lc_pending c \<Longrightarrow> lc_next_id c' = lc_next_id c \<Longrightarrow> client_inv c' hist"
  by (simp add: client_inv_def)

lemma lsp_step_inv:
  assumes "client_inv c hist" and "sint (lc_next_id c) \<noteq> 2 ^ 63 - 1"
  shows "\<exists>es c'. lsp_step c op = Some (es, c') \<and> client_inv c' (hist @ es) \<and> sint (lc_next_id c') \<le> sint (lc_next_id c) + 1"
proof (cases op)
  case (Ask kind uri pos)
  obtain c' where c': "lsp_mint c kind = Some (lc_next_id c, c')" "client_inv c' (hist @ [Asked (lc_next_id c) kind])"
    "sint (lc_next_id c') = sint (lc_next_id c) + 1" using mint_inv [OF assms] by blast
  obtain msg where "lsp_ask c kind uri pos = Some (msg, c')" "Option.bind (value_get msg ''id'') as_i64 = Some (lc_next_id c)"
    using ask_mint [OF c'(1)] by blast
  then have "lsp_step c op = Some ([Asked (lc_next_id c) kind], c')" by (simp add: lsp_step_def Ask del: bind_assoc)
  then show ?thesis using c' by simp
next
  case (Hear msg)
  show ?thesis
  proof (cases msg)
    case (RpcResponse n result)
    obtain a c' where r: "lsp_on_response c n result = (a, c')" by force
    then show ?thesis using respond_inv [OF assms(1) r] Hear RpcResponse by (auto simp: lsp_step_def lsp_handle_def)
  next
    case (RpcRequest i m p)
    then show ?thesis using assms(1) Hear by (simp add: lsp_step_def lsp_handle_def)
  next
    case (RpcNotification m p)
    obtain a c' where r: "lsp_on_notification c m p = (a, c')" by force
    then have "lc_pending c' = lc_pending c" "lc_next_id c' = lc_next_id c" by (auto simp: lsp_on_notification_def split: if_splits option.splits)
    then show ?thesis using inv_same [OF assms(1)] Hear RpcNotification r by (simp add: lsp_step_def lsp_handle_def)
  qed
next
  case (Forget uri)
  then show ?thesis using inv_same [OF assms(1), of "lsp_forget c uri"] by (simp add: lsp_step_def lsp_forget_def)
qed

lemma lsp_run_inv:
  "client_inv c hist \<Longrightarrow> sint (lc_next_id c) + int (length ops) < 2 ^ 63 \<Longrightarrow>
     \<exists>c' hist'. lsp_run c hist ops = Some (c', hist') \<and> client_inv c' hist'"
proof (induction ops arbitrary: c hist)
  case (Cons op ops)
  then have "sint (lc_next_id c) \<noteq> 2 ^ 63 - 1" by auto
  from lsp_step_inv [OF Cons.prems(1) this, of op] obtain es c' where s: "lsp_step c op = Some (es, c')" "client_inv c' (hist @ es)"
    "sint (lc_next_id c') \<le> sint (lc_next_id c) + 1" by blast
  have "sint (lc_next_id c') + int (length ops) < 2 ^ 63" using s(3) Cons.prems(2) by simp
  from Cons.IH [OF s(2) this] s(1) show ?case by simp
qed simp

text \<open>C13. The language client acts on the replies it awaits and on no others. Over any session of fewer than \<open>2 ^ 63 - 1\<close> steps no step panics, and every reply that comes in is
  acted on exactly when its question was asked, has had no reply since and was not superseded: a newer definition, hover or completion question makes the reply to
  the older one ignored, and so is a duplicate or an unknown id. What is done is of the kind of the question asked under that id.\<close>

theorem lsp_replies_awaited:
  assumes "length ops < 2 ^ 63 - 1"
  shows "\<exists>c hist. lsp_run lsp_new [] ops = Some (c, hist) \<and>
    (\<forall>l1 n a l2. hist = l1 @ Heard n a # l2 \<longrightarrow> (\<exists>k. awaited l1 n k \<and> action_of k a) \<or> (\<nexists>k. awaited l1 n k) \<and> a = ActIgnored)"
proof -
  have "client_inv lsp_new []" by (simp add: client_inv_def lsp_new_def)
  moreover have "sint (lc_next_id lsp_new) + int (length ops) < 2 ^ 63" using assms by (simp add: lsp_new_def)
  ultimately obtain c hist where "lsp_run lsp_new [] ops = Some (c, hist)" "log_right hist"
    using lsp_run_inv by (metis client_inv_def)
  then show ?thesis by (auto simp: log_right_def reply_right_def)
qed

theorem lsp_replies_awaited_witness:
  "\<exists>c hist. lsp_run lsp_new [] [Ask PHover ''f'' position_default, Ask PHover ''f'' position_default, Hear (RpcResponse 1 (Inr VNull))] = Some (c, hist) \<and>
     (\<forall>l1 n a l2. hist = l1 @ Heard n a # l2 \<longrightarrow> (\<exists>k. awaited l1 n k \<and> action_of k a) \<or> (\<nexists>k. awaited l1 n k) \<and> a = ActIgnored)"
  by (rule lsp_replies_awaited) simp

text \<open>The two hover questions of the witness get the ids 1 and 2; the reply to the first is ignored.\<close>

lemma superseded_hover:
  "map_option snd (lsp_run lsp_new [] [Ask PHover ''f'' position_default, Ask PHover ''f'' position_default, Hear (RpcResponse 1 (Inr VNull))]) =
     Some [Asked 1 PHover, Asked 2 PHover, Heard 1 ActIgnored]"
  by code_simp

text \<open>Every request of the server is answered, under its own id.\<close>

lemma server_request_answered:
  "\<exists>r. lsp_handle c (RpcRequest mid method params) = (ActSend r, c) \<and> value_get r ''id'' = Some mid \<and> value_get r ''method'' = None"
  by (simp add: lsp_handle_def lsp_on_server_request_def build_defs value_get_def)

section \<open>The diagnostics\<close>

lemma find_position: "find P xs = map_option (\<lambda>i. xs ! i) (position P xs)"
  by (induction xs) (auto simp: option.map_comp comp_def)

lemma find_update_other:
  "position P xs = Some i \<Longrightarrow> \<not> Q (xs ! i) \<Longrightarrow> \<not> Q y \<Longrightarrow> find Q (xs[i := y]) = find Q xs"
  by (induction xs arbitrary: i) (auto split: if_splits nat.splits)

lemma find_update_same: "position P xs = Some i \<Longrightarrow> P y \<Longrightarrow> find P (xs[i := y]) = Some y"
  by (induction xs arbitrary: i) (auto split: if_splits nat.splits)

lemma store_diagnostics_exact:
  "find (\<lambda>(u, _). u = v) (store_diagnostics ds uri l) = (if v = uri then Some (uri, l) else find (\<lambda>(u, _). u = v) ds)"
proof (cases "position (\<lambda>(u, _). u = uri) ds")
  case None
  then have "find (\<lambda>(u, _). u = uri) ds = None" by (simp add: find_position)
  moreover have "find P (ds @ [x]) = (case find P ds of Some y \<Rightarrow> Some y | None \<Rightarrow> if P x then Some x else None)" for P x
    by (induction ds) auto
  ultimately show ?thesis using None by (auto simp: store_diagnostics_def split: option.splits)
next
  case (Some i)
  then have i: "fst (ds ! i) = uri" using position_Some [OF Some] by auto
  show ?thesis
  proof (cases "v = uri")
    case True
    then show ?thesis using find_update_same [OF Some, of "(uri, l)"] Some i by (simp add: store_diagnostics_def)
  next
    case False
    then show ?thesis using find_update_other [OF Some, of "\<lambda>(u, _). u = v" "(uri, l)"] Some i
      by (cases "ds ! i") (simp add: store_diagnostics_def)
  qed
qed

text \<open>The store of the client is a map from files to their last published diagnostics.\<close>

lemma diagnostics_are_latest:
  "diagnostics_for (snd (lsp_on_notification c ''textDocument/publishDiagnostics'' (VObject ((''uri'', VStr uri) # rest)))) u =
     (if u = uri then parse_diagnostics (VObject ((''uri'', VStr uri) # rest)) else diagnostics_for c u)"
  "diagnostics_for (lsp_forget c uri) u = (if u = uri then [] else diagnostics_for c u)"
proof -
  show "diagnostics_for (snd (lsp_on_notification c ''textDocument/publishDiagnostics'' (VObject ((''uri'', VStr uri) # rest)))) u =
      (if u = uri then parse_diagnostics (VObject ((''uri'', VStr uri) # rest)) else diagnostics_for c u)"
    by (simp add: lsp_on_notification_def diagnostics_for_def store_diagnostics_exact value_get_def as_str_def value_or_def)
  have "find (\<lambda>(w, _). w = u) (filter (\<lambda>(w, _). w \<noteq> uri) ds) = (if u = uri then None else find (\<lambda>(w, _). w = u) ds)" for ds :: "(string \<times> diagnostic list) list"
    by (induction ds) auto
  then show "diagnostics_for (lsp_forget c uri) u = (if u = uri then [] else diagnostics_for c u)"
    by (simp add: diagnostics_for_def lsp_forget_def value_or_def)
qed

section \<open>Positions\<close>

text \<open>The characters of a string, each as its bytes, by the width their first byte announces.\<close>

lemma utf8_len_pos [simp]: "0 < utf8_len c" "utf8_len c \<noteq> 0"
  by (simp_all add: utf8_len_def)

function str_chars :: "string \<Rightarrow> string list" where
  "str_chars s = (case s of [] \<Rightarrow> [] | c # _ \<Rightarrow> take (utf8_len c) s # str_chars (drop (utf8_len c) s))"
  by pat_completeness auto
termination by (relation "measure length") auto
declare str_chars.simps [simp del]

definition unit_len :: "string \<Rightarrow> position_encoding \<Rightarrow> nat" where
  "unit_len ch enc =
     (case enc of
        Utf8 \<Rightarrow> length ch
      | Utf16 \<Rightarrow> if length ch = 4 then 2 else 1
      | Utf32 \<Rightarrow> 1)"

fun char_loop :: "position_encoding \<Rightarrow> nat \<Rightarrow> nat \<Rightarrow> nat \<Rightarrow> nat \<Rightarrow> string list \<Rightarrow> nat" where
  "char_loop enc target len off units [] = len"
| "char_loop enc target len off units (ch # chs) =
     (if units \<ge> target then off
      else char_loop enc target len (off + length ch) (units + unit_len ch enc) chs)"

definition char_to_byte :: "string \<Rightarrow> u32 \<Rightarrow> position_encoding \<Rightarrow> nat" where
  "char_to_byte line character enc =
     (let target = unat character
      in if target = 0 then 0 else char_loop enc target (length line) 0 0 (str_chars line))"

fun byte_loop :: "position_encoding \<Rightarrow> nat \<Rightarrow> nat \<Rightarrow> nat \<Rightarrow> string list \<Rightarrow> nat" where
  "byte_loop enc stop off units [] = units"
| "byte_loop enc stop off units (ch # chs) =
     (if off \<ge> stop then units
      else byte_loop enc stop (off + length ch) (units + unit_len ch enc) chs)"

definition byte_to_char :: "string \<Rightarrow> nat \<Rightarrow> position_encoding \<Rightarrow> u32" where
  "byte_to_char line byte enc = of_nat (byte_loop enc (min byte (length line)) 0 0 (str_chars line))"

text \<open>A boundary between characters, and the units of some characters.\<close>

definition is_boundary :: "string \<Rightarrow> nat \<Rightarrow> bool" where
  "is_boundary line b \<longleftrightarrow> list_ex (\<lambda>k. b = length (concat (take k (str_chars line)))) [0..<length (str_chars line) + 1]"

definition units_of :: "position_encoding \<Rightarrow> string list \<Rightarrow> nat" where
  "units_of enc chs = sum_list (map (\<lambda>ch. unit_len ch enc) chs)"

lemma str_chars_concat: "concat (str_chars s) = s"
proof (induction s rule: str_chars.induct)
  case (1 s)
  then show ?case by (cases s) (simp_all add: str_chars.simps)
qed

lemma str_chars_ne: "ch \<in> set (str_chars s) \<Longrightarrow> ch \<noteq> []"
proof (induction s rule: str_chars.induct)
  case (1 s)
  show ?case
  proof (cases s)
    case (Cons c cs)
    then have "ch = take (utf8_len c) s \<or> ch \<in> set (str_chars (drop (utf8_len c) s))" using 1(2) by (subst (asm) str_chars.simps) simp
    then show ?thesis using 1(1) Cons by auto
  qed (use 1(2) in \<open>simp add: str_chars.simps\<close>)
qed

lemma boundaryI: "k \<le> length (str_chars line) \<Longrightarrow> is_boundary line (length (concat (take k (str_chars line))))"
  unfolding is_boundary_def list_ex_iff by (rule bexI [of _ k]) auto

lemma boundaryE:
  assumes "is_boundary line b"
  obtains k where "k \<le> length (str_chars line)" "b = length (concat (take k (str_chars line)))"
proof -
  from assms obtain k where "k \<in> set [0..<length (str_chars line) + 1]" "b = length (concat (take k (str_chars line)))"
    unfolding is_boundary_def list_ex_iff by blast
  then show thesis using that [of k] by (metis atLeastLessThan_upt less_Suc_eq_le Suc_eq_plus1 atLeastLessThan_iff)
qed

lemma unit_pos: "ch \<noteq> [] \<Longrightarrow> 0 < unit_len ch enc" "ch \<noteq> [] \<Longrightarrow> unit_len ch enc \<le> length ch"
  by (cases enc; simp add: unit_len_def Suc_le_eq)+

lemma char_loop_at:
  "\<exists>k\<le>length chs. char_loop enc t (off + length (concat chs)) off u chs = off + length (concat (take k chs))"
proof (induction chs arbitrary: off u)
  case (Cons ch chs)
  show ?case
  proof (cases "u \<ge> t")
    case False
    obtain k where "k \<le> length chs" "char_loop enc t (off + length ch + length (concat chs)) (off + length ch) (u + unit_len ch enc) chs =
        off + length ch + length (concat (take k chs))" using Cons by blast
    then show ?thesis using False by (intro exI [of _ "Suc k"]) (simp add: add.assoc)
  qed (intro exI [of _ 0], simp)
qed simp

lemma char_loop_hits:
  "list_all (\<lambda>ch. ch \<noteq> []) chs \<Longrightarrow> k \<le> length chs \<Longrightarrow>
     char_loop enc (u + units_of enc (take k chs)) (off + length (concat chs)) off u chs = off + length (concat (take k chs))"
proof (induction chs arbitrary: off u k)
  case (Cons ch chs)
  show ?case
  proof (cases k)
    case (Suc j)
    have "0 < unit_len ch enc" using Cons.prems unit_pos by simp
    moreover have "char_loop enc (u + unit_len ch enc + units_of enc (take j chs)) (off + length ch + length (concat chs)) (off + length ch) (u + unit_len ch enc) chs =
        off + length ch + length (concat (take j chs))" using Cons Suc by simp
    ultimately show ?thesis using Suc by (simp add: units_of_def add.assoc)
  qed (simp add: units_of_def)
qed (simp add: units_of_def)

lemma byte_loop_hits:
  "list_all (\<lambda>ch. ch \<noteq> []) chs \<Longrightarrow> k \<le> length chs \<Longrightarrow>
     byte_loop enc (off + length (concat (take k chs))) off u chs = u + units_of enc (take k chs)"
proof (induction chs arbitrary: off u k)
  case (Cons ch chs)
  show ?case
  proof (cases k)
    case (Suc j)
    have "0 < length ch" using Cons.prems by simp
    moreover have "byte_loop enc (off + length ch + length (concat (take j chs))) (off + length ch) (u + unit_len ch enc) chs =
        u + unit_len ch enc + units_of enc (take j chs)" using Cons Suc by simp
    ultimately show ?thesis using Suc by (simp add: units_of_def add.assoc)
  qed (simp add: units_of_def)
qed (simp add: units_of_def)

lemma units_bound: "list_all (\<lambda>ch. ch \<noteq> []) chs \<Longrightarrow> units_of enc chs \<le> length (concat chs)"
proof (induction chs)
  case (Cons ch chs)
  then show ?case using unit_pos(2) [of ch enc] by (simp add: units_of_def)
qed (simp add: units_of_def)

lemma units_zero: "list_all (\<lambda>ch. ch \<noteq> []) chs \<Longrightarrow> units_of enc chs = 0 \<Longrightarrow> chs = []"
  using unit_pos(1) [of "hd chs" enc] by (cases chs) (auto simp: units_of_def)

text \<open>C30. Positions convert safely between a server's units and bytes. Whatever number a server sends, under each of the three encodings the byte offset computed
  lies on a boundary between characters of the line; and an offset on a boundary is turned into units and back without change.\<close>

theorem positions_convert:
  assumes "length line < 2 ^ 32" and "is_boundary line b"
  shows "is_boundary line (char_to_byte line n enc) \<and> char_to_byte line (byte_to_char line b enc) enc = b"
proof -
  let ?chs = "str_chars line"
  have ne: "list_all (\<lambda>ch. ch \<noteq> []) ?chs" using str_chars_ne by (auto simp: list_all_iff)
  have len: "length (concat ?chs) = length line" by (simp add: str_chars_concat)
  obtain j where "j \<le> length ?chs" "char_loop enc (unat n) (length line) 0 0 ?chs = length (concat (take j ?chs))"
    using char_loop_at [of ?chs enc "unat n" 0 0] len by auto
  then have 1: "is_boundary line (char_to_byte line n enc)"
    using boundaryI [of j line] boundaryI [of 0 line] by (simp add: char_to_byte_def Let_def)
  obtain k where k: "k \<le> length ?chs" "b = length (concat (take k ?chs))" using assms(2) by (rule boundaryE)
  have nek: "list_all (\<lambda>ch. ch \<noteq> []) (take k ?chs)" using ne by (auto simp: list_all_iff dest: in_set_takeD)
  have "length (concat (take k ?chs)) + length (concat (drop k ?chs)) = length line"
    using len by (metis append_take_drop_id concat_append length_append)
  then have le: "b \<le> length line" using k(2) by simp
  have "units_of enc (take k ?chs) < 2 ^ 32" using units_bound [OF nek, of enc] le k(2) assms(1) by simp
  then have u: "unat (byte_to_char line b enc) = units_of enc (take k ?chs)"
    using byte_loop_hits [OF ne k(1), of enc 0 0] le k(2) by (simp add: byte_to_char_def unat_of_nat take_bit_nat_eq_self)
  show ?thesis
  proof (cases "units_of enc (take k ?chs) = 0")
    case True
    then have "take k ?chs = []" using units_zero [OF nek] by blast
    then have "b = 0" by (simp only: k(2)) simp
    then show ?thesis using 1 u True by (simp add: char_to_byte_def Let_def)
  next
    case False
    then show ?thesis using 1 u char_loop_hits [OF ne k(1), of enc 0 0] len k(2) by (simp add: char_to_byte_def Let_def)
  qed
qed

theorem positions_convert_witness:
  "is_boundary [CHR ''a'', CHR 0xC3, CHR 0xA9] (char_to_byte [CHR ''a'', CHR 0xC3, CHR 0xA9] 7 Utf16) \<and>
   char_to_byte [CHR ''a'', CHR 0xC3, CHR 0xA9] (byte_to_char [CHR ''a'', CHR 0xC3, CHR 0xA9] 3 Utf16) Utf16 = 3"
proof -
  have "is_boundary [CHR ''a'', CHR 0xC3, CHR 0xA9] 3" by code_simp
  then show ?thesis by (intro positions_convert) simp_all
qed

section \<open>File URIs\<close>

definition uri_hex :: "nat \<Rightarrow> char" where
  "uri_hex n = (if n < 10 then char_of (0x30 + n) else char_of (0x41 + (n - 10)))"

definition is_unreserved :: "char \<Rightarrow> bool" where
  "is_unreserved b \<longleftrightarrow> 0x41 \<le> ord b \<and> ord b \<le> 0x5A \<or> 0x61 \<le> ord b \<and> ord b \<le> 0x7A \<or> 0x30 \<le> ord b \<and> ord b \<le> 0x39 \<or>
     b \<in> {CHR ''-'', CHR ''.'', CHR ''_'', CHR ''~'', CHR ''/''}"

definition uri_byte :: "char \<Rightarrow> string" where
  "uri_byte b = (if is_unreserved b then [b] else [CHR ''%'', uri_hex (ord b div 16), uri_hex (ord b mod 16)])"

definition path_to_uri :: "string \<Rightarrow> string" where
  "path_to_uri path = ''file://'' @ concat (map uri_byte path)"

function uri_loop :: "string \<Rightarrow> nat \<Rightarrow> string \<Rightarrow> string option" where
  "uri_loop bytes i out =
     (if i < length bytes then
        if bytes ! i = CHR ''%'' \<and> i + 2 < length bytes then
          (case to_digit 16 (bytes ! (i + 1)) of
             None \<Rightarrow> None
           | Some hi \<Rightarrow>
               (case to_digit 16 (bytes ! (i + 2)) of
                  None \<Rightarrow> None
                | Some lo \<Rightarrow> uri_loop bytes (i + 3) (out @ [char_of (hi * 16 + lo)])))
        else uri_loop bytes (i + 1) (out @ [bytes ! i])
      else Some out)"
  by pat_completeness auto
termination by (relation "measure (\<lambda>(bytes, i, out). length bytes - i)") auto
declare uri_loop.simps [simp del]

definition uri_to_path :: "string \<Rightarrow> string option" where
  "uri_to_path uri =
     (case or_else (strip_prefix ''file://'' uri) (strip_prefix ''file:'' uri) of
        None \<Rightarrow> None
      | Some rest \<Rightarrow>
          let rest = value_or rest (strip_prefix ''localhost'' rest)
          in case uri_loop rest 0 [] of
               None \<Rightarrow> None
             | Some out \<Rightarrow> if utf8_ok out then Some out else None)"

lemma uri_hex_digit: "n < 16 \<Longrightarrow> to_digit 16 (uri_hex n) = Some n"
  by (auto simp: to_digit_def uri_hex_def Let_def)

lemma uri_loop_step:
  assumes "drop i bytes = uri_byte b @ rest"
  shows "uri_loop bytes i out = uri_loop bytes (i + length (uri_byte b)) (out @ [b])"
proof (cases "is_unreserved b")
  case True
  then have "i < length bytes" "bytes ! i = b" using assms by (auto simp: uri_byte_def nth_via_drop) (metis drop_all linorder_not_le list.distinct(1))
  moreover have "b \<noteq> CHR ''%''" using True by (auto simp: is_unreserved_def)
  ultimately show ?thesis using True by (subst uri_loop.simps) (simp add: uri_byte_def)
next
  case False
  then have d: "drop i bytes = [CHR ''%'', uri_hex (ord b div 16), uri_hex (ord b mod 16)] @ rest" using assms by (simp add: uri_byte_def)
  have len: "i + 2 < length bytes" using arg_cong [OF d, of length] by simp
  have nth: "bytes ! (i + k) = drop i bytes ! k" for k using len by (simp add: nth_drop)
  have at: "bytes ! i = CHR ''%''" "bytes ! (i + 1) = uri_hex (ord b div 16)" "bytes ! (i + 2) = uri_hex (ord b mod 16)"
    using nth [of 0] nth [of 1] nth [of 2] by (simp_all add: d del: One_nat_def)
  have "to_digit 16 (uri_hex (ord b div 16)) = Some (ord b div 16)" "to_digit 16 (uri_hex (ord b mod 16)) = Some (ord b mod 16)"
    by (rule uri_hex_digit; simp add: div_less_iff_less_mult)+
  moreover have "length (uri_byte b) = 3" using False by (simp add: uri_byte_def)
  ultimately show ?thesis using False len at by (subst uri_loop.simps) simp
qed

lemma uri_loop_path: "drop i bytes = concat (map uri_byte path) \<Longrightarrow> i \<le> length bytes \<Longrightarrow> uri_loop bytes i out = Some (out @ path)"
proof (induction path arbitrary: i out)
  case Nil
  then show ?case by (subst uri_loop.simps) simp
next
  case (Cons b path)
  have d: "drop i bytes = uri_byte b @ concat (map uri_byte path)" using Cons.prems by simp
  have "drop (i + length (uri_byte b)) bytes = concat (map uri_byte path)" using arg_cong [OF d, of "drop (length (uri_byte b))"] by (simp add: add.commute)
  moreover have "i + length (uri_byte b) \<le> length bytes" using arg_cong [OF d, of length] Cons.prems(2) by simp
  ultimately show ?case using uri_loop_step [OF d] Cons.IH by simp
qed

text \<open>A path survives its URI: the URI of an absolute path is read back as the path, whatever bytes the path holds.\<close>

theorem uri_round_trip:
  assumes "utf8_ok path" and "path \<noteq> []" and "hd path = CHR ''/''"
  shows "uri_to_path (path_to_uri path) = Some path"
proof -
  obtain rest where p: "path = CHR ''/'' # rest" using assms(2,3) by (cases path) auto
  have "uri_byte CHR ''/'' = ''/''" by (simp add: uri_byte_def is_unreserved_def)
  then have "strip_prefix ''localhost'' (concat (map uri_byte path)) = None" by (simp add: p)
  moreover have "strip_prefix ''file://'' (path_to_uri path) = Some (concat (map uri_byte path))" unfolding path_to_uri_def by (rule strip_prefix_append)
  ultimately show ?thesis using uri_loop_path [of 0 "concat (map uri_byte path)" path "[]"] assms(1)
    by (simp add: uri_to_path_def or_else_def value_or_def)
qed

theorem uri_round_trip_witness: "uri_to_path (path_to_uri ''/a b%'') = Some ''/a b%''"
  by (rule uri_round_trip) (simp_all add: utf8_ascii)

end
