(* ===== verification/Spec2Isabelle.thy ===== *)
theory Spec2Isabelle
  imports Ninep_Msgs Virtio_Net Heap_Reservations Warden_Database Tap_Ring Shell_Jobs Shell_Glob Va_Window Mmio_Source Parley_Lsp
begin

text \<open>
  Verification of the Rust userland of Thylacine (\<open>usr/\<close>).
\<close>

end
